(* ===== verification/Prelude.thy ===== *)
theory Prelude
  imports Main "HOL-Library.Word"
begin

section \<open>Shared vocabulary of the NanoMatch-OME development\<close>

text \<open>
  Machine types of the C++ sources, the collections of rewrite rules the components
  share, and the generic lemmas on lists, options and words that more than one
  component uses.

  A C++ pointer to an \<open>Order\<close> is an address option: \<open>None\<close> is \<open>nullptr\<close>, and an
  address is the index of a slot (\<open>src/src/core/order_pool.hpp\<close>, \<open>storage_\<close>).
\<close>

type_synonym u8 = "8 word"
type_synonym u16 = "16 word"
type_synonym u32 = "32 word"
type_synonym u64 = "64 word"

type_synonym addr = nat
type_synonym ptr = "addr option"

named_theorems field_frame \<open>fields of a state that an operation leaves alone\<close>
named_theorems inv_pres \<open>operations that keep an invariant\<close>

subsection \<open>Faults and their sequencing\<close>

text \<open>
  What can stop a thread of the program: a dereference of \<open>nullptr\<close> (undefined
  behaviour in C++), a busy-wait whose other side never acts again, a loop that has used
  up the iterations the model grants it, and an \<open>assert\<close> that does not hold.
\<close>

datatype fault = NullDeref | Blocked | OutOfFuel | AssertFailed

definition ebind :: "fault + 'a \<Rightarrow> ('a \<Rightarrow> fault + 'b) \<Rightarrow> fault + 'b" where
  "ebind r f = (case r of Inl e \<Rightarrow> Inl e | Inr x \<Rightarrow> f x)"

lemma ebind_simps [simp]:
  "ebind (Inl e) f = Inl e"
  "ebind (Inr x) f = f x"
  by (simp_all add: ebind_def)

lemma ebind_Inr_iff: "ebind r f = Inr y \<longleftrightarrow> (\<exists>x. r = Inr x \<and> f x = Inr y)"
  by (cases r) auto

lemma ebind_assoc: "ebind (ebind r f) g = ebind r (\<lambda>x. ebind (f x) g)"
  by (cases r) simp_all

lemma ebind_Inl_iff: "ebind r f = Inl e \<longleftrightarrow> r = Inl e \<or> (\<exists>x. r = Inr x \<and> f x = Inl e)"
  by (cases r) auto

text \<open>The system and library calls with which resources are given back.\<close>

datatype os_call = CloseFd int | UnregisterBuffers | RxQueueExit | TxQueueExit | Munmap nat

subsection \<open>Words\<close>

lemma of_nat_Suc_minus_1 [simp]: "(of_nat (Suc n) :: 'a::len word) - 1 = of_nat n"
  by simp

lemma unat_of_nat_small: "n < 2 ^ LENGTH('a) \<Longrightarrow> unat (of_nat n :: 'a::len word) = n"
  by (simp add: unat_of_nat take_bit_nat_eq_self)

lemma of_nat_word_pos_iff:
  "n < 2 ^ LENGTH('a) \<Longrightarrow> (1 \<le> (of_nat n :: 'a::len word)) \<longleftrightarrow> 0 < n"
  by (simp add: word_le_nat_alt unat_of_nat_small)
     (cases n; simp add: unat_of_nat_small)

lemma unat_Suc_word: "Suc (unat x) < 2 ^ LENGTH('a) \<Longrightarrow> unat (x + 1) = Suc (unat x)"
  for x :: "'a::len word"
  by (simp add: unat_word_ariths)

lemma unat_pred_word: "unat x = Suc n \<Longrightarrow> unat (x - 1) = n" for x :: "'a::len word"
  by (metis diff_Suc_1 nat.distinct(1) unat_0 unat_minus_one)

subsection \<open>Lists\<close>

lemma in_set_split_distinct:
  assumes "a \<in> set xs" and "distinct xs"
  obtains ys zs where "xs = ys @ a # zs" and "a \<notin> set ys" and "a \<notin> set zs"
  using assms by (metis distinct.simps(2) distinct_append not_distinct_conv_prefix split_list
      Un_iff insert_iff list.set(2) set_append disjoint_iff)

subsection \<open>State machines\<close>

text \<open>
  A step relation with an invariant that holds at the start and that every step keeps:
  the invariant then holds in every state a run can reach.
\<close>

locale safety_machine =
  fixes init :: "'s \<Rightarrow> bool"
    and step :: "'s \<Rightarrow> 's \<Rightarrow> bool"
    and inv :: "'s \<Rightarrow> bool"
  assumes init_inv: "init s \<Longrightarrow> inv s"
    and step_inv: "inv s \<Longrightarrow> step s t \<Longrightarrow> inv t"
begin

lemma steps_inv: "step\<^sup>*\<^sup>* s t \<Longrightarrow> inv s \<Longrightarrow> inv t"
  by (induction rule: rtranclp_induct) (auto intro: step_inv)

lemma reachable_inv: "init s \<Longrightarrow> step\<^sup>*\<^sup>* s t \<Longrightarrow> inv t"
  by (blast intro: steps_inv init_inv)

end

text \<open>
  A machine whose own steps use up a rank that its environment leaves alone, as long as it is
  winding down: it takes no more steps than its rank at the start.
\<close>

locale ranked_machine =
  fixes step :: "'s \<Rightarrow> 's \<Rightarrow> bool"
    and env :: "'s \<Rightarrow> 's \<Rightarrow> bool"
    and ending :: "'s \<Rightarrow> bool"
    and rank :: "'s \<Rightarrow> nat"
  assumes step_rank: "ending s \<Longrightarrow> step s t \<Longrightarrow> rank t < rank s \<and> ending t"
    and env_rank: "ending s \<Longrightarrow> env s t \<Longrightarrow> rank t = rank s \<and> ending t"
begin

lemma envs_rank: "env\<^sup>*\<^sup>* s t \<Longrightarrow> ending s \<Longrightarrow> rank t = rank s \<and> ending t"
  by (induction rule: rtranclp_induct) (auto dest: env_rank)

lemma rounds_rank: "((env\<^sup>*\<^sup>* OO step) ^^ n) s t \<Longrightarrow> ending s \<Longrightarrow> n + rank t \<le> rank s \<and> ending t"
proof (induction n arbitrary: t)
  case (Suc n)
  then obtain r e where r: "n + rank r \<le> rank s" "ending r" and e: "env\<^sup>*\<^sup>* r e" "step e t"
    by auto
  then show ?case
    using envs_rank [OF e(1)] step_rank [OF _ e(2)] by fastforce
qed simp

text \<open>It does stop: some run goes on to a state without a step, in no more steps than the rank.\<close>

lemma runs_out: "ending s \<Longrightarrow> \<exists>n t. n \<le> rank s \<and> (step ^^ n) s t \<and> (\<forall>u. \<not> step t u)"
proof (induction "rank s" arbitrary: s rule: less_induct)
  case less
  show ?case
  proof (cases "\<exists>t. step s t")
    case True
    then obtain t where t: "step s t" ..
    from step_rank [OF less.prems t] less.hyps [of t] obtain n u
      where "n \<le> rank t" "(step ^^ n) t u" "\<forall>v. \<not> step u v" "rank t < rank s"
      by blast
    then show ?thesis
      using relpowp_Suc_I2 [of step, OF t] by (intro exI [of _ "Suc n"] exI [of _ u]) auto
  next
    case False
    then show ?thesis
      by (intro exI [of _ 0] exI [of _ s]) simp
  qed
qed

end

end
