(* ===== verification/Order_Core.thy ===== *)
theory Order_Core
  imports Prelude
begin

section \<open>Orders (\<open>src/src/core/order.hpp\<close>)\<close>

text \<open>
  The enumerations, the sentinels and the \<open>Order\<close> struct. The C++ enumerations have a
  fixed underlying type \<open>uint8_t\<close>, so a \<open>static_cast\<close> from a wire byte can produce a
  value that is none of the enumerators: the \<open>_raw\<close> constructors hold those bytes.
  A \<open>Price\<close> (\<open>int64_t\<close>) is an \<open>int\<close>: the code subtracts prices only after checking that
  they lie in the book's range, and the width of that range is below \<open>2 ^ 63\<close> for every
  book the properties are about (\<open>valid_geometry\<close> in \<open>Order_Book_Inv\<close>).
\<close>

datatype Side = Buy | Sell | Side_raw u8

definition side_of_u8 :: "u8 \<Rightarrow> Side" where
  "side_of_u8 b = (if b = 0 then Buy else if b = 1 then Sell else Side_raw b)"

datatype OrderType = Limit | Market | IOC | FOK | OrderType_raw u8

definition order_type_of_u8 :: "u8 \<Rightarrow> OrderType" where
  "order_type_of_u8 b =
     (if b = 0 then Limit else if b = 1 then Market else if b = 2 then IOC
      else if b = 3 then FOK else OrderType_raw b)"

datatype OrderStatus = New | Partial | Filled | Cancelled | Rejected

text \<open>
  The enumerators of \<open>OrderStatus\<close> are numbered 0 to 4 and compare by that number.
\<close>

fun status_code :: "OrderStatus \<Rightarrow> nat" where
  "status_code New = 0"
| "status_code Partial = 1"
| "status_code Filled = 2"
| "status_code Cancelled = 3"
| "status_code Rejected = 4"

lemma status_code_inject [simp]: "status_code a = status_code b \<longleftrightarrow> a = b"
  by (cases a; cases b) simp_all

instantiation OrderStatus :: linorder
begin

definition less_eq_OrderStatus :: "OrderStatus \<Rightarrow> OrderStatus \<Rightarrow> bool" where
  "less_eq_OrderStatus a b \<longleftrightarrow> status_code a \<le> status_code b"

definition less_OrderStatus :: "OrderStatus \<Rightarrow> OrderStatus \<Rightarrow> bool" where
  "less_OrderStatus a b \<longleftrightarrow> status_code a < status_code b"

instance
  by standard (auto simp: less_eq_OrderStatus_def less_OrderStatus_def)

end

type_synonym OrderId = u64
type_synonym InstrumentId = u32
type_synonym Quantity = u32
type_synonym Price = int

definition kInvalidOrderId :: OrderId where
  "kInvalidOrderId = 0"

definition kInvalidInstrumentId :: InstrumentId where
  "kInvalidInstrumentId = 0xFFFFFFFF"

definition kInvalidPrice :: Price where
  "kInvalidPrice = - (2 ^ 63)"

record Order =
  order_id :: OrderId
  price :: Price
  timestamp_ns :: u64
  quantity :: Quantity
  orig_quantity :: Quantity
  instrument_id :: InstrumentId
  side :: Side
  otype :: OrderType
  status :: OrderStatus
  pad0 :: u8
  nxt :: ptr
  prv :: ptr
  client_id :: u64
  reserved :: u64

definition is_buy :: "Order \<Rightarrow> bool" where
  "is_buy o1 \<longleftrightarrow> side o1 = Buy"

definition is_sell :: "Order \<Rightarrow> bool" where
  "is_sell o1 \<longleftrightarrow> side o1 = Sell"

definition is_filled :: "Order \<Rightarrow> bool" where
  "is_filled o1 \<longleftrightarrow> status o1 = Filled"

definition is_cancelled :: "Order \<Rightarrow> bool" where
  "is_cancelled o1 \<longleftrightarrow> status o1 = Cancelled"

definition is_active :: "Order \<Rightarrow> bool" where
  "is_active o1 \<longleftrightarrow> status o1 = New \<or> status o1 = Partial"

definition reset :: "Order \<Rightarrow> Order" where
  "reset o1 = o1\<lparr>
     order_id := kInvalidOrderId,
     price := kInvalidPrice,
     timestamp_ns := 0,
     quantity := 0,
     orig_quantity := 0,
     instrument_id := kInvalidInstrumentId,
     side := Buy,
     otype := Limit,
     status := New,
     pad0 := 0,
     nxt := None,
     prv := None,
     client_id := 0,
     reserved := 0\<rparr>"

lemma is_buy_simps [simp]:
  "is_buy (o1\<lparr>quantity := q\<rparr>) = is_buy o1"
  "is_buy (o1\<lparr>status := st\<rparr>) = is_buy o1"
  "is_buy (o1\<lparr>nxt := n\<rparr>) = is_buy o1"
  "is_buy (o1\<lparr>prv := n\<rparr>) = is_buy o1"
  by (simp_all add: is_buy_def)

text \<open>Whatever the slot held before, \<open>reset\<close> yields one and the same blank order.\<close>

lemma reset_const: "reset (o1 :: Order) = reset o2"
  by (cases o1; cases o2) (simp add: reset_def)

subsection \<open>The store of orders\<close>

text \<open>
  All orders live in one array of slots; a heap gives the order in each slot. \<open>walk\<close>
  follows \<open>Order::next\<close> for at most \<open>n\<close> steps, the reading both the free list and the
  price-level queues are given.
\<close>

type_synonym heap = "addr \<Rightarrow> Order"

fun walk :: "nat \<Rightarrow> heap \<Rightarrow> ptr \<Rightarrow> addr list" where
  "walk 0 h p = []"
| "walk (Suc n) h None = []"
| "walk (Suc n) h (Some a) = a # walk n h (nxt (h a))"

end
