(* ===== verification/Price_Level.thy ===== *)
theory Price_Level
  imports Order_Core
begin

section \<open>Price levels (\<open>src/src/lob/order_book.hpp\<close>, \<open>PriceLevel\<close> and its helpers)\<close>

text \<open>
  A price level owns a doubly-linked queue threaded through \<open>Order::next\<close> and
  \<open>Order::prev\<close>. The helpers take the heap and the level and return both, since they
  write through the order pointers. \<open>level_repr h lvl xs\<close> says the queue is exactly the
  address list \<open>xs\<close>, oldest first; every helper is described as a list operation on it.
  Under \<open>NDEBUG\<close> (the release flags of \<open>CMakeLists.txt\<close>) the asserts are absent, so
  they are not part of the model.
\<close>

record PriceLevel =
  lvl_head :: ptr
  lvl_tail :: ptr
  lvl_price :: Price
  lvl_total_qty :: u32
  lvl_order_count :: u32

definition PriceLevel_new :: PriceLevel where
  "PriceLevel_new = \<lparr>lvl_head = None, lvl_tail = None, lvl_price = 0,
     lvl_total_qty = 0, lvl_order_count = 0\<rparr>"

definition level_empty :: "PriceLevel \<Rightarrow> bool" where
  "level_empty lvl \<longleftrightarrow> lvl_head lvl = None"

definition level_enqueue_tail :: "heap \<Rightarrow> PriceLevel \<Rightarrow> ptr \<Rightarrow> heap \<times> PriceLevel" where
  "level_enqueue_tail h lvl p =
     (case p of
        None \<Rightarrow> (h, lvl)
      | Some a \<Rightarrow>
          (let h1 = h(a := (h a)\<lparr>nxt := None, prv := lvl_tail lvl\<rparr>);
               (h2, lvl1) =
                 (case lvl_tail lvl of
                    Some t \<Rightarrow> (h1(t := (h1 t)\<lparr>nxt := Some a\<rparr>), lvl)
                  | None \<Rightarrow> (h1, lvl\<lparr>lvl_head := Some a\<rparr>))
           in (h2, lvl1\<lparr>lvl_tail := Some a,
                  lvl_total_qty := lvl_total_qty lvl + quantity (h2 a),
                  lvl_order_count := lvl_order_count lvl + 1\<rparr>)))"

text \<open>The guarded subtractions of \<open>total_qty\<close> and \<open>order_count\<close>.\<close>

definition sub_or_zero :: "u32 \<Rightarrow> u32 \<Rightarrow> u32" where
  "sub_or_zero x d = (if d \<le> x then x - d else 0)"

definition level_dequeue_head :: "heap \<Rightarrow> PriceLevel \<Rightarrow> ptr \<times> heap \<times> PriceLevel" where
  "level_dequeue_head h lvl =
     (case lvl_head lvl of
        None \<Rightarrow> (None, h, lvl)
      | Some a \<Rightarrow>
          (let lvl1 = lvl\<lparr>lvl_head := nxt (h a)\<rparr>;
               (h2, lvl2) =
                 (case lvl_head lvl1 of
                    Some b \<Rightarrow> (h(b := (h b)\<lparr>prv := None\<rparr>), lvl1)
                  | None \<Rightarrow> (h, lvl1\<lparr>lvl_tail := None\<rparr>));
               lvl3 = lvl2\<lparr>lvl_total_qty := sub_or_zero (lvl_total_qty lvl2) (quantity (h2 a)),
                           lvl_order_count := sub_or_zero (lvl_order_count lvl2) 1\<rparr>
           in (Some a, h2(a := (h2 a)\<lparr>nxt := None, prv := None\<rparr>), lvl3)))"

definition level_remove :: "heap \<Rightarrow> PriceLevel \<Rightarrow> ptr \<Rightarrow> heap \<times> PriceLevel" where
  "level_remove h lvl p =
     (case p of
        None \<Rightarrow> (h, lvl)
      | Some a \<Rightarrow>
          (let (h1, lvl1) =
                 (case prv (h a) of
                    Some b \<Rightarrow> (h(b := (h b)\<lparr>nxt := nxt (h a)\<rparr>), lvl)
                  | None \<Rightarrow> (h, lvl\<lparr>lvl_head := nxt (h a)\<rparr>));
               (h2, lvl2) =
                 (case nxt (h1 a) of
                    Some c \<Rightarrow> (h1(c := (h1 c)\<lparr>prv := prv (h1 a)\<rparr>), lvl1)
                  | None \<Rightarrow> (h1, lvl1\<lparr>lvl_tail := prv (h1 a)\<rparr>));
               lvl3 = lvl2\<lparr>lvl_total_qty := sub_or_zero (lvl_total_qty lvl2) (quantity (h2 a)),
                           lvl_order_count := sub_or_zero (lvl_order_count lvl2) 1\<rparr>
           in (h2(a := (h2 a)\<lparr>nxt := None, prv := None\<rparr>), lvl3)))"

definition level_reduce_qty ::
  "heap \<Rightarrow> PriceLevel \<Rightarrow> ptr \<Rightarrow> Quantity \<Rightarrow> heap \<times> PriceLevel" where
  "level_reduce_qty h lvl p delta =
     (case p of
        None \<Rightarrow> (h, lvl)
      | Some a \<Rightarrow>
          (h(a := (h a)\<lparr>quantity := sub_or_zero (quantity (h a)) delta\<rparr>),
           lvl\<lparr>lvl_total_qty := sub_or_zero (lvl_total_qty lvl) delta\<rparr>))"

subsection \<open>Doubly-linked segments\<close>

text \<open>
  \<open>dseg h p x as l e\<close>: starting at pointer \<open>x\<close>, the nodes \<open>as\<close> are linked by
  \<open>next\<close> up to the pointer \<open>e\<close> and backwards by \<open>prev\<close>, the first node's \<open>prev\<close>
  being \<open>p\<close>; \<open>l\<close> is the last node (\<open>p\<close> when there is none).
\<close>

primrec dseg :: "heap \<Rightarrow> ptr \<Rightarrow> ptr \<Rightarrow> addr list \<Rightarrow> ptr \<Rightarrow> ptr \<Rightarrow> bool" where
  "dseg h p x [] l e \<longleftrightarrow> x = e \<and> l = p"
| "dseg h p x (a # as) l e \<longleftrightarrow> x = Some a \<and> prv (h a) = p \<and> dseg h (Some a) (nxt (h a)) as l e"

lemma dseg_append:
  "dseg h p x (as @ bs) l e \<longleftrightarrow> (\<exists>m y. dseg h p x as m y \<and> dseg h m y bs l e)"
  by (induction as arbitrary: p x) auto

lemma dseg_cong:
  "(\<And>a. a \<in> set as \<Longrightarrow> nxt (h a) = nxt (h' a) \<and> prv (h a) = prv (h' a)) \<Longrightarrow>
   dseg h p x as l e = dseg h' p x as l e"
  by (induction as arbitrary: p x) auto

lemma dseg_upd_notin [simp]: "a \<notin> set as \<Longrightarrow> dseg (h(a := v)) p x as l e = dseg h p x as l e"
  by (rule dseg_cong) auto

lemma dseg_walk: "dseg h p x as l None \<Longrightarrow> walk (length as) h x = as"
  by (induction as arbitrary: p x) auto

lemma dseg_last:
  "dseg h p x as l e \<Longrightarrow> l = (if as = [] then p else Some (last as))"
  by (induction as arbitrary: p x) auto

text \<open>Relinking the two ends of a segment.\<close>

lemma dseg_set_end:
  assumes "dseg h p x (as @ [t]) l e" and "distinct (as @ [t])"
  shows "dseg (h(t := (h t)\<lparr>nxt := e'\<rparr>)) p x (as @ [t]) l e'"
  using assms by (auto simp: dseg_append)

lemma dseg_set_start:
  assumes "dseg h p x (b # bs) l e" and "distinct (b # bs)"
  shows "dseg (h(b := (h b)\<lparr>prv := p'\<rparr>)) p' x (b # bs) l e"
  using assms by simp

subsection \<open>Levels as lists\<close>

definition level_orders :: "heap \<Rightarrow> PriceLevel \<Rightarrow> addr list" where
  "level_orders h lvl = walk (unat (lvl_order_count lvl)) h (lvl_head lvl)"

definition level_repr :: "heap \<Rightarrow> PriceLevel \<Rightarrow> addr list \<Rightarrow> bool" where
  "level_repr h lvl xs \<longleftrightarrow>
     dseg h None (lvl_head lvl) xs (lvl_tail lvl) None \<and> distinct xs \<and>
     lvl_order_count lvl = of_nat (length xs) \<and> length xs < 2 ^ 32"

definition level_ok :: "heap \<Rightarrow> PriceLevel \<Rightarrow> bool" where
  "level_ok h lvl \<longleftrightarrow> level_repr h lvl (level_orders h lvl)"

text \<open>The aggregate is exact: \<open>total_qty\<close> is the true sum, without wrap-around.\<close>

definition qty_sum :: "heap \<Rightarrow> addr list \<Rightarrow> nat" where
  "qty_sum h xs = sum_list (map (\<lambda>a. unat (quantity (h a))) xs)"

definition level_qty_ok :: "heap \<Rightarrow> PriceLevel \<Rightarrow> addr list \<Rightarrow> bool" where
  "level_qty_ok h lvl xs \<longleftrightarrow> unat (lvl_total_qty lvl) = qty_sum h xs"

lemma qty_sum_simps [simp]:
  "qty_sum h [] = 0"
  "qty_sum h (a # as) = unat (quantity (h a)) + qty_sum h as"
  "qty_sum h (as @ bs) = qty_sum h as + qty_sum h bs"
  by (simp_all add: qty_sum_def)

lemma qty_sum_cong:
  "(\<And>a. a \<in> set xs \<Longrightarrow> quantity (h a) = quantity (h' a)) \<Longrightarrow> qty_sum h xs = qty_sum h' xs"
  by (induction xs) auto

lemma qty_sum_upd_notin [simp]: "a \<notin> set xs \<Longrightarrow> qty_sum (h(a := v)) xs = qty_sum h xs"
  by (rule qty_sum_cong) auto

lemma level_repr_orders: "level_repr h lvl xs \<Longrightarrow> level_orders h lvl = xs"
  by (auto simp: level_repr_def level_orders_def unat_of_nat_small intro: dseg_walk)

lemma level_repr_ok: "level_repr h lvl xs \<Longrightarrow> level_ok h lvl"
  using level_repr_orders [of h lvl xs] by (simp add: level_ok_def)

lemma level_ok_repr: "level_ok h lvl \<Longrightarrow> level_repr h lvl (level_orders h lvl)"
  by (simp add: level_ok_def)

lemma level_repr_unique: "level_repr h lvl xs \<Longrightarrow> level_repr h lvl ys \<Longrightarrow> xs = ys"
  using level_repr_orders by blast

lemma level_repr_cong:
  "(\<And>a. a \<in> set xs \<Longrightarrow> nxt (h a) = nxt (h' a) \<and> prv (h a) = prv (h' a)) \<Longrightarrow>
   level_repr h lvl xs = level_repr h' lvl xs"
  using dseg_cong [of xs h h'] by (auto simp: level_repr_def)

lemma level_repr_empty: "level_repr h lvl xs \<Longrightarrow> level_empty lvl \<longleftrightarrow> xs = []"
  by (cases xs) (auto simp: level_repr_def level_empty_def)

lemma level_repr_head: "level_repr h lvl (a # as) \<Longrightarrow> lvl_head lvl = Some a"
  by (simp add: level_repr_def)

lemma level_new_repr: "level_repr h (PriceLevel_new\<lparr>lvl_price := p\<rparr>) []"
  by (simp add: level_repr_def PriceLevel_new_def)

subsection \<open>What the helpers may change\<close>

text \<open>
  \<open>relinked A h h'\<close>: going from \<open>h\<close> to \<open>h'\<close> only \<open>next\<close> and \<open>prev\<close> of orders in
  \<open>A\<close> changed.
\<close>

definition unlink :: "Order \<Rightarrow> Order" where
  "unlink o1 = o1\<lparr>nxt := None, prv := None\<rparr>"

definition relinked :: "addr set \<Rightarrow> heap \<Rightarrow> heap \<Rightarrow> bool" where
  "relinked A h h' \<longleftrightarrow> (\<forall>c. unlink (h' c) = unlink (h c)) \<and> (\<forall>c. c \<notin> A \<longrightarrow> h' c = h c)"

lemma unlink_simps [simp]:
  "unlink (o1\<lparr>nxt := n\<rparr>) = unlink o1"
  "unlink (o1\<lparr>prv := n\<rparr>) = unlink o1"
  "unlink (unlink o1) = unlink o1"
  by (simp_all add: unlink_def)

lemma unlink_eqD:
  assumes "unlink o1 = unlink o2"
  shows "order_id o1 = order_id o2" "price o1 = price o2" "timestamp_ns o1 = timestamp_ns o2"
    "quantity o1 = quantity o2" "orig_quantity o1 = orig_quantity o2"
    "instrument_id o1 = instrument_id o2" "side o1 = side o2" "otype o1 = otype o2"
    "status o1 = status o2" "client_id o1 = client_id o2" "is_buy o1 = is_buy o2"
    "is_active o1 = is_active o2"
  using assms
  by (auto simp: unlink_def is_buy_def is_active_def dest: arg_cong [of _ _ order_id]
      arg_cong [of _ _ price] arg_cong [of _ _ timestamp_ns] arg_cong [of _ _ quantity]
      arg_cong [of _ _ orig_quantity] arg_cong [of _ _ instrument_id] arg_cong [of _ _ side]
      arg_cong [of _ _ otype] arg_cong [of _ _ status] arg_cong [of _ _ client_id])

lemma relinked_refl [simp, intro]: "relinked A h h"
  by (simp add: relinked_def)

lemma relinked_trans: "relinked A h h' \<Longrightarrow> relinked A h' h'' \<Longrightarrow> relinked A h h''"
  by (auto simp: relinked_def)

lemma relinkedD:
  assumes "relinked A h h'"
  shows "order_id (h' c) = order_id (h c)" "price (h' c) = price (h c)"
    "quantity (h' c) = quantity (h c)" "side (h' c) = side (h c)" "status (h' c) = status (h c)"
    "is_buy (h' c) = is_buy (h c)" "is_active (h' c) = is_active (h c)"
    "c \<notin> A \<Longrightarrow> h' c = h c"
  using assms unlink_eqD [of "h' c" "h c"] by (auto simp: relinked_def)

lemma relinked_qty_sum: "relinked A h h' \<Longrightarrow> qty_sum h' xs = qty_sum h xs"
  by (rule qty_sum_cong) (simp add: relinkedD)

subsection \<open>The helpers as list operations\<close>

lemma level_enqueue_tail_repr:
  assumes "level_repr h lvl xs" and "a \<notin> set xs" and "Suc (length xs) < 2 ^ 32"
    and "level_enqueue_tail h lvl (Some a) = (h', lvl')"
  shows "level_repr h' lvl' (xs @ [a])" "relinked (insert a (set xs)) h h'"
    "lvl_price lvl' = lvl_price lvl"
    "lvl_total_qty lvl' = lvl_total_qty lvl + quantity (h a)"
proof -
  have "level_repr h' lvl' (xs @ [a]) \<and> relinked (insert a (set xs)) h h' \<and>
    lvl_price lvl' = lvl_price lvl \<and> lvl_total_qty lvl' = lvl_total_qty lvl + quantity (h a)"
  proof (cases xs rule: rev_cases)
    case Nil
    then show ?thesis
      using assms by (auto simp: level_enqueue_tail_def level_repr_def relinked_def Let_def)
  next
    case (snoc ys t)
    have tail: "lvl_tail lvl = Some t"
      using assms(1) snoc dseg_last [of h None "lvl_head lvl" xs "lvl_tail lvl" None]
      by (simp add: level_repr_def)
    have ne: "t \<noteq> a" "t \<notin> set ys" "a \<notin> set ys"
      using assms(1,2) snoc by (auto simp: level_repr_def)
    have h': "h' = h(a := (h a)\<lparr>nxt := None, prv := Some t\<rparr>, t := (h t)\<lparr>nxt := Some a\<rparr>)"
      and lvl': "lvl' = lvl\<lparr>lvl_tail := Some a, lvl_total_qty := lvl_total_qty lvl + quantity (h a),
        lvl_order_count := lvl_order_count lvl + 1\<rparr>"
      using assms(4) tail ne by (auto simp: level_enqueue_tail_def Let_def)
    have "dseg h' None (lvl_head lvl) ((ys @ [t]) @ [a]) (Some a) None"
      using assms(1) snoc ne
      by (auto simp: h' level_repr_def dseg_append)
    then show ?thesis
      using assms(1,3) snoc ne by (auto simp: level_repr_def relinked_def lvl' h')
  qed
  then show "level_repr h' lvl' (xs @ [a])" "relinked (insert a (set xs)) h h'"
    "lvl_price lvl' = lvl_price lvl" "lvl_total_qty lvl' = lvl_total_qty lvl + quantity (h a)"
    by blast+
qed

lemma sub_or_zero_1_of_nat:
  "Suc n < 2 ^ 32 \<Longrightarrow> sub_or_zero (of_nat (Suc n)) 1 = of_nat n"
  using of_nat_word_pos_iff [of "Suc n", where 'a = 32] by (simp add: sub_or_zero_def)

lemma unat_sub_or_zero: "d \<le> x \<Longrightarrow> unat (sub_or_zero x d) = unat x - unat d"
  by (simp add: sub_or_zero_def unat_sub)

lemma level_remove_heap:
  assumes "level_repr h lvl (ys @ a # zs)" and "level_remove h lvl (Some a) = (h', lvl')"
  shows "dseg h' None (lvl_head lvl') (ys @ zs) (lvl_tail lvl') None"
    "relinked (set (ys @ a # zs)) h h'"
proof -
  have seg: "dseg h None (lvl_head lvl) (ys @ a # zs) (lvl_tail lvl) None"
    and dist: "distinct (ys @ a # zs)"
    using assms(1) by (auto simp: level_repr_def)
  have prv_a: "prv (h a) = (if ys = [] then None else Some (last ys))"
    using seg by (auto simp: dseg_append dest: dseg_last)
  have nxt_a: "nxt (h a) = (case zs of [] \<Rightarrow> None | c # _ \<Rightarrow> Some c)"
    using seg by (auto simp: dseg_append split: list.splits)
  show "dseg h' None (lvl_head lvl') (ys @ zs) (lvl_tail lvl') None"
  proof (cases ys rule: rev_cases)
    case Nil
    then show ?thesis
      using assms(2) prv_a nxt_a seg dist
      by (cases zs) (auto simp: level_remove_def Let_def)
  next
    case (snoc us b)
    then show ?thesis
      using assms(2) prv_a nxt_a seg dist
      by (cases zs) (auto simp: level_remove_def Let_def dseg_append)
  qed
  show "relinked (set (ys @ a # zs)) h h'"
    using assms(2) prv_a nxt_a dist
    by (cases ys rule: rev_cases; cases zs) (auto simp: level_remove_def Let_def relinked_def)
qed

lemma level_remove_fields:
  assumes "level_remove h lvl (Some a) = (h', lvl')"
  shows "lvl_price lvl' = lvl_price lvl"
    "lvl_total_qty lvl' = sub_or_zero (lvl_total_qty lvl) (quantity (h a))"
    "lvl_order_count lvl' = sub_or_zero (lvl_order_count lvl) 1"
    "nxt (h' a) = None" "prv (h' a) = None"
  using assms by (auto simp: level_remove_def Let_def split: option.splits)

lemma level_remove_repr:
  assumes "level_repr h lvl (ys @ a # zs)" and "level_remove h lvl (Some a) = (h', lvl')"
  shows "level_repr h' lvl' (ys @ zs)"
proof -
  let ?n = "length (ys @ zs)"
  have "lvl_order_count lvl = of_nat (Suc ?n)" "Suc ?n < 2 ^ 32"
    using assms(1) by (auto simp: level_repr_def)
  then have "lvl_order_count lvl' = of_nat ?n"
    using level_remove_fields(3) [OF assms(2)] by (simp only: sub_or_zero_1_of_nat)
  then show ?thesis
    using level_remove_heap(1) [OF assms] assms(1) by (auto simp: level_repr_def)
qed

lemma level_dequeue_head_repr:
  assumes "level_repr h lvl (a # as)" and "level_dequeue_head h lvl = (r, h', lvl')"
  shows "r = Some a" "level_repr h' lvl' as" "relinked (set (a # as)) h h'"
    "lvl_price lvl' = lvl_price lvl"
    "lvl_total_qty lvl' = sub_or_zero (lvl_total_qty lvl) (quantity (h a))"
proof -
  have hd: "lvl_head lvl = Some a" and nx: "nxt (h a) = (case as of [] \<Rightarrow> None | c # _ \<Rightarrow> Some c)"
    using assms(1) by (auto simp: level_repr_def split: list.splits)
  have "lvl_order_count lvl = of_nat (Suc (length as))" "Suc (length as) < 2 ^ 32"
    using assms(1) by (auto simp: level_repr_def)
  then have cnt: "sub_or_zero (lvl_order_count lvl) 1 = of_nat (length as)"
    by (simp only: sub_or_zero_1_of_nat)
  have "r = Some a \<and> level_repr h' lvl' as \<and> relinked (set (a # as)) h h' \<and>
    lvl_price lvl' = lvl_price lvl \<and>
    lvl_total_qty lvl' = sub_or_zero (lvl_total_qty lvl) (quantity (h a))"
    using assms hd nx cnt
    by (cases as) (auto simp: level_dequeue_head_def Let_def level_repr_def relinked_def)
  then show "r = Some a" "level_repr h' lvl' as" "relinked (set (a # as)) h h'"
    "lvl_price lvl' = lvl_price lvl"
    "lvl_total_qty lvl' = sub_or_zero (lvl_total_qty lvl) (quantity (h a))"
    by blast+
qed

section \<open>Properties of a price level\<close>

text \<open>C36: The aggregate of a level is a 32-bit counter. Enqueueing keeps it exact while the sum of
  the resting quantities fits 32 bits, and otherwise leaves it too small by exactly 2^32.\<close>

theorem level_total_wraps:
  assumes "level_repr h lvl xs" and "level_qty_ok h lvl xs" and "a \<notin> set xs" and "Suc (length xs) < 2 ^ 32"
    and "level_enqueue_tail h lvl (Some a) = (h', lvl')"
  shows "level_repr h' lvl' (xs @ [a]) \<and>
    unat (lvl_total_qty lvl') = qty_sum h' (xs @ [a]) - (if qty_sum h' (xs @ [a]) < 2 ^ 32 then 0 else 2 ^ 32)"
proof -
  note E = level_enqueue_tail_repr [OF assms(1,3,4,5)]
  have t: "unat (lvl_total_qty lvl) = qty_sum h xs"
    using assms(2) by (simp add: level_qty_ok_def)
  have q: "qty_sum h' (xs @ [a]) = unat (lvl_total_qty lvl) + unat (quantity (h a))"
    using relinked_qty_sum [OF E(2), of xs] relinkedD(3) [OF E(2), of a] t by simp
  have "unat (lvl_total_qty lvl) < 2 ^ LENGTH(32)" "unat (quantity (h a)) < 2 ^ LENGTH(32)"
    by (rule unsigned_less)+
  then have "unat (lvl_total_qty lvl + quantity (h a)) =
      unat (lvl_total_qty lvl) + unat (quantity (h a)) -
      (if unat (lvl_total_qty lvl) + unat (quantity (h a)) < 2 ^ 32 then 0 else 2 ^ 32)"
    by (simp add: unat_word_ariths mod_if)
  then show ?thesis
    unfolding q E(4) using E(1) by blast
qed

theorem level_total_wraps_witness:
  "let h = (\<lambda>_. undefined\<lparr>quantity := 1\<rparr>)(0 := undefined\<lparr>quantity := 4294967295\<rparr>);
       (h1, l1) = level_enqueue_tail h PriceLevel_new (Some 0);
       (h2, l2) = level_enqueue_tail h1 l1 (Some 1)
   in unat (lvl_total_qty l1) = 4294967295 \<and> lvl_total_qty l2 = 0 \<and> level_repr h2 l2 [0, 1]"
proof -
  let ?h = "(\<lambda>_. undefined\<lparr>quantity := 1\<rparr>)(0 := undefined\<lparr>quantity := 4294967295\<rparr>)"
  obtain h1 l1 where e1: "level_enqueue_tail ?h PriceLevel_new (Some 0) = (h1, l1)"
    by fastforce
  obtain h2 l2 where e2: "level_enqueue_tail h1 l1 (Some 1) = (h2, l2)"
    by fastforce
  have r: "level_repr ?h PriceLevel_new []" "level_qty_ok ?h PriceLevel_new []"
    by (simp_all add: level_repr_def level_qty_ok_def PriceLevel_new_def)
  have q1: "quantity (h1 c) = quantity (?h c)" for c
    using relinkedD(3) [OF level_enqueue_tail_repr(2) [OF r(1) _ _ e1]] by simp
  have 1: "level_repr h1 l1 [0]" "unat (lvl_total_qty l1) = 4294967295"
    using level_total_wraps [OF r _ _ e1] q1 [of 0] by simp_all
  then have "level_qty_ok h1 l1 [0]"
    using q1 [of 0] by (simp add: level_qty_ok_def)
  note W = level_total_wraps [OF 1(1) this _ _ e2]
  have "quantity (h2 c) = quantity (?h c)" for c
    using relinkedD(3) [OF level_enqueue_tail_repr(2) [OF 1(1) _ _ e2], of c] q1 [of c] by simp
  from this [of 0] this [of 1] have "qty_sum h2 ([0] @ [1]) = 4294967296"
    by simp
  then have "level_repr h2 l2 [0, 1]" "unat (lvl_total_qty l2) = 0"
    using W by simp_all
  then show ?thesis
    using 1(2) unfolding Let_def e1 e2 prod.case by (simp add: unat_eq_0)
qed

text \<open>Taking an order out of the middle of a level relinks its neighbours: the queue is the old
  one without that order, its links are cleared, no other order is touched beyond its
  links, and an exact aggregate stays exact.\<close>

theorem level_remove_splices:
  assumes "level_repr h lvl (ys @ a # zs)" and "level_remove h lvl (Some a) = (h', lvl')"
  shows "level_repr h' lvl' (ys @ zs) \<and> nxt (h' a) = None \<and> prv (h' a) = None \<and>
    (\<forall>c. c \<notin> set (ys @ a # zs) \<longrightarrow> h' c = h c) \<and> (\<forall>c. unlink (h' c) = unlink (h c)) \<and>
    (level_qty_ok h lvl (ys @ a # zs) \<longrightarrow> level_qty_ok h' lvl' (ys @ zs))"
proof -
  note H = level_remove_heap(2) [OF assms] and F = level_remove_fields [OF assms(2)]
  have "level_qty_ok h' lvl' (ys @ zs)" if "level_qty_ok h lvl (ys @ a # zs)"
    using that F(2) relinked_qty_sum [OF H, of "ys @ zs"]
    by (simp add: level_qty_ok_def unat_sub_or_zero word_le_nat_alt)
  then show ?thesis
    using level_remove_repr [OF assms] F(4,5) H relinkedD(8) [OF H] by (simp add: relinked_def)
qed

theorem level_remove_splices_witness:
  "case level_enqueue_tail (\<lambda>_. undefined) PriceLevel_new (Some 3) of (h1, l1) \<Rightarrow>
   case level_remove h1 l1 (Some 3) of (h2, l2) \<Rightarrow> level_repr h2 l2 [] \<and> nxt (h2 3) = None"
proof -
  obtain h1 l1 where e: "level_enqueue_tail (\<lambda>_. undefined) PriceLevel_new (Some 3) = (h1, l1)"
    by fastforce
  obtain h2 l2 where d: "level_remove h1 l1 (Some 3) = (h2, l2)"
    by fastforce
  have "level_repr h1 l1 ([] @ [3])"
    by (rule level_enqueue_tail_repr(1) [OF _ _ _ e]) (simp_all add: level_repr_def PriceLevel_new_def)
  then have "level_repr h1 l1 ([] @ 3 # [])"
    by simp
  from level_remove_splices [OF this d] show ?thesis
    by (simp add: e d)
qed

end
