(* ===== verification/Order_Book.thy ===== *)
theory Order_Book
  imports Price_Level "HOL-Library.Signed_Division"
begin

section \<open>The limit order book (\<open>src/src/lob/order_book.hpp\<close>)\<close>

text \<open>
  \<open>OrderIndex\<close> and \<open>OrderBook\<close>. Prices are \<open>int\<close>; a C++ division of signed integers
  truncates towards zero (\<open>sdiv\<close>, \<open>smod\<close>) and a cast to \<open>size_t\<close> reduces modulo
  \<open>2 ^ 64\<close> (\<open>to_size\<close>). A cursor is a \<open>size_t\<close> with the sentinel \<open>kNoBest\<close>.
  The operations take the heap, because they write through order pointers. The theory
  holds the definitions; the invariant and what the operations do to it are in
  \<open>Order_Book_Inv\<close>.
\<close>

subsection \<open>OrderIndex\<close>

text \<open>
  \<open>std::unordered_map<OrderId, Order*>\<close> as an association list: \<open>emplace\<close> leaves an
  existing entry alone, \<open>erase\<close> drops the key.
\<close>

type_synonym OrderIndex = "(OrderId \<times> addr) list"

definition OrderIndex_new :: OrderIndex where
  "OrderIndex_new = []"

definition index_emplace :: "OrderIndex \<Rightarrow> OrderId \<Rightarrow> addr \<Rightarrow> OrderIndex" where
  "index_emplace m k v = (case map_of m k of None \<Rightarrow> (k, v) # m | Some _ \<Rightarrow> m)"

definition index_insert :: "heap \<Rightarrow> OrderIndex \<Rightarrow> ptr \<Rightarrow> OrderIndex" where
  "index_insert h m p =
     (case p of None \<Rightarrow> m | Some a \<Rightarrow> index_emplace m (order_id (h a)) a)"

definition index_erase :: "OrderIndex \<Rightarrow> OrderId \<Rightarrow> OrderIndex" where
  "index_erase m k = filter (\<lambda>e. fst e \<noteq> k) m"

definition index_find :: "OrderIndex \<Rightarrow> OrderId \<Rightarrow> ptr" where
  "index_find m k = map_of m k"

definition index_contains :: "OrderIndex \<Rightarrow> OrderId \<Rightarrow> bool" where
  "index_contains m k \<longleftrightarrow> map_of m k \<noteq> None"

definition index_size :: "OrderIndex \<Rightarrow> nat" where
  "index_size m = length m"

definition index_empty :: "OrderIndex \<Rightarrow> bool" where
  "index_empty m \<longleftrightarrow> m = []"

definition index_clear :: "OrderIndex \<Rightarrow> OrderIndex" where
  "index_clear m = []"

subsection \<open>OrderBook\<close>

record OrderBook =
  ob_instrument_id :: InstrumentId
  min_price :: Price
  max_price :: Price
  tick_size :: Price
  bid_levels :: "PriceLevel list"
  ask_levels :: "PriceLevel list"
  best_bid_idx :: nat
  best_ask_idx :: nat
  order_index :: OrderIndex

definition kNoBest :: nat where
  "kNoBest = 2 ^ 64 - 1"

definition to_size :: "int \<Rightarrow> nat" where
  "to_size x = nat (x mod 2 ^ 64)"

definition num_levels_for :: "Price \<Rightarrow> Price \<Rightarrow> Price \<Rightarrow> nat" where
  "num_levels_for mn mx tick = to_size ((mx - mn) sdiv tick) + 1"

definition OrderBook_new :: "InstrumentId \<Rightarrow> Price \<Rightarrow> Price \<Rightarrow> Price \<Rightarrow> OrderBook" where
  "OrderBook_new iid mn mx tick =
     (let n = num_levels_for mn mx tick;
          levels = map (\<lambda>i. PriceLevel_new\<lparr>lvl_price := mn + int i * tick\<rparr>) [0..<n]
      in \<lparr>ob_instrument_id = iid, min_price = mn, max_price = mx, tick_size = tick,
          bid_levels = levels, ask_levels = levels,
          best_bid_idx = kNoBest, best_ask_idx = kNoBest, order_index = OrderIndex_new\<rparr>)"

definition level_clear :: "PriceLevel \<Rightarrow> PriceLevel" where
  "level_clear lvl = lvl\<lparr>lvl_head := None, lvl_tail := None, lvl_total_qty := 0, lvl_order_count := 0\<rparr>"

definition book_clear :: "OrderBook \<Rightarrow> OrderBook" where
  "book_clear b = b\<lparr>bid_levels := map level_clear (bid_levels b),
     ask_levels := map level_clear (ask_levels b),
     best_bid_idx := kNoBest, best_ask_idx := kNoBest,
     order_index := index_clear (order_index b)\<rparr>"

definition is_valid_price :: "OrderBook \<Rightarrow> Price \<Rightarrow> bool" where
  "is_valid_price b p \<longleftrightarrow>
     min_price b \<le> p \<and> p \<le> max_price b \<and> (p - min_price b) smod tick_size b = 0"

definition tick_to_index :: "OrderBook \<Rightarrow> Price \<Rightarrow> nat" where
  "tick_to_index b p = to_size ((p - min_price b) sdiv tick_size b)"

definition index_to_price :: "OrderBook \<Rightarrow> nat \<Rightarrow> Price" where
  "index_to_price b idx = min_price b + int idx * tick_size b"

definition side_levels :: "OrderBook \<Rightarrow> Side \<Rightarrow> PriceLevel list" where
  "side_levels b s = (if s = Buy then bid_levels b else ask_levels b)"

text \<open>Writing through a \<open>PriceLevel&\<close> obtained from \<open>side_levels(s)[idx]\<close>.\<close>

definition set_level :: "OrderBook \<Rightarrow> Side \<Rightarrow> nat \<Rightarrow> PriceLevel \<Rightarrow> OrderBook" where
  "set_level b s idx lvl =
     (if s = Buy then b\<lparr>bid_levels := (bid_levels b)[idx := lvl]\<rparr>
      else b\<lparr>ask_levels := (ask_levels b)[idx := lvl]\<rparr>)"

fun scan_down :: "PriceLevel list \<Rightarrow> nat \<Rightarrow> nat" where
  "scan_down lv i =
     (if \<not> level_empty (lv ! i) then i
      else if i = 0 then kNoBest else scan_down lv (i - 1))"

function scan_up :: "PriceLevel list \<Rightarrow> nat \<Rightarrow> nat" where
  "scan_up lv i =
     (if i < length lv then (if \<not> level_empty (lv ! i) then i else scan_up lv (Suc i))
      else kNoBest)"
  by pat_completeness auto
termination
  by (relation "measure (\<lambda>(lv, i). length lv - i)") auto

declare scan_down.simps [simp del] scan_up.simps [simp del]

definition advance_best_cursor :: "OrderBook \<Rightarrow> Side \<Rightarrow> nat \<Rightarrow> OrderBook" where
  "advance_best_cursor b s drained =
     (if s = Buy then
        (if best_bid_idx b \<noteq> drained then b
         else if drained = 0 then b\<lparr>best_bid_idx := kNoBest\<rparr>
         else b\<lparr>best_bid_idx := scan_down (bid_levels b) (drained - 1)\<rparr>)
      else
        (if best_ask_idx b \<noteq> drained then b
         else if drained = length (ask_levels b) - 1 then b\<lparr>best_ask_idx := kNoBest\<rparr>
         else b\<lparr>best_ask_idx := scan_up (ask_levels b) (drained + 1)\<rparr>))"

definition add_order :: "heap \<Rightarrow> OrderBook \<Rightarrow> ptr \<Rightarrow> heap \<times> OrderBook" where
  "add_order h b p =
     (case p of
        None \<Rightarrow> (h, b)
      | Some a \<Rightarrow>
          if \<not> is_valid_price b (price (h a)) then (h, b)
          else
            (let idx = tick_to_index b (price (h a));
                 s = side (h a);
                 (h1, lvl) = level_enqueue_tail h (side_levels b s ! idx) (Some a);
                 b1 = set_level b s idx lvl;
                 b2 = b1\<lparr>order_index := index_insert h1 (order_index b1) (Some a)\<rparr>
             in (h1,
                 if is_buy (h1 a) then
                   (if best_bid_idx b2 = kNoBest \<or> best_bid_idx b2 < idx
                    then b2\<lparr>best_bid_idx := idx\<rparr> else b2)
                 else
                   (if best_ask_idx b2 = kNoBest \<or> idx < best_ask_idx b2
                    then b2\<lparr>best_ask_idx := idx\<rparr> else b2))))"

definition cancel_order_ptr :: "heap \<Rightarrow> OrderBook \<Rightarrow> ptr \<Rightarrow> heap \<times> OrderBook" where
  "cancel_order_ptr h b p =
     (case p of
        None \<Rightarrow> (h, b)
      | Some a \<Rightarrow>
          if \<not> is_valid_price b (price (h a)) then (h, b)
          else
            (let idx = tick_to_index b (price (h a));
                 s = side (h a);
                 (h1, lvl) = level_remove h (side_levels b s ! idx) (Some a);
                 b1 = set_level b s idx lvl;
                 b2 = b1\<lparr>order_index := index_erase (order_index b1) (order_id (h1 a))\<rparr>;
                 h2 = h1(a := (h1 a)\<lparr>status := Cancelled\<rparr>)
             in (h2, if level_empty lvl then advance_best_cursor b2 s idx else b2)))"

definition cancel_order :: "heap \<Rightarrow> OrderBook \<Rightarrow> OrderId \<Rightarrow> bool \<times> heap \<times> OrderBook" where
  "cancel_order h b oid =
     (case index_find (order_index b) oid of
        None \<Rightarrow> (False, h, b)
      | Some a \<Rightarrow> (True, cancel_order_ptr h b (Some a)))"

definition reduce_order_qty :: "heap \<Rightarrow> OrderBook \<Rightarrow> ptr \<Rightarrow> Quantity \<Rightarrow> heap \<times> OrderBook" where
  "reduce_order_qty h b p new_qty =
     (case p of
        None \<Rightarrow> (h, b)
      | Some a \<Rightarrow>
          if \<not> is_valid_price b (price (h a)) then (h, b)
          else
            (let idx = tick_to_index b (price (h a));
                 s = side (h a);
                 delta = quantity (h a) - new_qty;
                 (h1, lvl1) = level_reduce_qty h (side_levels b s ! idx) (Some a) delta
             in if new_qty = 0 then
                  (let (h2, lvl2) = level_remove h1 lvl1 (Some a);
                       b1 = set_level b s idx lvl2;
                       b2 = b1\<lparr>order_index := index_erase (order_index b1) (order_id (h2 a))\<rparr>;
                       h3 = h2(a := (h2 a)\<lparr>status := Cancelled\<rparr>)
                   in (h3, if level_empty lvl2 then advance_best_cursor b2 s idx else b2))
                else (h1, set_level b s idx lvl1)))"

definition fill_resting_order ::
  "heap \<Rightarrow> OrderBook \<Rightarrow> ptr \<Rightarrow> Quantity \<Rightarrow> bool \<times> heap \<times> OrderBook" where
  "fill_resting_order h b p fill_qty =
     (case p of
        None \<Rightarrow> (True, h, b)
      | Some a \<Rightarrow>
          if \<not> is_valid_price b (price (h a)) then (True, h, b)
          else
            (let idx = tick_to_index b (price (h a));
                 s = side (h a);
                 lvl = side_levels b s ! idx;
                 lvl1 = lvl\<lparr>lvl_total_qty := lvl_total_qty lvl - fill_qty\<rparr>;
                 h1 = h(a := (h a)\<lparr>quantity := quantity (h a) - fill_qty\<rparr>)
             in if quantity (h1 a) = 0 then
                  (let (h2, lvl2) = level_remove h1 lvl1 (Some a);
                       b1 = set_level b s idx lvl2;
                       b2 = b1\<lparr>order_index := index_erase (order_index b1) (order_id (h2 a))\<rparr>;
                       h3 = h2(a := (h2 a)\<lparr>status := Filled\<rparr>)
                   in (True, h3, if level_empty lvl2 then advance_best_cursor b2 s idx else b2))
                else
                  (False, h1(a := (h1 a)\<lparr>status := Partial\<rparr>), set_level b s idx lvl1)))"

text \<open>The summing loop over \<open>total_qty\<close>, in 32-bit arithmetic.\<close>

definition sum_levels :: "PriceLevel list \<Rightarrow> nat \<Rightarrow> nat \<Rightarrow> Quantity" where
  "sum_levels lv i j = foldl (\<lambda>total k. total + lvl_total_qty (lv ! k)) 0 [i..<Suc j]"

definition available_quantity_at_or_better :: "OrderBook \<Rightarrow> Side \<Rightarrow> Price \<Rightarrow> Quantity" where
  "available_quantity_at_or_better b agg_side limit_price =
     (if agg_side = Buy then
        (if best_ask_idx b = kNoBest then 0
         else
           (let to_idx = (if max_price b \<le> limit_price then length (ask_levels b) - 1
                          else if limit_price < min_price b then 0
                          else tick_to_index b limit_price)
            in if to_idx < best_ask_idx b then 0
               else sum_levels (ask_levels b) (best_ask_idx b) to_idx))
      else
        (if best_bid_idx b = kNoBest then 0
         else
           (let from_idx = (if limit_price \<le> min_price b then 0
                            else if max_price b < limit_price then length (bid_levels b)
                            else tick_to_index b limit_price)
            in if best_bid_idx b < from_idx then 0
               else sum_levels (bid_levels b) from_idx (best_bid_idx b))))"

definition pop_best_bid_head :: "heap \<Rightarrow> OrderBook \<Rightarrow> ptr \<times> heap \<times> OrderBook" where
  "pop_best_bid_head h b =
     (if best_bid_idx b = kNoBest then (None, h, b)
      else
        (let idx = best_bid_idx b;
             (p, h1, lvl) = level_dequeue_head h (bid_levels b ! idx);
             b1 = b\<lparr>bid_levels := (bid_levels b)[idx := lvl]\<rparr>
         in case p of
              None \<Rightarrow> (None, h1, b1)
            | Some a \<Rightarrow>
                (let b2 = b1\<lparr>order_index := index_erase (order_index b1) (order_id (h1 a))\<rparr>
                 in (p, h1, if level_empty lvl then advance_best_cursor b2 Buy idx else b2))))"

definition pop_best_ask_head :: "heap \<Rightarrow> OrderBook \<Rightarrow> ptr \<times> heap \<times> OrderBook" where
  "pop_best_ask_head h b =
     (if best_ask_idx b = kNoBest then (None, h, b)
      else
        (let idx = best_ask_idx b;
             (p, h1, lvl) = level_dequeue_head h (ask_levels b ! idx);
             b1 = b\<lparr>ask_levels := (ask_levels b)[idx := lvl]\<rparr>
         in case p of
              None \<Rightarrow> (None, h1, b1)
            | Some a \<Rightarrow>
                (let b2 = b1\<lparr>order_index := index_erase (order_index b1) (order_id (h1 a))\<rparr>
                 in (p, h1, if level_empty lvl then advance_best_cursor b2 Sell idx else b2))))"

definition best_bid :: "OrderBook \<Rightarrow> PriceLevel option" where
  "best_bid b = (if best_bid_idx b = kNoBest then None else Some (bid_levels b ! best_bid_idx b))"

definition best_ask :: "OrderBook \<Rightarrow> PriceLevel option" where
  "best_ask b = (if best_ask_idx b = kNoBest then None else Some (ask_levels b ! best_ask_idx b))"

definition best_bid_price :: "OrderBook \<Rightarrow> Price" where
  "best_bid_price b = (case best_bid b of Some lvl \<Rightarrow> lvl_price lvl | None \<Rightarrow> kInvalidPrice)"

definition best_ask_price :: "OrderBook \<Rightarrow> Price" where
  "best_ask_price b = (case best_ask b of Some lvl \<Rightarrow> lvl_price lvl | None \<Rightarrow> kInvalidPrice)"

definition has_bids :: "OrderBook \<Rightarrow> bool" where
  "has_bids b \<longleftrightarrow> best_bid_idx b \<noteq> kNoBest"

definition has_asks :: "OrderBook \<Rightarrow> bool" where
  "has_asks b \<longleftrightarrow> best_ask_idx b \<noteq> kNoBest"

definition book_is_empty :: "OrderBook \<Rightarrow> bool" where
  "book_is_empty b \<longleftrightarrow> \<not> has_bids b \<and> \<not> has_asks b"

definition bid_level_at :: "OrderBook \<Rightarrow> Price \<Rightarrow> PriceLevel" where
  "bid_level_at b p = bid_levels b ! tick_to_index b p"

definition ask_level_at :: "OrderBook \<Rightarrow> Price \<Rightarrow> PriceLevel" where
  "ask_level_at b p = ask_levels b ! tick_to_index b p"

definition ask_sweep_span :: "OrderBook \<Rightarrow> PriceLevel list" where
  "ask_sweep_span b = (if best_ask_idx b = kNoBest then [] else drop (best_ask_idx b) (ask_levels b))"

definition bid_sweep_span :: "OrderBook \<Rightarrow> PriceLevel list" where
  "bid_sweep_span b = (if best_bid_idx b = kNoBest then [] else take (best_bid_idx b + 1) (bid_levels b))"

definition find_order :: "OrderBook \<Rightarrow> OrderId \<Rightarrow> ptr" where
  "find_order b oid = index_find (order_index b) oid"

definition has_order :: "OrderBook \<Rightarrow> OrderId \<Rightarrow> bool" where
  "has_order b oid \<longleftrightarrow> index_contains (order_index b) oid"

definition live_order_count :: "OrderBook \<Rightarrow> nat" where
  "live_order_count b = index_size (order_index b)"

definition num_levels :: "OrderBook \<Rightarrow> nat" where
  "num_levels b = length (bid_levels b)"

end
