(* ===== verification/Order_Book_Inv.thy ===== *)
theory Order_Book_Inv
  imports Order_Book
begin

section \<open>The book's invariant\<close>

text \<open>
  A book is described by its queues: \<open>q True i\<close> are the addresses resting at bid level
  \<open>i\<close>, \<open>q False i\<close> those at ask level \<open>i\<close>, oldest first. \<open>book_repr h b q\<close> says that
  the level array, the links in the heap, the two cursors and the order index all agree
  with \<open>q\<close>; the lemmas of this theory say what every operation does to \<open>q\<close>.
\<close>

subsection \<open>The order index\<close>

locale id_index =
  fixes ins :: "'m \<Rightarrow> 'k \<Rightarrow> 'v \<Rightarrow> 'm"
    and del :: "'m \<Rightarrow> 'k \<Rightarrow> 'm"
    and look :: "'m \<Rightarrow> 'k \<Rightarrow> 'v option"
    and clr :: "'m \<Rightarrow> 'm"
  assumes look_ins: "look (ins m k v) k' =
      (if k' = k then (case look m k of None \<Rightarrow> Some v | Some w \<Rightarrow> Some w) else look m k')"
    and look_del: "look (del m k) k' = (if k' = k then None else look m k')"
    and look_clr: "look (clr m) k = None"
begin

text \<open>A predicate that every entry satisfies survives insertion and deletion.\<close>

lemma ins_entries:
  "\<forall>k v. look m k = Some v \<longrightarrow> P k v \<Longrightarrow> P k v \<Longrightarrow> look (ins m k v) k' = Some v' \<Longrightarrow> P k' v'"
  by (auto simp: look_ins split: if_splits option.splits)

lemma del_entries:
  "\<forall>k v. look m k = Some v \<longrightarrow> P k v \<Longrightarrow> look (del m k) k' = Some v' \<Longrightarrow> P k' v' \<and> k' \<noteq> k"
  by (auto simp: look_del split: if_splits)

lemma ins_fresh: "look m k = None \<Longrightarrow> look (ins m k v) k = Some v"
  by (simp add: look_ins)

lemma del_ins_fresh: "look m k = None \<Longrightarrow> look (del (ins m k v) k) = look m"
  by (auto simp: look_del look_ins)

end

interpretation oi: id_index index_emplace index_erase index_find index_clear
proof unfold_locales
  fix m :: OrderIndex and k k' v
  show "index_find (index_emplace m k v) k' = (if k' = k
      then (case index_find m k of None \<Rightarrow> Some v | Some w \<Rightarrow> Some w) else index_find m k')"
    by (auto simp: index_find_def index_emplace_def split: option.splits)
  show "index_find (index_erase m k) k' = (if k' = k then None else index_find m k')"
    by (induction m) (auto simp: index_find_def index_erase_def)
  show "index_find (index_clear m) k = None"
    by (simp add: index_find_def index_clear_def)
qed

subsection \<open>Geometry\<close>

text \<open>What the constructor's asserts demand, plus the 64-bit range.\<close>

definition valid_geometry :: "Price \<Rightarrow> Price \<Rightarrow> Price \<Rightarrow> bool" where
  "valid_geometry mn mx tick \<longleftrightarrow>
     mn < mx \<and> 0 < tick \<and> (mx - mn) mod tick = 0 \<and> - (2 ^ 63) \<le> mn \<and> mx < 2 ^ 63 \<and> mx - mn < 2 ^ 63"

definition levels_of :: "OrderBook \<Rightarrow> bool \<Rightarrow> PriceLevel list" where
  "levels_of b s = (if s then bid_levels b else ask_levels b)"

definition cursor :: "OrderBook \<Rightarrow> bool \<Rightarrow> nat" where
  "cursor b s = (if s then best_bid_idx b else best_ask_idx b)"

definition geometry :: "OrderBook \<Rightarrow> bool" where
  "geometry b \<longleftrightarrow>
     valid_geometry (min_price b) (max_price b) (tick_size b) \<and>
     (\<forall>s. length (levels_of b s) = num_levels_for (min_price b) (max_price b) (tick_size b)) \<and>
     (\<forall>s. \<forall>i < num_levels b. lvl_price (levels_of b s ! i) = index_to_price b i)"

lemma sdiv_nonneg: "0 \<le> a \<Longrightarrow> 0 < t \<Longrightarrow> a sdiv t = a div t" for a t :: int
  by (simp add: signed_divide_int_def sgn_if)

lemma smod_nonneg: "0 \<le> a \<Longrightarrow> 0 < t \<Longrightarrow> a smod t = a mod t" for a t :: int
  by (simp add: signed_modulo_int_def sgn_if)

lemma div_le_self: "0 \<le> a \<Longrightarrow> 0 < t \<Longrightarrow> a div t \<le> a" for a t :: int
  using zdiv_mono2 [of a 1 t] by simp

lemma to_size_small: "0 \<le> x \<Longrightarrow> x < 2 ^ 64 \<Longrightarrow> to_size x = nat x"
  by (simp add: to_size_def)

lemma num_levels_for_eq:
  assumes "valid_geometry mn mx tick"
  shows "num_levels_for mn mx tick = nat ((mx - mn) div tick) + 1"
proof -
  have "(mx - mn) div tick \<le> mx - mn"
    using assms by (simp add: valid_geometry_def div_le_self)
  then show ?thesis
    using assms unfolding num_levels_for_def valid_geometry_def
    by (subst to_size_small) (auto simp: sdiv_nonneg pos_imp_zdiv_nonneg_iff)
qed

lemma num_levels_small:
  assumes "geometry b"
  shows "num_levels b < kNoBest" "0 < num_levels b" "length (levels_of b s) = num_levels b"
proof -
  have len: "length (levels_of b s) = num_levels_for (min_price b) (max_price b) (tick_size b)" for s
    using assms by (simp add: geometry_def)
  have vg: "valid_geometry (min_price b) (max_price b) (tick_size b)"
    using assms by (simp add: geometry_def)
  have n: "num_levels b = nat ((max_price b - min_price b) div tick_size b) + 1"
    using len [of True] by (simp add: num_levels_def levels_of_def num_levels_for_eq [OF vg])
  have "(max_price b - min_price b) div tick_size b \<le> max_price b - min_price b"
    using assms by (simp add: geometry_def valid_geometry_def div_le_self)
  then show "num_levels b < kNoBest" "0 < num_levels b"
    using assms n by (auto simp: geometry_def valid_geometry_def kNoBest_def)
  show "length (levels_of b s) = num_levels b"
    using len n by (simp add: num_levels_for_eq [OF vg])
qed

lemma is_valid_price_iff:
  assumes "geometry b"
  shows "is_valid_price b p \<longleftrightarrow> (\<exists>i < num_levels b. p = index_to_price b i)"
proof -
  let ?mn = "min_price b" and ?mx = "max_price b" and ?t = "tick_size b"
  have t: "0 < ?t" "?mn < ?mx" "(?mx - ?mn) mod ?t = 0"
    using assms by (auto simp: geometry_def valid_geometry_def)
  have n: "num_levels b = nat ((?mx - ?mn) div ?t) + 1"
    using num_levels_for_eq num_levels_small(3) [OF assms, of True] assms
    by (simp add: geometry_def)
  have full: "?mx - ?mn = (?mx - ?mn) div ?t * ?t"
    using t(3) by (metis add.right_neutral div_mult_mod_eq)
  show ?thesis
  proof
    assume "is_valid_price b p"
    then have p: "?mn \<le> p" "p \<le> ?mx" "(p - ?mn) mod ?t = 0"
      using t by (auto simp: is_valid_price_def smod_nonneg)
    let ?i = "nat ((p - ?mn) div ?t)"
    have "(p - ?mn) div ?t \<le> (?mx - ?mn) div ?t"
      using p t by (intro zdiv_mono1) auto
    then have "?i < num_levels b"
      using n by linarith
    moreover have "p = index_to_price b ?i"
      using p t by (simp add: index_to_price_def pos_imp_zdiv_nonneg_iff)
        (metis add.right_neutral div_mult_mod_eq diff_add_cancel add.commute)
    ultimately show "\<exists>i < num_levels b. p = index_to_price b i"
      by blast
  next
    assume "\<exists>i < num_levels b. p = index_to_price b i"
    then obtain i where i: "i < num_levels b" "p = ?mn + int i * ?t"
      by (auto simp: index_to_price_def)
    have "0 \<le> (?mx - ?mn) div ?t"
      using t by (simp add: pos_imp_zdiv_nonneg_iff)
    then have "int i \<le> (?mx - ?mn) div ?t"
      using i(1) n by linarith
    then have "int i * ?t \<le> ?mx - ?mn"
      using full t(1) by (metis mult_right_mono less_imp_le)
    then show "is_valid_price b p"
      using i(2) t by (simp add: is_valid_price_def smod_nonneg)
  qed
qed

lemma tick_to_index_price:
  assumes "geometry b" and "i < num_levels b"
  shows "tick_to_index b (index_to_price b i) = i"
proof -
  have t: "0 < tick_size b"
    using assms(1) by (simp add: geometry_def valid_geometry_def)
  have "int i < 2 ^ 64"
    using assms num_levels_small(1) [OF assms(1)] by (simp add: kNoBest_def)
  then show ?thesis
    using t by (simp add: tick_to_index_def index_to_price_def sdiv_nonneg to_size_small)
qed

lemma index_to_price_mono:
  "geometry b \<Longrightarrow> index_to_price b i \<le> index_to_price b j \<longleftrightarrow> i \<le> j"
  by (simp add: index_to_price_def geometry_def valid_geometry_def)

lemma valid_price_index:
  assumes "geometry b" and "is_valid_price b p"
  shows "tick_to_index b p < num_levels b" "index_to_price b (tick_to_index b p) = p"
  using assms tick_to_index_price [OF assms(1)] is_valid_price_iff [OF assms(1), of p] by auto

subsection \<open>The representation\<close>

type_synonym queues = "bool \<Rightarrow> nat \<Rightarrow> addr list"

definition updq :: "queues \<Rightarrow> bool \<Rightarrow> nat \<Rightarrow> addr list \<Rightarrow> queues" where
  "updq q s i xs = q(s := (q s)(i := xs))"

definition live :: "OrderBook \<Rightarrow> queues \<Rightarrow> addr set" where
  "live b q = (\<Union>s. \<Union>i \<in> {..<num_levels b}. set (q s i))"

text \<open>What holds of an order that rests at level \<open>i\<close> of side \<open>s\<close>.\<close>

definition order_at :: "heap \<Rightarrow> OrderBook \<Rightarrow> bool \<Rightarrow> nat \<Rightarrow> addr \<Rightarrow> bool" where
  "order_at h b s i a \<longleftrightarrow>
     price (h a) = index_to_price b i \<and> is_buy (h a) = s \<and> quantity (h a) \<noteq> 0 \<and> is_active (h a)"

definition queues_ok :: "heap \<Rightarrow> OrderBook \<Rightarrow> queues \<Rightarrow> bool" where
  "queues_ok h b q \<longleftrightarrow>
     (\<forall>s. \<forall>i < num_levels b. level_repr h (levels_of b s ! i) (q s i) \<and>
        (\<forall>a \<in> set (q s i). order_at h b s i a))"

text \<open>\<open>idx\<close> is the cursor of side \<open>s\<close>: the highest non-empty bid or lowest non-empty ask.\<close>

definition best_of :: "nat \<Rightarrow> (nat \<Rightarrow> addr list) \<Rightarrow> bool \<Rightarrow> nat \<Rightarrow> bool" where
  "best_of n qs s idx \<longleftrightarrow>
     (if idx = kNoBest then \<forall>i < n. qs i = []
      else idx < n \<and> qs idx \<noteq> [] \<and> (\<forall>j < n. (if s then idx < j else j < idx) \<longrightarrow> qs j = []))"

definition index_ok :: "heap \<Rightarrow> OrderBook \<Rightarrow> queues \<Rightarrow> bool" where
  "index_ok h b q \<longleftrightarrow>
     (\<forall>k a. index_find (order_index b) k = Some a \<longrightarrow> a \<in> live b q \<and> order_id (h a) = k)"

definition book_repr :: "heap \<Rightarrow> OrderBook \<Rightarrow> queues \<Rightarrow> bool" where
  "book_repr h b q \<longleftrightarrow>
     geometry b \<and> queues_ok h b q \<and>
     (\<forall>s. best_of (num_levels b) (q s) s (cursor b s)) \<and> index_ok h b q"

definition book_queues :: "heap \<Rightarrow> OrderBook \<Rightarrow> queues" where
  "book_queues h b s i = level_orders h (levels_of b s ! i)"

definition book_ok :: "heap \<Rightarrow> OrderBook \<Rightarrow> bool" where
  "book_ok h b \<longleftrightarrow> book_repr h b (book_queues h b)"

text \<open>Every level's \<open>total_qty\<close> is the exact sum of its resting quantities.\<close>

definition book_qty_ok :: "heap \<Rightarrow> OrderBook \<Rightarrow> queues \<Rightarrow> bool" where
  "book_qty_ok h b q \<longleftrightarrow>
     (\<forall>s. \<forall>i < num_levels b. level_qty_ok h (levels_of b s ! i) (q s i))"

lemma updq_simps [simp]:
  "updq q s i xs s i = xs"
  "j \<noteq> i \<Longrightarrow> updq q s i xs s j = q s j"
  "s' \<noteq> s \<Longrightarrow> updq q s i xs s' = q s'"
  by (auto simp: updq_def)

lemma updq_apply: "updq q s i xs s' j = (if s' = s \<and> j = i then xs else q s' j)"
  by (simp add: updq_def)

lemma updq_same [simp]: "updq q s i (q s i) = q"
  by (simp add: updq_def)

lemma live_iff: "a \<in> live b q \<longleftrightarrow> (\<exists>s. \<exists>i < num_levels b. a \<in> set (q s i))"
  by (auto simp: live_def)

lemma live_at: "i < num_levels b \<Longrightarrow> a \<in> set (q s i) \<Longrightarrow> a \<in> live b q"
  by (auto simp: live_iff)

text \<open>Fields an operation does not touch.\<close>

lemma book_field_simps [simp]:
  "levels_of (b\<lparr>order_index := m\<rparr>) = levels_of b"
  "levels_of (b\<lparr>best_bid_idx := x\<rparr>) = levels_of b"
  "levels_of (b\<lparr>best_ask_idx := x\<rparr>) = levels_of b"
  "num_levels (b\<lparr>order_index := m\<rparr>) = num_levels b"
  "num_levels (b\<lparr>best_bid_idx := x\<rparr>) = num_levels b"
  "num_levels (b\<lparr>best_ask_idx := x\<rparr>) = num_levels b"
  "index_to_price (b\<lparr>order_index := m\<rparr>) = index_to_price b"
  "index_to_price (b\<lparr>best_bid_idx := x\<rparr>) = index_to_price b"
  "index_to_price (b\<lparr>best_ask_idx := x\<rparr>) = index_to_price b"
  by (auto simp: levels_of_def num_levels_def index_to_price_def fun_eq_iff)

lemma cursor_simps [simp]:
  "cursor (b\<lparr>order_index := m\<rparr>) s = cursor b s"
  "cursor (b\<lparr>best_bid_idx := x\<rparr>) s = (if s then x else cursor b s)"
  "cursor (b\<lparr>best_ask_idx := x\<rparr>) s = (if s then cursor b s else x)"
  by (auto simp: cursor_def)

lemma set_level_simps [simp]:
  "num_levels (set_level b sd i l) = num_levels b"
  "index_to_price (set_level b sd i l) = index_to_price b"
  "cursor (set_level b sd i l) = cursor b"
  "order_index (set_level b sd i l) = order_index b"
  "min_price (set_level b sd i l) = min_price b"
  "max_price (set_level b sd i l) = max_price b"
  "tick_size (set_level b sd i l) = tick_size b"
  "best_bid_idx (set_level b sd i l) = best_bid_idx b"
  "best_ask_idx (set_level b sd i l) = best_ask_idx b"
  "levels_of (set_level b sd i l) s =
     (if s = (sd = Buy) then (levels_of b s)[i := l] else levels_of b s)"
  by (auto simp: set_level_def num_levels_def index_to_price_def cursor_def levels_of_def fun_eq_iff)

lemma side_levels_of: "side_levels b sd = levels_of b (sd = Buy)"
  by (simp add: side_levels_def levels_of_def)

lemma live_simps [simp]:
  "live (b\<lparr>order_index := m\<rparr>) q = live b q"
  "live (b\<lparr>best_bid_idx := x\<rparr>) q = live b q"
  "live (b\<lparr>best_ask_idx := x\<rparr>) q = live b q"
  "live (set_level b sd i l) q = live b q"
  by (simp_all add: live_def)

lemma order_at_simps [simp]:
  "order_at h (b\<lparr>order_index := m\<rparr>) = order_at h b"
  "order_at h (b\<lparr>best_bid_idx := x\<rparr>) = order_at h b"
  "order_at h (b\<lparr>best_ask_idx := x\<rparr>) = order_at h b"
  "order_at h (set_level b sd i l) = order_at h b"
  by (auto simp: order_at_def fun_eq_iff)

lemma queues_ok_simps [simp]:
  "queues_ok h (b\<lparr>order_index := m\<rparr>) q = queues_ok h b q"
  "queues_ok h (b\<lparr>best_bid_idx := x\<rparr>) q = queues_ok h b q"
  "queues_ok h (b\<lparr>best_ask_idx := x\<rparr>) q = queues_ok h b q"
  by (simp_all add: queues_ok_def)

lemma geometry_simps [simp]:
  "geometry (b\<lparr>order_index := m\<rparr>) = geometry b"
  "geometry (b\<lparr>best_bid_idx := x\<rparr>) = geometry b"
  "geometry (b\<lparr>best_ask_idx := x\<rparr>) = geometry b"
  by (simp_all add: geometry_def)

lemma geometry_set_level:
  "geometry b \<Longrightarrow> lvl_price l = index_to_price b i \<Longrightarrow> geometry (set_level b sd i l)"
  using num_levels_small(3) [of b "sd = Buy"]
  by (cases "i < num_levels b") (auto simp: geometry_def nth_list_update list_update_beyond)

subsection \<open>Consequences of the representation\<close>

lemma book_reprD:
  assumes "book_repr h b q"
  shows "geometry b" "queues_ok h b q" "best_of (num_levels b) (q s) s (cursor b s)" "index_ok h b q"
  using assms by (auto simp: book_repr_def)

lemma queues_okD:
  assumes "queues_ok h b q" and "i < num_levels b"
  shows "level_repr h (levels_of b s ! i) (q s i)" "a \<in> set (q s i) \<Longrightarrow> order_at h b s i a"
  using assms by (auto simp: queues_ok_def)

lemma order_at_unique:
  "geometry b \<Longrightarrow> order_at h b s i a \<Longrightarrow> order_at h b s' i' a \<Longrightarrow> s = s' \<and> i = i'"
  by (auto simp: order_at_def index_to_price_def geometry_def valid_geometry_def)

text \<open>An order rests in one queue only.\<close>

lemma queues_disjoint:
  assumes "geometry b" and "queues_ok h b q" and "i < num_levels b" and "i' < num_levels b"
    and "a \<in> set (q s i)" and "a \<in> set (q s' i')"
  shows "s = s' \<and> i = i'"
  using assms order_at_unique [OF assms(1)] queues_okD(2) [OF assms(2)] by blast

lemma book_repr_queues:
  assumes "book_repr h b q" and "i < num_levels b"
  shows "book_queues h b s i = q s i"
  using assms level_repr_orders queues_okD(1) book_reprD(2) unfolding book_queues_def by blast

lemma book_repr_cong:
  assumes "\<And>s i. i < num_levels b \<Longrightarrow> q s i = q' s i"
  shows "book_repr h b q \<longleftrightarrow> book_repr h b q'"
proof -
  have "live b q = live b q'"
    unfolding live_def by (intro SUP_cong refl) (simp add: assms)
  moreover have "best_of (num_levels b) (q s) s x = best_of (num_levels b) (q' s) s x" for s x
    using assms by (auto simp: best_of_def)
  ultimately show ?thesis
    using assms by (auto simp: book_repr_def queues_ok_def index_ok_def)
qed

lemma book_repr_ok: "book_repr h b q \<Longrightarrow> book_ok h b"
  using book_repr_cong [of b "book_queues h b" q h] book_repr_queues [of h b q]
  by (auto simp: book_ok_def)

text \<open>A heap that agrees on the live orders represents the same book.\<close>

lemma order_at_cong: "h' a = h a \<Longrightarrow> order_at h' b s i a = order_at h b s i a"
  by (simp add: order_at_def)

lemma book_repr_frame:
  assumes "book_repr h b q" and "\<And>a. a \<in> live b q \<Longrightarrow> h' a = h a"
  shows "book_repr h' b q"
proof -
  have eq: "h' a = h a" if "a \<in> set (q s i)" "i < num_levels b" for s i a
    using assms(2) that by (auto simp: live_iff)
  have "level_repr h' (levels_of b s ! i) (q s i)" if "i < num_levels b" for s i
    by (rule level_repr_cong [THEN iffD1, OF _ queues_okD(1) [OF book_reprD(2) [OF assms(1)] that]])
       (simp add: eq that)
  moreover have "order_at h' b s i a" if "a \<in> set (q s i)" "i < num_levels b" for s i a
    using queues_okD(2) [OF book_reprD(2) [OF assms(1)] that(2,1)] eq [OF that]
    by (simp add: order_at_def)
  moreover have "index_ok h' b q"
    using book_reprD(4) [OF assms(1)] assms(2) by (auto simp: index_ok_def)
  ultimately show ?thesis
    using assms(1) by (auto simp: book_repr_def queues_ok_def)
qed

lemma book_qty_ok_frame:
  assumes "book_qty_ok h b q" and "\<And>a. a \<in> live b q \<Longrightarrow> quantity (h' a) = quantity (h a)"
  shows "book_qty_ok h' b q"
proof -
  have "qty_sum h' (q s i) = qty_sum h (q s i)" if "i < num_levels b" for s i
    using assms(2) that by (intro qty_sum_cong) (auto simp: live_iff)
  then show ?thesis
    using assms(1) by (simp add: book_qty_ok_def level_qty_ok_def)
qed

subsection \<open>Replacing one level\<close>

lemma queues_ok_update:
  assumes "geometry b" and "queues_ok h b q" and "i < num_levels b" and "s = (sd = Buy)"
    and "level_repr h' l xs" and "\<And>a. a \<in> set xs \<Longrightarrow> order_at h' b s i a"
    and "\<And>c. c \<in> live b q \<Longrightarrow> c \<notin> set (q s i) \<Longrightarrow> h' c = h c"
  shows "queues_ok h' (set_level b sd i l) (updq q s i xs)"
  unfolding queues_ok_def
proof (intro allI impI)
  fix s' j
  assume "j < num_levels (set_level b sd i l)"
  then have j: "j < num_levels b"
    by simp
  show "level_repr h' (levels_of (set_level b sd i l) s' ! j) (updq q s i xs s' j) \<and>
      (\<forall>a \<in> set (updq q s i xs s' j). order_at h' (set_level b sd i l) s' j a)"
  proof (cases "s' = s \<and> j = i")
    case True
    then show ?thesis
      using assms(3-6) num_levels_small(3) [OF assms(1)] by auto
  next
    case False
    have eq: "h' c = h c" if "c \<in> set (q s' j)" for c
    proof (rule assms(7))
      show "c \<in> live b q"
        using that j by (auto simp: live_iff)
      show "c \<notin> set (q s i)"
        using queues_disjoint [OF assms(1,2) j assms(3) that] False by blast
    qed
    have "levels_of (set_level b sd i l) s' ! j = levels_of b s' ! j"
      using False assms(4) by auto
    moreover have "updq q s i xs s' j = q s' j"
      using False by (auto simp: updq_apply)
    ultimately show ?thesis
      using queues_okD(1) [OF assms(2) j, where s = s'] queues_okD(2) [OF assms(2) j, where s = s']
        eq level_repr_cong [of "q s' j" h' h]
      by (simp add: order_at_def)
  qed
qed

lemma live_updqD: "c \<in> live b (updq q s i xs) \<Longrightarrow> c \<in> live b q \<or> c \<in> set xs"
  by (auto simp: live_iff updq_apply split: if_splits)

lemma live_updq_new: "i < num_levels b \<Longrightarrow> c \<in> set xs \<Longrightarrow> c \<in> live b (updq q s i xs)"
  unfolding live_iff by (intro exI [of _ s] exI [of _ i]) simp

lemma live_updq_old:
  assumes "c \<in> live b q" and "c \<notin> set (q s i)"
  shows "c \<in> live b (updq q s i xs)"
proof -
  obtain s' j where j: "j < num_levels b" "c \<in> set (q s' j)"
    using assms(1) by (auto simp: live_iff)
  then have "updq q s i xs s' j = q s' j"
    using assms(2) by (auto simp: updq_apply)
  then show ?thesis
    using j by (auto simp: live_iff intro!: exI [of _ s'])
qed

lemma live_updq_remove:
  assumes "geometry b" and "queues_ok h b q" and "i < num_levels b"
    and "q s i = ys @ a # zs" and "distinct (q s i)"
  shows "live b (updq q s i (ys @ zs)) = live b q - {a}"
proof (intro set_eqI iffI)
  fix c
  assume c: "c \<in> live b (updq q s i (ys @ zs))"
  then obtain s' j where j: "j < num_levels b" "c \<in> set (updq q s i (ys @ zs) s' j)"
    by (auto simp: live_iff)
  have "c \<noteq> a"
  proof (cases "s' = s \<and> j = i")
    case True
    then show ?thesis
      using j(2) assms(4,5) by auto
  next
    case False
    then have "c \<in> set (q s' j)"
      using j(2) by (auto simp: updq_apply)
    then have "c \<notin> set (q s i)"
      using queues_disjoint [OF assms(1,2) j(1) assms(3)] False by blast
    then show ?thesis
      using assms(4) by auto
  qed
  moreover have "c \<in> live b q"
    using live_updqD [OF c] live_at [OF assms(3), of c q s] assms(4) by auto
  ultimately show "c \<in> live b q - {a}"
    by simp
next
  fix c
  assume "c \<in> live b q - {a}"
  then show "c \<in> live b (updq q s i (ys @ zs))"
    using live_updq_old [of c b q s i] live_updq_new [OF assms(3), of c "ys @ zs"] assms(4)
    by (cases "c \<in> set (q s i)") auto
qed

lemma live_updq_insert:
  assumes "i < num_levels b"
  shows "live b (updq q s i (q s i @ [a])) = insert a (live b q)"
proof (intro set_eqI iffI)
  fix c
  assume "c \<in> live b (updq q s i (q s i @ [a]))"
  then show "c \<in> insert a (live b q)"
    using live_updqD [of c b q s i "q s i @ [a]"] live_at [OF assms, of c q s] by auto
next
  fix c
  assume "c \<in> insert a (live b q)"
  then show "c \<in> live b (updq q s i (q s i @ [a]))"
    using live_updq_old [of c b q s i] live_updq_new [OF assms, of c "q s i @ [a]"]
    by (cases "c \<in> set (q s i)") auto
qed

lemma book_qty_ok_update:
  assumes "geometry b" and "queues_ok h b q" and "book_qty_ok h b q" and "i < num_levels b"
    and "s = (sd = Buy)" and "level_qty_ok h' l xs"
    and "\<And>c. c \<in> live b q \<Longrightarrow> c \<notin> set (q s i) \<Longrightarrow> quantity (h' c) = quantity (h c)"
  shows "book_qty_ok h' (set_level b sd i l) (updq q s i xs)"
  unfolding book_qty_ok_def
proof (intro allI impI)
  fix s' j
  assume "j < num_levels (set_level b sd i l)"
  then have j: "j < num_levels b"
    by simp
  show "level_qty_ok h' (levels_of (set_level b sd i l) s' ! j) (updq q s i xs s' j)"
  proof (cases "s' = s \<and> j = i")
    case True
    then show ?thesis
      using assms(4-6) num_levels_small(3) [OF assms(1)] by auto
  next
    case False
    have "quantity (h' c) = quantity (h c)" if "c \<in> set (q s' j)" for c
      using assms(7) queues_disjoint [OF assms(1,2) j assms(4) that] False j that
      by (auto simp: live_iff)
    then have "qty_sum h' (q s' j) = qty_sum h (q s' j)"
      by (rule qty_sum_cong)
    moreover have "levels_of (set_level b sd i l) s' ! j = levels_of b s' ! j"
      using False assms(5) by auto
    moreover have "updq q s i xs s' j = q s' j"
      using False by (auto simp: updq_apply)
    ultimately show ?thesis
      using assms(3) j by (auto simp: book_qty_ok_def level_qty_ok_def)
  qed
qed

end
