(* ===== verification/Order_Book_Ops.thy ===== *)
theory Order_Book_Ops
  imports Order_Book_Inv
begin

section \<open>What the book's operations do\<close>

text \<open>
  Each operation of \<open>OrderBook\<close> as an update of the queues, with the invariant kept:
  inserting at the tail, splicing an order out (cancel, full fill, reduction to zero),
  reducing a resting quantity, and popping the head of the best level.
\<close>

definition same_grid :: "OrderBook \<Rightarrow> OrderBook \<Rightarrow> bool" where
  "same_grid b b' \<longleftrightarrow>
     min_price b' = min_price b \<and> max_price b' = max_price b \<and> tick_size b' = tick_size b \<and>
     num_levels b' = num_levels b \<and> ob_instrument_id b' = ob_instrument_id b"

lemma same_grid_refl [simp]: "same_grid b b"
  by (simp add: same_grid_def)

lemma same_grid_trans: "same_grid a b \<Longrightarrow> same_grid b c \<Longrightarrow> same_grid a c"
  by (simp add: same_grid_def)

lemma same_gridD:
  assumes "same_grid b b'"
  shows "num_levels b' = num_levels b" "index_to_price b' = index_to_price b"
    "is_valid_price b' = is_valid_price b" "tick_to_index b' = tick_to_index b" "live b' = live b"
  using assms
  by (auto simp: same_grid_def index_to_price_def is_valid_price_def tick_to_index_def live_def fun_eq_iff)

lemma same_grid_upd [simp]:
  "same_grid b (b\<lparr>order_index := m\<rparr>)"
  "same_grid b (b\<lparr>best_bid_idx := x\<rparr>)"
  "same_grid b (b\<lparr>best_ask_idx := x\<rparr>)"
  "same_grid b (set_level b sd i l)"
  "same_grid b (advance_best_cursor b sd i)"
  by (simp_all add: same_grid_def set_level_def num_levels_def advance_best_cursor_def)

subsection \<open>Cursor scans\<close>

lemma scan_down_spec:
  assumes "i < length lv" and "length lv < kNoBest"
  shows "if scan_down lv i = kNoBest then \<forall>j \<le> i. level_empty (lv ! j)
    else scan_down lv i \<le> i \<and> \<not> level_empty (lv ! scan_down lv i) \<and>
      (\<forall>j. scan_down lv i < j \<longrightarrow> j \<le> i \<longrightarrow> level_empty (lv ! j))"
  using assms
proof (induction i)
  case 0
  then show ?case by (simp add: scan_down.simps [of lv 0])
next
  case (Suc i)
  show ?case
  proof (cases "level_empty (lv ! Suc i)")
    case True
    then have "scan_down lv (Suc i) = scan_down lv i"
      by (simp add: scan_down.simps [of lv "Suc i"])
    then show ?thesis
      using Suc.IH Suc.prems True by (auto simp: le_Suc_eq)
  next
    case False
    then show ?thesis
      using Suc.prems by (auto simp: scan_down.simps [of lv "Suc i"])
  qed
qed

lemma scan_up_spec:
  assumes "length lv < kNoBest"
  shows "if scan_up lv i = kNoBest then \<forall>j. i \<le> j \<longrightarrow> j < length lv \<longrightarrow> level_empty (lv ! j)
    else i \<le> scan_up lv i \<and> scan_up lv i < length lv \<and> \<not> level_empty (lv ! scan_up lv i) \<and>
      (\<forall>j. i \<le> j \<longrightarrow> j < scan_up lv i \<longrightarrow> level_empty (lv ! j))"
  using assms
proof (induction lv i rule: scan_up.induct)
  case (1 lv i)
  show ?case
  proof (cases "i < length lv \<and> level_empty (lv ! i)")
    case True
    then have "scan_up lv i = scan_up lv (Suc i)"
      by (simp add: scan_up.simps [of lv i])
    moreover have "level_empty (lv ! j)" if "i \<le> j" "Suc i \<le> j \<Longrightarrow> level_empty (lv ! j)" for j
      using that True by (cases "j = i") auto
    ultimately show ?thesis
      using 1 True by (auto split: if_splits)
  next
    case False
    then show ?thesis
      using 1(2) by (auto simp: scan_up.simps [of lv i])
  qed
qed

lemma best_of_cursor_ne:
  "best_of n qs s idx \<Longrightarrow> i < n \<Longrightarrow> qs i \<noteq> [] \<Longrightarrow> idx \<noteq> kNoBest \<and> (if s then i \<le> idx else idx \<le> i)"
  by (auto simp: best_of_def simp flip: not_less split: if_splits)

lemma scan_down_best:
  assumes "i < length lv" and "length lv < kNoBest"
    and "\<And>j. j < length lv \<Longrightarrow> level_empty (lv ! j) \<longleftrightarrow> qs j = []"
    and "\<And>j. i \<le> j \<Longrightarrow> j < length lv \<Longrightarrow> qs j = []"
  shows "best_of (length lv) qs True (if i = 0 then kNoBest else scan_down lv (i - 1))"
proof (cases "i = 0")
  case True
  then show ?thesis
    using assms(4) by (simp add: best_of_def)
next
  case False
  have cov: "j \<le> i - 1 \<or> i \<le> j" for j
    using False by linarith
  have "i - 1 < length lv"
    using assms(1) by simp
  then show ?thesis
    unfolding best_of_def using scan_down_spec [OF _ assms(2), of "i - 1"] assms cov False
    by (auto split: if_splits)
qed

lemma scan_up_best:
  assumes "i < length lv" and "length lv < kNoBest"
    and "\<And>j. j < length lv \<Longrightarrow> level_empty (lv ! j) \<longleftrightarrow> qs j = []"
    and "\<And>j. j \<le> i \<Longrightarrow> qs j = []"
  shows "best_of (length lv) qs False (if i = length lv - 1 then kNoBest else scan_up lv (i + 1))"
proof (cases "i = length lv - 1")
  case True
  then have "j \<le> i" if "j < length lv" for j
    using that by simp
  then show ?thesis
    using assms(4) True by (simp add: best_of_def)
next
  case False
  have cov: "j \<le> i \<or> i + 1 \<le> j" for j
    by linarith
  show ?thesis
    unfolding best_of_def using scan_up_spec [OF assms(2), of "i + 1"] assms cov False
    by (auto split: if_splits)
qed

lemma advance_best_cursor_best:
  assumes "geometry b" and "queues_ok h b q'" and "i < num_levels b" and "s = (sd = Buy)"
    and "q' = updq q s i []" and "best_of (num_levels b) (q s) s (cursor b s)" and "q s i \<noteq> []"
  shows "best_of (num_levels b) (q' s) s (cursor (advance_best_cursor b sd i) s)"
proof (cases "cursor b s = i")
  case False
  then have "cursor (advance_best_cursor b sd i) s = cursor b s"
    using assms(4) by (auto simp: advance_best_cursor_def cursor_def)
  then show ?thesis
    using assms(5,6) False best_of_cursor_ne [OF assms(6,3,7)] by (auto simp: best_of_def updq_apply)
next
  case True
  note len = num_levels_small [OF assms(1)]
  have emp: "level_empty (levels_of b s ! j) \<longleftrightarrow> q' s j = []" if "j < length (levels_of b s)" for j
    using level_repr_empty [OF queues_okD(1) [OF assms(2)]] that len(3) by simp
  have beyond: "q' s j = []" if "if s then i \<le> j \<and> j < num_levels b else j \<le> i" for j
    using assms(3,5,6) True best_of_cursor_ne [OF assms(6,3,7)] that
    by (cases "j = i") (auto simp: best_of_def split: if_splits)
  show ?thesis
  proof (cases s)
    case s: True
    have "cursor (advance_best_cursor b sd i) s = (if i = 0 then kNoBest else scan_down (levels_of b s) (i - 1))"
      using True s assms(4) by (auto simp: advance_best_cursor_def cursor_def levels_of_def)
    then show ?thesis
      using scan_down_best [of i "levels_of b s" "q' s"] emp beyond s len assms(3) by simp
  next
    case s: False
    have "cursor (advance_best_cursor b sd i) s =
        (if i = length (levels_of b s) - 1 then kNoBest else scan_up (levels_of b s) (i + 1))"
      using True s assms(4) by (auto simp: advance_best_cursor_def cursor_def levels_of_def)
    then show ?thesis
      using scan_up_best [of i "levels_of b s" "q' s"] emp beyond s len assms(3) by simp
  qed
qed

lemma advance_best_cursor_simps [simp]:
  "s \<noteq> (sd = Buy) \<Longrightarrow> cursor (advance_best_cursor b sd i) s = cursor b s"
  "levels_of (advance_best_cursor b sd i) = levels_of b"
  "order_index (advance_best_cursor b sd i) = order_index b"
  "geometry (advance_best_cursor b sd i) = geometry b"
  "queues_ok h (advance_best_cursor b sd i) q = queues_ok h b q"
  by (simp_all add: advance_best_cursor_def cursor_def levels_of_def)

lemma geometry_lvl_price:
  "geometry b \<Longrightarrow> i < num_levels b \<Longrightarrow> lvl_price (levels_of b s ! i) = index_to_price b i"
  by (simp add: geometry_def)

subsection \<open>Inserting\<close>

lemma best_of_insert:
  assumes "best_of n (q s) s idx" and "i < n" and "n < kNoBest"
  shows "best_of n (updq q s i (q s i @ [a]) s) s
     (if idx = kNoBest \<or> (if s then idx < i else i < idx) then i else idx)"
  using assms by (cases s; cases "idx = kNoBest") (auto simp: best_of_def updq_apply)

lemma add_order_repr:
  assumes R: "book_repr h b q" and fresh: "a \<notin> live b q"
    and valid: "is_valid_price b (price (h a))"
    and ord: "quantity (h a) \<noteq> 0" "is_active (h a)"
    and s: "s = is_buy (h a)" and i: "i = tick_to_index b (price (h a))"
    and room: "Suc (length (q s i)) < 2 ^ 32"
    and add: "add_order h b (Some a) = (h', b')"
  shows "book_repr h' b' (updq q s i (q s i @ [a]))"
    "relinked (insert a (set (q s i))) h h'" "same_grid b b'"
    "order_index b' = index_emplace (order_index b) (order_id (h a)) a"
    "i < num_levels b" "price (h a) = index_to_price b i"
    "lvl_total_qty (levels_of b' s ! i) = lvl_total_qty (levels_of b s ! i) + quantity (h a)"
    "levels_of b' (\<not> s) = levels_of b (\<not> s)"
    "\<And>j. j \<noteq> i \<Longrightarrow> levels_of b' s ! j = levels_of b s ! j"
proof -
  note geo = book_reprD(1) [OF R] and qok = book_reprD(2) [OF R]
  show iN: "i < num_levels b" and pr: "price (h a) = index_to_price b i"
    using valid_price_index [OF geo valid] by (simp_all only: i)
  have sd: "s = (side (h a) = Buy)"
    using s by (simp add: is_buy_def)
  obtain h1 l where enq: "level_enqueue_tail h (levels_of b s ! i) (Some a) = (h1, l)"
    by fastforce
  have anew: "a \<notin> set (q s i)"
    using fresh live_at [OF iN] by blast
  note E = level_enqueue_tail_repr [OF queues_okD(1) [OF qok iN] anew room enq]
  have f: "order_id (h1 a) = order_id (h a)" "is_buy (h1 a) = s"
    using relinkedD [OF E(2)] s by auto
  let ?b2 = "(set_level b (side (h a)) i l)
      \<lparr>order_index := index_emplace (order_index b) (order_id (h a)) a\<rparr>"
  have "add_order h b (Some a) = (h1,
      if s then (if best_bid_idx b = kNoBest \<or> best_bid_idx b < i then ?b2\<lparr>best_bid_idx := i\<rparr> else ?b2)
      else (if best_ask_idx b = kNoBest \<or> i < best_ask_idx b then ?b2\<lparr>best_ask_idx := i\<rparr> else ?b2))"
    by (simp add: add_order_def valid side_levels_of sd [symmetric] i [symmetric] enq f index_insert_def)
  then have h': "h' = h1" and b': "b' =
      (if s then (if best_bid_idx b = kNoBest \<or> best_bid_idx b < i then ?b2\<lparr>best_bid_idx := i\<rparr> else ?b2)
      else (if best_ask_idx b = kNoBest \<or> i < best_ask_idx b then ?b2\<lparr>best_ask_idx := i\<rparr> else ?b2))"
    using add by simp_all
  show rel: "relinked (insert a (set (q s i))) h h'"
    using E(2) h' by simp
  show grid: "same_grid b b'"
    using same_gridD(1) by (auto simp: b' same_grid_def set_level_def num_levels_def)
  show idx: "order_index b' = index_emplace (order_index b) (order_id (h a)) a"
    by (auto simp: b')
  show "lvl_total_qty (levels_of b' s ! i) = lvl_total_qty (levels_of b s ! i) + quantity (h a)"
    "levels_of b' (\<not> s) = levels_of b (\<not> s)"
    "\<And>j. j \<noteq> i \<Longrightarrow> levels_of b' s ! j = levels_of b s ! j"
    using E(4) sd iN num_levels_small(3) [OF geo] by (auto simp: b')
  let ?q = "updq q s i (q s i @ [a])"
  have "queues_ok h1 (set_level b (side (h a)) i l) ?q"
  proof (rule queues_ok_update [OF geo qok iN sd E(1)])
    fix c assume "c \<in> set (q s i @ [a])"
    then show "order_at h1 b s i c"
      using queues_okD(2) [OF qok iN] ord pr s relinkedD [OF E(2)] by (auto simp: order_at_def)
  next
    fix c assume "c \<in> live b q" "c \<notin> set (q s i)"
    then show "h1 c = h c"
      using relinkedD(8) [OF E(2), of c] fresh by auto
  qed
  then have Q: "queues_ok h' b' ?q"
    by (cases s) (simp_all add: h' b')
  have "lvl_price l = index_to_price b i"
    using E(3) geometry_lvl_price [OF geo iN] by simp
  then have G: "geometry b'"
    using geometry_set_level [OF geo, of l i] by (simp add: b')
  have I: "index_ok h' b' ?q"
    unfolding index_ok_def idx
  proof (intro allI impI)
    fix k c assume k: "index_find (index_emplace (order_index b) (order_id (h a)) a) k = Some c"
    have "c \<in> insert a (live b q) \<and> order_id (h c) = k"
      using book_reprD(4) [OF R] 
      by (intro oi.ins_entries [where P = "\<lambda>k c. c \<in> insert a (live b q) \<and> order_id (h c) = k", OF _ _ k])
         (auto simp: index_ok_def)
    then show "c \<in> live b' ?q \<and> order_id (h' c) = k"
      using live_updq_insert [OF iN] relinkedD(1) [OF rel] same_gridD(5) [OF grid] by simp
  qed
  have "best_of (num_levels b) (?q s') s' (cursor b' s')" for s'
  proof (cases "s' = s")
    case True
    have "cursor b' s = (if cursor b s = kNoBest \<or> (if s then cursor b s < i else i < cursor b s)
        then i else cursor b s)"
      by (simp add: b' cursor_def)
    then show ?thesis
      unfolding True using best_of_insert [of "num_levels b" q s "cursor b s" i a] book_reprD(3) [OF R, of s]
        iN num_levels_small(1) [OF geo]
      by simp
  next
    case False
    then have "cursor b' s' = cursor b s'"
      by (simp add: b')
    then show ?thesis
      using book_reprD(3) [OF R, of s'] False by simp
  qed
  then show "book_repr h' b' ?q"
    using G Q I same_gridD(1) [OF grid] by (simp add: book_repr_def)
qed

lemma book_qty_ok_one_level:
  assumes qty: "book_qty_ok h b q" and grid: "same_grid b b'"
    and same: "levels_of b' (\<not> s) = levels_of b (\<not> s)"
      "\<And>j. j \<noteq> i \<Longrightarrow> levels_of b' s ! j = levels_of b s ! j"
    and eq: "\<And>s' j c. j < num_levels b \<Longrightarrow> s' \<noteq> s \<or> j \<noteq> i \<Longrightarrow> c \<in> set (q s' j) \<Longrightarrow>
      quantity (h' c) = quantity (h c)"
    and lvl: "level_qty_ok h' (levels_of b' s ! i) xs"
  shows "book_qty_ok h' b' (updq q s i xs)"
  unfolding book_qty_ok_def
proof (intro allI impI)
  fix s' j
  assume "j < num_levels b'"
  then have j: "j < num_levels b"
    by (simp add: same_gridD(1) [OF grid])
  show "level_qty_ok h' (levels_of b' s' ! j) (updq q s i xs s' j)"
  proof (cases "s' = s \<and> j = i")
    case True
    then show ?thesis
      using lvl by simp
  next
    case False
    then have "levels_of b' s' ! j = levels_of b s' ! j"
      using same by (cases "s' = s") auto
    moreover have "qty_sum h' (q s' j) = qty_sum h (q s' j)"
      using eq [OF j, of s'] False by (intro qty_sum_cong) auto
    moreover have "updq q s i xs s' j = q s' j"
      using False by (auto simp: updq_apply)
    ultimately show ?thesis
      using qty j by (simp add: book_qty_ok_def level_qty_ok_def)
  qed
qed

lemma add_order_invalid: "\<not> is_valid_price b (price (h a)) \<Longrightarrow> add_order h b (Some a) = (h, b)"
  by (simp add: add_order_def)

lemma add_order_qty:
  assumes "book_repr h b q" "a \<notin> live b q" "is_valid_price b (price (h a))"
    "quantity (h a) \<noteq> 0" "is_active (h a)" "s = is_buy (h a)" "i = tick_to_index b (price (h a))"
    "Suc (length (q s i)) < 2 ^ 32" "add_order h b (Some a) = (h', b')"
    and qty: "book_qty_ok h b q" and fits: "qty_sum h (q s i @ [a]) < 2 ^ 32"
  shows "book_qty_ok h' b' (updq q s i (q s i @ [a]))"
proof -
  note A = add_order_repr [OF assms(1-9)]
  have "unat (lvl_total_qty (levels_of b s ! i)) = qty_sum h (q s i)"
    using qty A(5) by (simp add: book_qty_ok_def level_qty_ok_def)
  then have "unat (lvl_total_qty (levels_of b' s ! i)) = qty_sum h (q s i @ [a])"
    unfolding A(7) using fits by (simp add: unat_word_ariths)
  then have "level_qty_ok h' (levels_of b' s ! i) (q s i @ [a])"
    using relinked_qty_sum [OF A(2)] by (simp only: level_qty_ok_def)
  then show ?thesis
    using book_qty_ok_one_level [OF qty A(3) A(8,9)] relinkedD(3) [OF A(2)] by blast
qed

subsection \<open>Splicing out\<close>

lemma relinked_status:
  assumes "relinked A (h(a := v)) h1"
  shows "relinked A (h(a := v\<lparr>status := st\<rparr>)) (h1(a := (h1 a)\<lparr>status := st\<rparr>))"
proof -
  have "unlink (h1 a) = unlink v" "a \<notin> A \<Longrightarrow> h1 a = v"
    using assms by (auto simp: relinked_def dest: spec [of _ a])
  then have "unlink ((h1 a)\<lparr>status := st\<rparr>) = unlink (v\<lparr>status := st\<rparr>)"
    by (cases "h1 a"; cases v) (simp add: unlink_def)
  then show ?thesis
    using assms by (auto simp: relinked_def)
qed

text \<open>
  Cancel, full fill and reduction to zero share this tail: the order's own record is
  \<open>v\<close> (its quantity may have changed), the level's aggregate is \<open>t\<close>, then the order is
  spliced out, its id erased, its status set and the cursor advanced if the level is
  drained.
\<close>

definition splice_out ::
  "heap \<Rightarrow> OrderBook \<Rightarrow> Side \<Rightarrow> nat \<Rightarrow> addr \<Rightarrow> PriceLevel \<Rightarrow> OrderStatus \<Rightarrow> heap \<times> OrderBook" where
  "splice_out h b sd i a l st =
     (let (h1, l1) = level_remove h l (Some a);
          b1 = set_level b sd i l1;
          b2 = b1\<lparr>order_index := index_erase (order_index b1) (order_id (h1 a))\<rparr>
      in (h1(a := (h1 a)\<lparr>status := st\<rparr>),
          if level_empty l1 then advance_best_cursor b2 sd i else b2))"

text \<open>The book after a level has lost one order.\<close>

definition drop_from :: "OrderBook \<Rightarrow> Side \<Rightarrow> nat \<Rightarrow> PriceLevel \<Rightarrow> OrderId \<Rightarrow> OrderBook" where
  "drop_from b sd i l k =
     (let b2 = (set_level b sd i l)\<lparr>order_index := index_erase (order_index b) k\<rparr>
      in if level_empty l then advance_best_cursor b2 sd i else b2)"

lemma drop_from_simps:
  "same_grid b (drop_from b sd i l k)"
  "order_index (drop_from b sd i l k) = index_erase (order_index b) k"
  "levels_of (drop_from b sd i l k) s =
     (if s = (sd = Buy) then (levels_of b s)[i := l] else levels_of b s)"
  "geometry (drop_from b sd i l k) = geometry (set_level b sd i l)"
  "queues_ok h (drop_from b sd i l k) q = queues_ok h (set_level b sd i l) q"
proof -
  let ?b2 = "(set_level b sd i l)\<lparr>order_index := index_erase (order_index b) k\<rparr>"
  have "same_grid b ?b2"
    by (rule same_grid_trans [OF same_grid_upd(4) same_grid_upd(1)])
  then show "same_grid b (drop_from b sd i l k)"
    by (auto simp: drop_from_def Let_def intro: same_grid_trans [OF _ same_grid_upd(5)])
qed (simp_all add: drop_from_def Let_def)

lemma drop_from_best:
  assumes geo: "geometry b" and Q: "queues_ok h (set_level b sd i l) (updq q s i xs)"
    and G: "geometry (set_level b sd i l)" and iN: "i < num_levels b" and sd: "s = (sd = Buy)"
    and best: "\<And>s'. best_of (num_levels b) (q s') s' (cursor b s')"
    and ne: "q s i \<noteq> []" and emp: "level_empty l \<longleftrightarrow> xs = []"
  shows "best_of (num_levels b) (updq q s i xs s') s' (cursor (drop_from b sd i l k) s')"
proof (cases "s' = s")
  case False
  then show ?thesis
    using best [of s'] sd by (simp add: drop_from_def Let_def)
next
  case s': True
  show ?thesis
  proof (cases "level_empty l")
    case True
    then show ?thesis
      using advance_best_cursor_best [of "(set_level b sd i l)\<lparr>order_index := index_erase (order_index b) k\<rparr>"
          h "updq q s i xs" i s sd q] emp assms(2-5,7) best [of s] s'
      by (simp add: drop_from_def Let_def)
  next
    case False
    then show ?thesis
      using best [of s] emp ne s' by (auto simp: drop_from_def best_of_def updq_apply)
  qed
qed

lemma drop_from_repr:
  assumes R: "book_repr h b q" and iN: "i < num_levels b" and sd: "s = (sd = Buy)"
    and split: "q s i = ys @ a # zs" and L: "level_repr h' l (ys @ zs)"
    and pr: "lvl_price l = lvl_price (levels_of b s ! i)"
    and keep: "\<And>c. c \<noteq> a \<Longrightarrow> unlink (h' c) = unlink (h c)"
    and frame: "\<And>c. c \<notin> set (q s i) \<Longrightarrow> h' c = h c"
  shows "book_repr h' (drop_from b sd i l (order_id (h a))) (updq q s i (ys @ zs))"
proof -
  note geo = book_reprD(1) [OF R] and qok = book_reprD(2) [OF R]
  let ?q = "updq q s i (ys @ zs)" and ?b = "drop_from b sd i l (order_id (h a))"
  have dist: "distinct (q s i)"
    using queues_okD(1) [OF qok iN, of s] by (simp add: level_repr_def)
  have Q: "queues_ok h' (set_level b sd i l) ?q"
  proof (rule queues_ok_update [OF geo qok iN sd L])
    fix c assume "c \<in> set (ys @ zs)"
    then have "c \<noteq> a" "c \<in> set (q s i)"
      using dist split by auto
    then show "order_at h' b s i c"
      using queues_okD(2) [OF qok iN, of c s] unlink_eqD [OF keep [of c]] by (simp add: order_at_def)
  qed (rule frame)
  have G: "geometry (set_level b sd i l)"
    using pr geometry_lvl_price [OF geo iN] by (intro geometry_set_level [OF geo]) simp
  have lv: "live ?b ?q = live b q - {a}"
    using live_updq_remove [OF geo qok iN split dist] same_gridD(5) [OF drop_from_simps(1)] by simp
  have "index_ok h' ?b ?q"
    unfolding index_ok_def drop_from_simps(2) lv
  proof (intro allI impI)
    fix k c assume k: "index_find (index_erase (order_index b) (order_id (h a))) k = Some c"
    have "(c \<in> live b q \<and> order_id (h c) = k) \<and> k \<noteq> order_id (h a)"
      using book_reprD(4) [OF R]
      by (intro oi.del_entries [where P = "\<lambda>k c. c \<in> live b q \<and> order_id (h c) = k", OF _ k])
         (auto simp: index_ok_def)
    then show "c \<in> live b q - {a} \<and> order_id (h' c) = k"
      using unlink_eqD(1) [OF keep [of c]] by auto
  qed
  moreover have "best_of (num_levels b) (?q s') s' (cursor ?b s')" for s'
    using split level_repr_empty [OF L]
    by (intro drop_from_best [OF geo Q G iN sd book_reprD(3) [OF R]]) simp_all
  ultimately show ?thesis
    using G Q same_gridD(1) [OF drop_from_simps(1)] by (simp add: book_repr_def drop_from_simps)
qed

lemma splice_out_eq:
  assumes R: "book_repr h b q" and iN: "i < num_levels b"
    and split: "q s i = ys @ a # zs"
    and v: "nxt v = nxt (h a)" "prv v = prv (h a)" "order_id v = order_id (h a)"
    and out: "splice_out (h(a := v)) b sd i a ((levels_of b s ! i)\<lparr>lvl_total_qty := t\<rparr>) st = (h', b')"
  obtains l where "b' = drop_from b sd i l (order_id (h a))" "level_repr h' l (ys @ zs)"
    "lvl_price l = lvl_price (levels_of b s ! i)" "lvl_total_qty l = sub_or_zero t (quantity v)"
    "relinked (set (q s i)) (h(a := v\<lparr>status := st\<rparr>)) h'" "nxt (h' a) = None" "prv (h' a) = None"
proof -
  let ?l = "(levels_of b s ! i)\<lparr>lvl_total_qty := t\<rparr>"
  have "level_repr h (levels_of b s ! i) (ys @ a # zs)"
    using queues_okD(1) [OF book_reprD(2) [OF R] iN, of s] split by simp
  moreover have "level_repr h (levels_of b s ! i) (ys @ a # zs) =
      level_repr (h(a := v)) (levels_of b s ! i) (ys @ a # zs)"
    by (rule level_repr_cong) (simp add: v)
  ultimately have L0: "level_repr (h(a := v)) ?l (ys @ a # zs)"
    by (simp add: level_repr_def)
  obtain h1 l1 where rm: "level_remove (h(a := v)) ?l (Some a) = (h1, l1)"
    by fastforce
  note rel1 = level_remove_heap(2) [OF L0 rm] and F = level_remove_fields [OF rm]
  have "order_id (h1 a) = order_id (h a)"
    using relinkedD(1) [OF rel1, of a] v(3) by simp
  then have eq: "splice_out (h(a := v)) b sd i a ?l st =
      (h1(a := (h1 a)\<lparr>status := st\<rparr>), drop_from b sd i l1 (order_id (h a)))"
    by (simp add: splice_out_def drop_from_def rm Let_def)
  then have h': "h' = h1(a := (h1 a)\<lparr>status := st\<rparr>)"
    using out by simp
  have "relinked (set (q s i)) (h(a := v\<lparr>status := st\<rparr>)) h'"
    unfolding h' split by (rule relinked_status [OF rel1])
  moreover have "level_repr h' l1 (ys @ zs)"
    using level_remove_repr [OF L0 rm] level_repr_cong [of "ys @ zs" h1 h'] by (simp add: h')
  ultimately show thesis
    using that [of l1] eq out F by (simp add: h')
qed

text \<open>
  \<open>removes\<close> collects what taking order \<open>a\<close> out of the book means: the queues lose it,
  its record becomes \<open>w\<close>, no other order changes except in its links, nothing outside the
  book's orders changes, and exact aggregates stay exact.
\<close>

definition removes ::
  "heap \<Rightarrow> OrderBook \<Rightarrow> queues \<Rightarrow> addr \<Rightarrow> Order \<Rightarrow> heap \<Rightarrow> OrderBook \<Rightarrow> queues \<Rightarrow> bool" where
  "removes h b q a w h' b' q' \<longleftrightarrow>
     book_repr h' b' q' \<and> same_grid b b' \<and> h' a = w \<and>
     (\<forall>c. c \<noteq> a \<longrightarrow> unlink (h' c) = unlink (h c)) \<and>
     (\<forall>c. c \<notin> live b q \<longrightarrow> h' c = h c) \<and>
     live b' q' = live b q - {a} \<and>
     order_index b' = index_erase (order_index b) (order_id (h a)) \<and>
     (book_qty_ok h b q \<longrightarrow> book_qty_ok h' b' q')"

lemma removesD:
  assumes "removes h b q a w h' b' q'"
  shows "book_repr h' b' q'" "same_grid b b'" "h' a = w"
    "c \<noteq> a \<Longrightarrow> unlink (h' c) = unlink (h c)" "c \<notin> live b q \<Longrightarrow> h' c = h c"
    "live b' q' = live b q - {a}"
    "order_index b' = index_erase (order_index b) (order_id (h a))"
    "book_qty_ok h b q \<Longrightarrow> book_qty_ok h' b' q'"
  using assms by (auto simp: removes_def)

lemma splice_out_removes:
  assumes R: "book_repr h b q" and iN: "i < num_levels b" and sd: "s = (sd = Buy)"
    and split: "q s i = ys @ a # zs"
    and v: "nxt v = nxt (h a)" "prv v = prv (h a)" "order_id v = order_id (h a)"
    and t: "unat (lvl_total_qty (levels_of b s ! i)) = qty_sum h (q s i) \<Longrightarrow>
      unat t = unat (quantity v) + qty_sum h (ys @ zs)"
    and out: "splice_out (h(a := v)) b sd i a ((levels_of b s ! i)\<lparr>lvl_total_qty := t\<rparr>) st = (h', b')"
  shows "removes h b q a (unlink (v\<lparr>status := st\<rparr>)) h' b' (updq q s i (ys @ zs))"
proof -
  note geo = book_reprD(1) [OF R] and qok = book_reprD(2) [OF R]
  obtain l where l: "b' = drop_from b sd i l (order_id (h a))" "level_repr h' l (ys @ zs)"
    "lvl_price l = lvl_price (levels_of b s ! i)" "lvl_total_qty l = sub_or_zero t (quantity v)"
    and rel: "relinked (set (q s i)) (h(a := v\<lparr>status := st\<rparr>)) h'"
    and links: "nxt (h' a) = None" "prv (h' a) = None"
    using splice_out_eq [OF R iN split v out] by blast
  have dist: "distinct (q s i)"
    using queues_okD(1) [OF qok iN, of s] by (simp add: level_repr_def)
  have keep: "unlink (h' c) = unlink (h c)" if "c \<noteq> a" for c
    using rel that by (auto simp: relinked_def)
  have frame: "h' c = h c" if "c \<notin> set (q s i)" for c
    using relinkedD(8) [OF rel that] that split by auto
  have "unlink (h' a) = unlink (v\<lparr>status := st\<rparr>)"
    using rel by (auto simp: relinked_def dest: spec [of _ a])
  then have ha: "h' a = unlink (v\<lparr>status := st\<rparr>)"
    using links by (cases "h' a") (simp add: unlink_def)
  have repr: "book_repr h' b' (updq q s i (ys @ zs))"
    unfolding l(1) by (rule drop_from_repr [OF R iN sd split l(2,3) keep frame])
  have live': "live b' (updq q s i (ys @ zs)) = live b q - {a}"
    using live_updq_remove [OF geo qok iN split dist] same_gridD(5) [OF drop_from_simps(1)] l(1) by simp
  have "book_qty_ok h' b' (updq q s i (ys @ zs))" if qty: "book_qty_ok h b q"
  proof (rule book_qty_ok_one_level [OF qty])
    have "unat t = unat (quantity v) + qty_sum h (ys @ zs)"
      using qty iN by (intro t) (simp add: book_qty_ok_def level_qty_ok_def)
    then have "unat (lvl_total_qty l) = qty_sum h (ys @ zs)"
      by (simp add: l(4) unat_sub_or_zero word_le_nat_alt)
    moreover have "qty_sum h' (ys @ zs) = qty_sum h (ys @ zs)"
      using dist split by (intro qty_sum_cong unlink_eqD(4) keep) auto
    moreover have "levels_of b' s ! i = l"
      using iN num_levels_small(3) [OF geo, of s] sd by (simp add: l(1) drop_from_simps)
    ultimately show "level_qty_ok h' (levels_of b' s ! i) (ys @ zs)"
      by (simp only: level_qty_ok_def)
  next
    fix s' j c
    assume "j < num_levels b" "s' \<noteq> s \<or> j \<noteq> i" "c \<in> set (q s' j)"
    then have "c \<notin> set (q s i)"
      using queues_disjoint [OF geo qok _ iN] by blast
    then show "quantity (h' c) = quantity (h c)"
      by (simp add: frame)
  qed (simp_all add: l(1) drop_from_simps sd)
  then show ?thesis
    using repr live' ha keep frame live_at [OF iN, of _ q s]
    by (auto simp: removes_def l(1) drop_from_simps)
qed

subsection \<open>The operations that remove\<close>

text \<open>Where an order of the book rests: its side and its tick say so.\<close>

lemma live_place:
  assumes R: "book_repr h b q" and a: "a \<in> live b q"
    and s: "s = is_buy (h a)" and i: "i = tick_to_index b (price (h a))"
  shows "i < num_levels b" "a \<in> set (q s i)" "is_valid_price b (price (h a))"
    "order_at h b s i a"
proof -
  note geo = book_reprD(1) [OF R]
  obtain s' j where j: "j < num_levels b" "a \<in> set (q s' j)"
    using a by (auto simp: live_iff)
  then have at: "order_at h b s' j a"
    using queues_okD(2) [OF book_reprD(2) [OF R]] by blast
  then have "s' = s" "j = i"
    using tick_to_index_price [OF geo j(1)] by (auto simp: order_at_def s i)
  then show "i < num_levels b" "a \<in> set (q s i)" "order_at h b s i a"
    using j at by auto
  show "is_valid_price b (price (h a))"
    using at j(1) is_valid_price_iff [OF geo] by (auto simp: order_at_def)
qed

lemma live_split:
  assumes "book_repr h b q" and "a \<in> live b q"
  obtains s i ys zs where "s = is_buy (h a)" "i = tick_to_index b (price (h a))"
    "i < num_levels b" "q s i = ys @ a # zs" "is_valid_price b (price (h a))"
    "levels_of b s ! i = side_levels b (side (h a)) ! i" "s = (side (h a) = Buy)"
proof -
  note P = live_place [OF assms refl refl]
  obtain ys zs where "q (is_buy (h a)) (tick_to_index b (price (h a))) = ys @ a # zs"
    using P(2) by (auto simp: in_set_conv_decomp)
  then show thesis
    using that P by (auto simp: side_levels_of is_buy_def)
qed

lemma cancel_order_ptr_splice:
  assumes "is_valid_price b (price (h a))" and "i = tick_to_index b (price (h a))"
  shows "cancel_order_ptr h b (Some a) =
    splice_out h b (side (h a)) i a (side_levels b (side (h a)) ! i) Cancelled"
  using assms by (simp add: cancel_order_ptr_def splice_out_def Let_def)

lemma cancel_order_ptr_removes:
  assumes R: "book_repr h b q" and a: "a \<in> live b q"
    and out: "cancel_order_ptr h b (Some a) = (h', b')"
  obtains s i ys zs where "q s i = ys @ a # zs" "i < num_levels b" "s = is_buy (h a)"
    "removes h b q a (unlink ((h a)\<lparr>status := Cancelled\<rparr>)) h' b' (updq q s i (ys @ zs))"
proof -
  obtain s i ys zs where P: "s = is_buy (h a)" "i = tick_to_index b (price (h a))"
    "i < num_levels b" "q s i = ys @ a # zs" "is_valid_price b (price (h a))"
    "levels_of b s ! i = side_levels b (side (h a)) ! i" "s = (side (h a) = Buy)"
    using live_split [OF R a] by metis
  have "splice_out (h(a := h a)) b (side (h a)) i a
      ((levels_of b s ! i)\<lparr>lvl_total_qty := lvl_total_qty (levels_of b s ! i)\<rparr>) Cancelled = (h', b')"
    using out cancel_order_ptr_splice [of b h a i, OF P(5,2)] P(6) by simp
  then have "removes h b q a (unlink ((h a)\<lparr>status := Cancelled\<rparr>)) h' b' (updq q s i (ys @ zs))"
    by (rule splice_out_removes [OF R P(3,7,4) refl refl refl, rotated]) (simp add: P(4))
  then show thesis
    using that P by blast
qed

text \<open>A fill of the whole resting quantity takes the order out.\<close>

lemma fill_resting_order_full:
  assumes R: "book_repr h b q" and a: "a \<in> live b q"
    and out: "fill_resting_order h b (Some a) (quantity (h a)) = (r, h', b')"
  obtains s i ys zs where "r" "q s i = ys @ a # zs" "i < num_levels b" "s = is_buy (h a)"
    "removes h b q a (unlink ((h a)\<lparr>quantity := 0, status := Filled\<rparr>)) h' b' (updq q s i (ys @ zs))"
proof -
  obtain s i ys zs where P: "s = is_buy (h a)" "i = tick_to_index b (price (h a))"
    "i < num_levels b" "q s i = ys @ a # zs" "is_valid_price b (price (h a))"
    "levels_of b s ! i = side_levels b (side (h a)) ! i" "s = (side (h a) = Buy)"
    using live_split [OF R a] by metis
  let ?t = "lvl_total_qty (levels_of b s ! i) - quantity (h a)" and ?v = "(h a)\<lparr>quantity := 0\<rparr>"
  have sp: "splice_out (h(a := ?v)) b (side (h a)) i a ((levels_of b s ! i)\<lparr>lvl_total_qty := ?t\<rparr>) Filled
      = (h', b')" and r
    using out P(5,6) by (auto simp: fill_resting_order_def splice_out_def Let_def P(2) split: prod.splits)
  have "unat ?t = unat (quantity ?v) + qty_sum h (ys @ zs)"
    if "unat (lvl_total_qty (levels_of b s ! i)) = qty_sum h (q s i)"
    using that P(4) by (simp add: unat_sub word_le_nat_alt)
  then have "removes h b q a (unlink (?v\<lparr>status := Filled\<rparr>)) h' b' (updq q s i (ys @ zs))"
    using splice_out_removes [OF R P(3,7,4) _ _ _ _ sp] by simp
  then show thesis
    using that P \<open>r\<close> by simp
qed

subsection \<open>Changing a resting quantity\<close>

lemma requantify_repr:
  assumes R: "book_repr h b q" and iN: "i < num_levels b" and sd: "s = (sd = Buy)"
    and a: "a \<in> set (q s i)" and n: "n \<noteq> 0" and st: "st = New \<or> st = Partial"
  shows "book_repr (h(a := (h a)\<lparr>quantity := n, status := st\<rparr>))
    (set_level b sd i ((levels_of b s ! i)\<lparr>lvl_total_qty := t\<rparr>)) q"
    (is "book_repr ?h (set_level b sd i ?l) q")
proof -
  note geo = book_reprD(1) [OF R] and qok = book_reprD(2) [OF R]
  have "level_repr h (levels_of b s ! i) (q s i) = level_repr ?h (levels_of b s ! i) (q s i)"
    by (rule level_repr_cong) simp
  then have L: "level_repr ?h ?l (q s i)"
    using queues_okD(1) [OF qok iN, of s] by (simp add: level_repr_def)
  have "queues_ok ?h (set_level b sd i ?l) (updq q s i (q s i))"
  proof (rule queues_ok_update [OF geo qok iN sd L])
    fix c assume "c \<in> set (q s i)"
    then show "order_at ?h b s i c"
      using queues_okD(2) [OF qok iN, of c s] n st by (auto simp: order_at_def is_active_def)
  next
    fix c assume "c \<notin> set (q s i)"
    then show "?h c = h c"
      using a by auto
  qed
  moreover have "geometry (set_level b sd i ?l)"
    using geometry_lvl_price [OF geo iN] by (intro geometry_set_level [OF geo]) simp
  moreover have "index_ok ?h (set_level b sd i ?l) q"
    using book_reprD(4) [OF R] by (simp add: index_ok_def)
  ultimately show ?thesis
    using book_reprD(3) [OF R] by (simp add: book_repr_def)
qed

lemma requantify_qty:
  assumes R: "book_repr h b q" and iN: "i < num_levels b" and sd: "s = (sd = Buy)"
    and split: "q s i = ys @ a # zs" and qty: "book_qty_ok h b q"
    and t: "unat t = unat n + qty_sum h (ys @ zs)"
  shows "book_qty_ok (h(a := (h a)\<lparr>quantity := n, status := st\<rparr>))
    (set_level b sd i ((levels_of b s ! i)\<lparr>lvl_total_qty := t\<rparr>)) q"
    (is "book_qty_ok ?h (set_level b sd i ?l) q")
proof -
  note geo = book_reprD(1) [OF R] and qok = book_reprD(2) [OF R]
  have "distinct (q s i)"
    using queues_okD(1) [OF qok iN, of s] by (simp add: level_repr_def)
  then have "level_qty_ok ?h ?l (q s i)"
    using split t by (simp add: level_qty_ok_def)
  then have "book_qty_ok ?h (set_level b sd i ?l) (updq q s i (q s i))"
    using split by (intro book_qty_ok_update [OF geo qok qty iN sd]) auto
  then show ?thesis
    by simp
qed

lemma fill_resting_order_part:
  assumes R: "book_repr h b q" and a: "a \<in> live b q" and lt: "f < quantity (h a)"
    and out: "fill_resting_order h b (Some a) f = (r, h', b')"
  shows "\<not> r" "h' = h(a := (h a)\<lparr>quantity := quantity (h a) - f, status := Partial\<rparr>)"
    "book_repr h' b' q" "same_grid b b'" "order_index b' = order_index b"
    "book_qty_ok h b q \<Longrightarrow> book_qty_ok h' b' q"
proof -
  obtain s i ys zs where P: "s = is_buy (h a)" "i = tick_to_index b (price (h a))"
    "i < num_levels b" "q s i = ys @ a # zs" "is_valid_price b (price (h a))"
    "levels_of b s ! i = side_levels b (side (h a)) ! i" "s = (side (h a) = Buy)"
    using live_split [OF R a] by metis
  let ?n = "quantity (h a) - f"
  let ?t = "lvl_total_qty (levels_of b s ! i) - f"
  let ?b = "set_level b (side (h a)) i ((levels_of b s ! i)\<lparr>lvl_total_qty := ?t\<rparr>)"
  have ne: "?n \<noteq> 0"
    using lt by auto
  have "fill_resting_order h b (Some a) f =
      (False, h(a := (h a)\<lparr>quantity := ?n, status := Partial\<rparr>), ?b)"
    using ne P(5,6) by (simp add: fill_resting_order_def Let_def P(2))
  then have *: "\<not> r" "h' = h(a := (h a)\<lparr>quantity := ?n, status := Partial\<rparr>)" "b' = ?b"
    using out by simp_all
  show "\<not> r" "h' = h(a := (h a)\<lparr>quantity := quantity (h a) - f, status := Partial\<rparr>)"
    using * by simp_all
  show "same_grid b b'" "order_index b' = order_index b"
    by (simp_all add: *)
  show "book_repr h' b' q"
    unfolding * by (rule requantify_repr [OF R P(3,7) _ ne]) (simp_all add: P(4))
  assume qty: "book_qty_ok h b q"
  have "unat (lvl_total_qty (levels_of b s ! i)) = qty_sum h (q s i)"
    using qty P(3) by (simp add: book_qty_ok_def level_qty_ok_def)
  then have "unat ?t = unat ?n + qty_sum h (ys @ zs)"
    using lt P(4) by (simp add: unat_sub word_le_nat_alt word_less_nat_alt)
  then show "book_qty_ok h' b' q"
    unfolding * by (rule requantify_qty [OF R P(3,7,4) qty])
qed

text \<open>Reducing to a smaller non-zero quantity keeps the order's place in its queue.\<close>

lemma reduce_order_qty_part:
  assumes R: "book_repr h b q" and a: "a \<in> live b q" and n: "n \<le> quantity (h a)" "n \<noteq> 0"
    and out: "reduce_order_qty h b (Some a) n = (h', b')"
  shows "h' = h(a := (h a)\<lparr>quantity := n\<rparr>)" "book_repr h' b' q" "same_grid b b'"
    "order_index b' = order_index b" "book_qty_ok h b q \<Longrightarrow> book_qty_ok h' b' q"
proof -
  obtain s i ys zs where P: "s = is_buy (h a)" "i = tick_to_index b (price (h a))"
    "i < num_levels b" "q s i = ys @ a # zs" "is_valid_price b (price (h a))"
    "levels_of b s ! i = side_levels b (side (h a)) ! i" "s = (side (h a) = Buy)"
    using live_split [OF R a] by metis
  let ?d = "quantity (h a) - n" and ?h = "h(a := (h a)\<lparr>quantity := n, status := status (h a)\<rparr>)"
  let ?t = "sub_or_zero (lvl_total_qty (levels_of b s ! i)) ?d"
  let ?b = "set_level b (side (h a)) i ((levels_of b s ! i)\<lparr>lvl_total_qty := ?t\<rparr>)"
  have d: "?d \<le> quantity (h a)" "unat ?d = unat (quantity (h a)) - unat n"
    using n by (simp_all add: word_le_nat_alt unat_sub)
  then have "sub_or_zero (quantity (h a)) ?d = n"
    by (simp add: sub_or_zero_def)
  then have "reduce_order_qty h b (Some a) n = (h(a := (h a)\<lparr>quantity := n\<rparr>), ?b)"
    using n P(5,6) by (simp add: reduce_order_qty_def level_reduce_qty_def Let_def P(2))
  moreover have "(h a)\<lparr>quantity := n, status := status (h a)\<rparr> = (h a)\<lparr>quantity := n\<rparr>"
    by (cases "h a") simp
  ultimately have *: "h' = ?h" "h' = h(a := (h a)\<lparr>quantity := n\<rparr>)" "b' = ?b"
    using out by simp_all
  show "h' = h(a := (h a)\<lparr>quantity := n\<rparr>)" "same_grid b b'" "order_index b' = order_index b"
    using * by simp_all
  have "status (h a) = New \<or> status (h a) = Partial"
    using live_place(4) [OF R a P(1,2)] by (auto simp: order_at_def is_active_def)
  then show "book_repr h' b' q"
    unfolding *(1,3) using P(4) n(2) by (intro requantify_repr [OF R P(3,7)]) simp_all
  assume qty: "book_qty_ok h b q"
  have "unat (lvl_total_qty (levels_of b s ! i)) = qty_sum h (q s i)"
    using qty P(3) by (simp add: book_qty_ok_def level_qty_ok_def)
  then have "unat ?t = unat n + qty_sum h (ys @ zs)"
    using d n P(4) by (simp add: unat_sub_or_zero word_le_nat_alt)
  then show "book_qty_ok h' b' q"
    unfolding *(1,3) by (rule requantify_qty [OF R P(3,7,4) qty])
qed

lemma reduce_order_qty_zero:
  assumes R: "book_repr h b q" and a: "a \<in> live b q"
    and out: "reduce_order_qty h b (Some a) 0 = (h', b')"
  obtains s i ys zs where "q s i = ys @ a # zs" "i < num_levels b" "s = is_buy (h a)"
    "removes h b q a (unlink ((h a)\<lparr>quantity := 0, status := Cancelled\<rparr>)) h' b' (updq q s i (ys @ zs))"
proof -
  obtain s i ys zs where P: "s = is_buy (h a)" "i = tick_to_index b (price (h a))"
    "i < num_levels b" "q s i = ys @ a # zs" "is_valid_price b (price (h a))"
    "levels_of b s ! i = side_levels b (side (h a)) ! i" "s = (side (h a) = Buy)"
    using live_split [OF R a] by metis
  let ?t = "sub_or_zero (lvl_total_qty (levels_of b s ! i)) (quantity (h a))"
  let ?v = "(h a)\<lparr>quantity := 0\<rparr>"
  have sp: "splice_out (h(a := ?v)) b (side (h a)) i a ((levels_of b s ! i)\<lparr>lvl_total_qty := ?t\<rparr>) Cancelled
      = (h', b')"
    using out P(5,6)
    by (simp add: reduce_order_qty_def level_reduce_qty_def splice_out_def Let_def P(2) sub_or_zero_def)
  have "unat ?t = unat (quantity ?v) + qty_sum h (ys @ zs)"
    if "unat (lvl_total_qty (levels_of b s ! i)) = qty_sum h (q s i)"
    using that P(4) by (simp add: unat_sub_or_zero word_le_nat_alt)
  then have "removes h b q a (unlink (?v\<lparr>status := Cancelled\<rparr>)) h' b' (updq q s i (ys @ zs))"
    using splice_out_removes [OF R P(3,7,4) _ _ _ _ sp] by simp
  then show thesis
    using that P by simp
qed

subsection \<open>Popping the best order\<close>

text \<open>Taking the head off a level is splicing it out.\<close>

lemma level_dequeue_head_remove:
  assumes "level_repr h lvl (a # as)"
  shows "level_dequeue_head h lvl = (Some a, level_remove h lvl (Some a))"
  using assms by (auto simp: level_dequeue_head_def level_remove_def level_repr_def Let_def
      split: option.splits)

lemma pop_best_splice:
  assumes R: "book_repr h b q" and i: "i = cursor b s" "i \<noteq> kNoBest" and sd: "sd = (if s then Buy else Sell)"
    and q: "q s i = a # as"
  shows "(if s then pop_best_bid_head h b else pop_best_ask_head h b) =
    (Some a, splice_out h b sd i a (levels_of b s ! i) (status (h a)))"
proof -
  have iN: "i < num_levels b"
    using book_reprD(3) [OF R, of s] i by (auto simp: best_of_def)
  have L: "level_repr h (levels_of b s ! i) (a # as)"
    using queues_okD(1) [OF book_reprD(2) [OF R] iN, of s] q by simp
  obtain h1 l where rm: "level_remove h (levels_of b s ! i) (Some a) = (h1, l)"
    by fastforce
  then have "level_dequeue_head h (levels_of b s ! i) = (Some a, h1, l)"
    using level_dequeue_head_remove [OF L] by simp
  moreover have "status (h1 a) = status (h a)"
    using relinkedD(5) [OF level_remove_heap(2) [of _ _ "[]", OF _ rm], of as a] L by simp
  then have "h1(a := (h1 a)\<lparr>status := status (h a)\<rparr>) = h1"
    by (cases "h1 a") (simp add: fun_eq_iff)
  ultimately show ?thesis
    using i rm by (cases s) (auto simp: pop_best_bid_head_def pop_best_ask_head_def splice_out_def Let_def
      cursor_def levels_of_def set_level_def sd)
qed

lemma pop_best_removes:
  assumes R: "book_repr h b q" and i: "i = cursor b s" "i \<noteq> kNoBest" and q: "q s i = a # as"
    and out: "(if s then pop_best_bid_head h b else pop_best_ask_head h b) = (r, h', b')"
  shows "r = Some a" "removes h b q a (unlink (h a)) h' b' (updq q s i as)"
proof -
  have iN: "i < num_levels b"
    using book_reprD(3) [OF R, of s] i by (auto simp: best_of_def)
  define sd where "sd = (if s then Buy else Sell)"
  then have s: "s = (sd = Buy)"
    by simp
  note eq = pop_best_splice [OF R i sd_def q]
  show "r = Some a"
    using eq out by simp
  have "splice_out (h(a := h a)) b sd i a
      ((levels_of b s ! i)\<lparr>lvl_total_qty := lvl_total_qty (levels_of b s ! i)\<rparr>) (status (h a)) = (h', b')"
    using eq out by simp
  then have "removes h b q a (unlink ((h a)\<lparr>status := status (h a)\<rparr>)) h' b' (updq q s i ([] @ as))"
    using splice_out_removes [OF R iN s, of "[]" a as "h a" "lvl_total_qty (levels_of b s ! i)" "status (h a)" h' b'] q by simp
  then show "removes h b q a (unlink (h a)) h' b' (updq q s i as)"
    by simp
qed

subsection \<open>A new and a cleared book\<close>

lemma OrderBook_new_fields:
  "levels_of (OrderBook_new iid mn mx t) s =
     map (\<lambda>i. PriceLevel_new\<lparr>lvl_price := mn + int i * t\<rparr>) [0..<num_levels_for mn mx t]"
  "cursor (OrderBook_new iid mn mx t) s = kNoBest"
  "order_index (OrderBook_new iid mn mx t) = []"
  "num_levels (OrderBook_new iid mn mx t) = num_levels_for mn mx t"
  "min_price (OrderBook_new iid mn mx t) = mn" "max_price (OrderBook_new iid mn mx t) = mx"
  "tick_size (OrderBook_new iid mn mx t) = t"
  by (simp_all add: OrderBook_new_def OrderIndex_new_def Let_def levels_of_def cursor_def num_levels_def)

lemma OrderBook_new_repr:
  assumes "valid_geometry mn mx t"
  shows "book_repr h (OrderBook_new iid mn mx t) (\<lambda>_ _. [])"
  using assms level_new_repr
  by (simp add: book_repr_def geometry_def queues_ok_def best_of_def index_ok_def OrderBook_new_fields
      index_to_price_def index_find_def)

lemma OrderBook_new_qty: "book_qty_ok h (OrderBook_new iid mn mx t) (\<lambda>_ _. [])"
  by (simp add: book_qty_ok_def level_qty_ok_def OrderBook_new_fields PriceLevel_new_def)

lemma book_clear_fields:
  "levels_of (book_clear b) s = map level_clear (levels_of b s)"
  "cursor (book_clear b) s = kNoBest" "order_index (book_clear b) = []"
  "num_levels (book_clear b) = num_levels b" "same_grid b (book_clear b)"
  by (simp_all add: book_clear_def levels_of_def cursor_def num_levels_def index_clear_def same_grid_def)

lemma book_clear_repr:
  assumes "geometry b"
  shows "book_repr h (book_clear b) (\<lambda>_ _. [])" "book_qty_ok h (book_clear b) (\<lambda>_ _. [])"
proof -
  note len = num_levels_small(3) [OF assms]
  have "lvl_price (level_clear l) = lvl_price l" for l
    by (simp add: level_clear_def)
  then have "geometry (book_clear b)"
    using assms len same_gridD(2) [OF book_clear_fields(5)] book_clear_fields(5) [of b]
    by (simp add: geometry_def book_clear_fields same_grid_def)
  then show "book_repr h (book_clear b) (\<lambda>_ _. [])"
    using len by (simp add: book_repr_def queues_ok_def best_of_def index_ok_def book_clear_fields
        index_find_def level_clear_def level_repr_def)
  show "book_qty_ok h (book_clear b) (\<lambda>_ _. [])"
    using len by (simp add: book_qty_ok_def level_qty_ok_def book_clear_fields level_clear_def)
qed

end
