(* ===== verification/Book_Spec.thy ===== *)
theory Book_Spec
  imports Order_Book_Ops
begin

section \<open>The book as two priority lists\<close>

text \<open>
  The abstract specification of an order book: for each side one list of entries in
  price-time priority, best price first and oldest first within a price. \<open>side_view\<close>
  reads that list off a represented book (levels from the best to the worst, each queue
  from head to tail), and the lemmas say what the book's operations do to it: insertion
  behind every order of the same or a better price, deletion, and a change of quantity
  in place.
\<close>

record Entry =
  e_slot :: addr
  e_id :: OrderId
  e_price :: Price
  e_qty :: Quantity

definition entry_of :: "heap \<Rightarrow> addr \<Rightarrow> Entry" where
  "entry_of h a = \<lparr>e_slot = a, e_id = order_id (h a), e_price = price (h a), e_qty = quantity (h a)\<rparr>"

text \<open>\<open>True\<close> is the bid side: a higher price is better there, a lower one on the ask side.\<close>

definition better :: "bool \<Rightarrow> Price \<Rightarrow> Price \<Rightarrow> bool" where
  "better s p p' \<longleftrightarrow> (if s then p' < p else p < p')"

definition insert_entry :: "bool \<Rightarrow> Entry \<Rightarrow> Entry list \<Rightarrow> Entry list" where
  "insert_entry s e es =
     takeWhile (\<lambda>x. \<not> better s (e_price e) (e_price x)) es @ e #
     dropWhile (\<lambda>x. \<not> better s (e_price e) (e_price x)) es"

definition level_order :: "bool \<Rightarrow> nat \<Rightarrow> nat list" where
  "level_order s n = (if s then rev [0..<n] else [0..<n])"

definition prio :: "OrderBook \<Rightarrow> queues \<Rightarrow> bool \<Rightarrow> addr list" where
  "prio b q s = concat (map (q s) (level_order s (num_levels b)))"

definition side_view :: "heap \<Rightarrow> OrderBook \<Rightarrow> queues \<Rightarrow> bool \<Rightarrow> Entry list" where
  "side_view h b q s = map (entry_of h) (prio b q s)"

definition price_sorted :: "bool \<Rightarrow> Entry list \<Rightarrow> bool" where
  "price_sorted s es \<longleftrightarrow> sorted_wrt (\<lambda>x y. \<not> better s (e_price y) (e_price x)) es"

lemma entry_of_simps [simp]:
  "e_slot (entry_of h a) = a" "e_id (entry_of h a) = order_id (h a)"
  "e_price (entry_of h a) = price (h a)" "e_qty (entry_of h a) = quantity (h a)"
  by (simp_all add: entry_of_def)

lemma entry_of_unlink: "unlink (h' a) = unlink (h a) \<Longrightarrow> entry_of h' a = entry_of h a"
  using unlink_eqD [of "h' a" "h a"] by (simp add: entry_of_def)

subsection \<open>Splitting the priority list at a level\<close>

text \<open>Level \<open>j\<close> of side \<open>s\<close> has priority over level \<open>i\<close>.\<close>

definition ahead :: "bool \<Rightarrow> nat \<Rightarrow> nat \<Rightarrow> bool" where
  "ahead s j i \<longleftrightarrow> (if s then i < j else j < i)"

lemma level_order_simps:
  "set (level_order s n) = {..<n}" "distinct (level_order s n)"
  "sorted_wrt (\<lambda>j i. ahead s j i) (level_order s n)"
  by (auto simp: level_order_def ahead_def sorted_wrt_rev strict_sorted_iff [symmetric]
      simp flip: strict_sorted_iff)

lemma set_prio: "set (prio b q s) = (\<Union>i \<in> {..<num_levels b}. set (q s i))"
  by (simp add: prio_def level_order_simps)

lemma live_prio: "live b q = set (prio b q True) \<union> set (prio b q False)"
proof -
  have "live b q = (\<Union>s. set (prio b q s))"
    by (simp add: live_def set_prio)
  then show ?thesis
    by (simp add: UNIV_bool Un_commute)
qed

lemma prio_updq_other [simp]: "s' \<noteq> s \<Longrightarrow> prio b (updq q s i xs) s' = prio b q s'"
  by (simp add: prio_def)

lemma prio_grid: "same_grid b b' \<Longrightarrow> prio b' = prio b"
  by (auto simp: prio_def fun_eq_iff same_gridD(1))

lemma prio_at_level:
  assumes "i < num_levels b"
  obtains us vs where "prio b q s = us @ q s i @ vs"
    "\<And>xs. prio b (updq q s i xs) s = us @ xs @ vs"
    "\<And>c. c \<in> set us \<Longrightarrow> \<exists>j < num_levels b. ahead s j i \<and> c \<in> set (q s j)"
    "\<And>c. c \<in> set vs \<Longrightarrow> \<exists>j < num_levels b. ahead s i j \<and> c \<in> set (q s j)"
proof -
  let ?L = "level_order s (num_levels b)"
  have "i \<in> set ?L"
    using assms by (simp add: level_order_simps)
  then obtain js ks where L: "?L = js @ i # ks" "i \<notin> set js" "i \<notin> set ks"
    using level_order_simps(2) in_set_split_distinct by metis
  have ord: "\<And>j. j \<in> set js \<Longrightarrow> ahead s j i" "\<And>j. j \<in> set ks \<Longrightarrow> ahead s i j"
    using level_order_simps(3) [of s "num_levels b"] by (auto simp: L sorted_wrt_append)
  have rng: "\<And>j. j \<in> set js \<union> set ks \<Longrightarrow> j < num_levels b"
    using level_order_simps(1) [of s "num_levels b"] L(1) by auto
  have same: "map (updq q s i xs s) js = map (q s) js" "map (updq q s i xs s) ks = map (q s) ks" for xs
    using L by (auto simp: updq_apply)
  show thesis
  proof (rule that [of "concat (map (q s) js)" "concat (map (q s) ks)"])
    show "prio b q s = concat (map (q s) js) @ q s i @ concat (map (q s) ks)"
      by (simp add: prio_def L(1))
    show "prio b (updq q s i xs) s = concat (map (q s) js) @ xs @ concat (map (q s) ks)" for xs
      by (simp add: prio_def L(1) same del: map_eq_conv)
  qed (use ord rng in auto)
qed

lemma distinct_prio:
  assumes "book_repr h b q"
  shows "distinct (prio b q s)"
proof -
  note geo = book_reprD(1) [OF assms] and qok = book_reprD(2) [OF assms]
  have "distinct (concat (map (q s) js))"
    if "distinct js" "set js \<subseteq> {..<num_levels b}" for js
    using that
  proof (induction js)
    case (Cons j js)
    have "distinct (q s j)"
      using queues_okD(1) [OF qok, of j s] Cons.prems by (simp add: level_repr_def)
    moreover have "set (q s j) \<inter> set (concat (map (q s) js)) = {}"
      using queues_disjoint [OF geo qok, of j _ _ s s] Cons.prems by fastforce
    ultimately show ?case
      using Cons by simp
  qed simp
  then show ?thesis
    unfolding prio_def using level_order_simps by simp
qed

lemma prio_empty_iff:
  assumes "book_repr h b q"
  shows "cursor b s = kNoBest \<longleftrightarrow> prio b q s = []"
proof -
  have "prio b q s = [] \<longleftrightarrow> (\<forall>i < num_levels b. q s i = [])"
    by (auto simp: prio_def level_order_simps)
  then show ?thesis
    using book_reprD(3) [OF assms, of s] by (auto simp: best_of_def split: if_splits)
qed

lemma prio_best:
  assumes R: "book_repr h b q" and i: "i = cursor b s" "i \<noteq> kNoBest"
  obtains a as vs where "q s i = a # as" "prio b q s = a # as @ vs" "i < num_levels b"
proof -
  have B: "i < num_levels b" "q s i \<noteq> []" "\<And>j. j < num_levels b \<Longrightarrow> ahead s j i \<Longrightarrow> q s j = []"
    using book_reprD(3) [OF R, of s] i by (auto simp: best_of_def ahead_def split: if_splits)
  obtain us vs where L: "prio b q s = us @ q s i @ vs"
    "\<And>c. c \<in> set us \<Longrightarrow> \<exists>j < num_levels b. ahead s j i \<and> c \<in> set (q s j)"
    using prio_at_level [OF B(1), of q s] by metis
  have "us = []"
    using L(2) B(3) by (cases us) fastforce+
  then show thesis
    using that L(1) B by (cases "q s i") auto
qed

lemma filter_neq_id: "a \<notin> set xs \<Longrightarrow> filter (\<lambda>c. c \<noteq> a) xs = xs"
  by (auto simp: filter_id_conv)

lemma prio_remove:
  assumes R: "book_repr h b q" and iN: "i < num_levels b" and split: "q s i = ys @ a # zs"
  shows "prio b (updq q s i (ys @ zs)) s' = filter (\<lambda>c. c \<noteq> a) (prio b q s')"
proof (cases "s' = s")
  case True
  obtain us vs where L: "prio b q s = us @ q s i @ vs"
    "\<And>xs. prio b (updq q s i xs) s = us @ xs @ vs"
    using prio_at_level [OF iN, of q s] by metis
  have "distinct (us @ (ys @ a # zs) @ vs)"
    using distinct_prio [OF R, of s] L(1) split by simp
  then show ?thesis
    unfolding True L(1) L(2) split by (simp add: filter_neq_id)
next
  case False
  have "c \<noteq> a" if "c \<in> set (prio b q s')" for c
  proof
    assume "c = a"
    with that obtain j where "j < num_levels b" "a \<in> set (q s' j)"
      by (auto simp: set_prio)
    then show False
      using queues_disjoint [OF book_reprD(1,2) [OF R], of j i a s' s] iN split False by auto
  qed
  then show ?thesis
    using False by (simp add: filter_id_conv)
qed

lemma prio_level:
  assumes "book_repr h b q" and "c \<in> set (prio b q s)"
  obtains j where "j < num_levels b" "c \<in> set (q s j)" "price (h c) = index_to_price b j"
    "is_buy (h c) = s"
  using assms queues_okD(2) [OF book_reprD(2) [OF assms(1)]]
  by (auto simp: set_prio order_at_def)

lemma side_of_prio: "book_repr h b q \<Longrightarrow> c \<in> set (prio b q s) \<Longrightarrow> is_buy (h c) = s"
  by (erule (1) prio_level)

lemma index_to_price_less:
  assumes "geometry b"
  shows "index_to_price b i < index_to_price b j \<longleftrightarrow> i < j"
  using index_to_price_mono [OF assms, of j i] by linarith

lemma better_ahead:
  "geometry b \<Longrightarrow> better s (index_to_price b j) (index_to_price b i) \<longleftrightarrow> ahead s j i"
  by (auto simp: better_def ahead_def index_to_price_less)

lemma better_irrefl [simp]: "\<not> better s p p"
  by (simp add: better_def)

lemma better_asym: "better s p p' \<Longrightarrow> \<not> better s p' p"
  by (auto simp: better_def split: if_splits)

subsection \<open>The views are sorted\<close>

lemma side_view_sorted:
  assumes R: "book_repr h b q"
  shows "price_sorted s (side_view h b q s)"
proof -
  note geo = book_reprD(1) [OF R] and qok = book_reprD(2) [OF R]
  have pr: "price (h c) = index_to_price b j" if "j < num_levels b" "c \<in> set (q s j)" for c j
    using queues_okD(2) [OF qok that] by (simp add: order_at_def)
  have const: "sorted_wrt (\<lambda>x y. \<not> better s (price (h y)) (price (h x))) xs"
    if "\<And>c. c \<in> set xs \<Longrightarrow> price (h c) = p" for xs p
    using that by (induction xs) auto
  have "sorted_wrt (\<lambda>x y. \<not> better s (price (h y)) (price (h x))) (concat (map (q s) js))"
    if "sorted_wrt (ahead s) js" "set js \<subseteq> {..<num_levels b}" for js
    using that
  proof (induction js)
    case (Cons j js)
    have "\<not> better s (price (h y)) (price (h x))"
      if "x \<in> set (q s j)" "k \<in> set js" "y \<in> set (q s k)" for x y k
      using that Cons.prems pr [of j x] pr [of k y] better_ahead [OF geo] better_asym
      by (metis insert_subset lessThan_iff list.simps(15) sorted_wrt.simps(2) subsetD)
    then show ?case
      using Cons const [of "q s j" "index_to_price b j"] pr [of j]
      by (auto simp: sorted_wrt_append)
  qed simp
  then have "sorted_wrt (\<lambda>x y. \<not> better s (price (h y)) (price (h x))) (prio b q s)"
    unfolding prio_def using level_order_simps by simp
  then show ?thesis
    by (simp add: price_sorted_def side_view_def sorted_wrt_map)
qed

subsection \<open>What the operations do to the views\<close>

lemma side_view_cong:
  "prio b' q' s = prio b q s \<Longrightarrow> (\<And>c. c \<in> set (prio b q s) \<Longrightarrow> entry_of h' c = entry_of h c) \<Longrightarrow>
   side_view h' b' q' s = side_view h b q s"
  by (simp add: side_view_def)

lemma removes_view:
  assumes R: "book_repr h b q" and iN: "i < num_levels b" and split: "q s i = ys @ a # zs"
    and rem: "removes h b q a w h' b' (updq q s i (ys @ zs))"
  shows "side_view h' b' (updq q s i (ys @ zs)) s' = filter (\<lambda>e. e_slot e \<noteq> a) (side_view h b q s')"
proof -
  have "prio b' (updq q s i (ys @ zs)) s' = filter (\<lambda>c. c \<noteq> a) (prio b q s')"
    using prio_remove [OF R iN split] prio_grid [OF removesD(2) [OF rem]] by simp
  moreover have "entry_of h' c = entry_of h c" if "c \<noteq> a" for c
    using removesD(4) [OF rem that] by (rule entry_of_unlink)
  ultimately show ?thesis
    by (simp add: side_view_def filter_map o_def)
qed

lemma takeWhile_dropWhile_append:
  assumes "\<And>x. x \<in> set us \<Longrightarrow> P x" and "\<And>x. x \<in> set vs \<Longrightarrow> \<not> P x"
  shows "takeWhile P (us @ vs) = us" "dropWhile P (us @ vs) = vs"
  using assms by (induction us) (auto simp: takeWhile_eq_Nil_iff dropWhile_eq_self_iff)

lemma add_order_view:
  assumes R: "book_repr h b q" and fresh: "a \<notin> live b q"
    and "is_valid_price b (price (h a))" "quantity (h a) \<noteq> 0" "is_active (h a)"
    and s: "s = is_buy (h a)" and i: "i = tick_to_index b (price (h a))"
    and "Suc (length (q s i)) < 2 ^ 32" and "add_order h b (Some a) = (h', b')"
  shows "side_view h' b' (updq q s i (q s i @ [a])) s = insert_entry s (entry_of h a) (side_view h b q s)"
    "side_view h' b' (updq q s i (q s i @ [a])) (\<not> s) = side_view h b q (\<not> s)"
proof -
  note A = add_order_repr [OF assms]
  have ent: "entry_of h' c = entry_of h c" for c
    using A(2) by (intro entry_of_unlink) (simp add: relinked_def)
  note grid = prio_grid [OF A(3)] and geo = book_reprD(1) [OF R]
  show "side_view h' b' (updq q s i (q s i @ [a])) (\<not> s) = side_view h b q (\<not> s)"
    by (rule side_view_cong) (simp_all add: grid ent)
  obtain us vs where L: "prio b q s = us @ q s i @ vs"
    "\<And>xs. prio b (updq q s i xs) s = us @ xs @ vs"
    "\<And>c. c \<in> set us \<Longrightarrow> \<exists>j < num_levels b. ahead s j i \<and> c \<in> set (q s j)"
    "\<And>c. c \<in> set vs \<Longrightarrow> \<exists>j < num_levels b. ahead s i j \<and> c \<in> set (q s j)"
    using prio_at_level [OF A(5), of q s] by metis
  have pr: "price (h c) = index_to_price b j" if "j < num_levels b" "c \<in> set (q s j)" for c j
    using queues_okD(2) [OF book_reprD(2) [OF R] that] by (simp add: order_at_def)
  let ?P = "\<lambda>x. \<not> better s (price (h a)) (e_price x)"
  have 1: "?P x" if "x \<in> set (map (entry_of h) (us @ q s i))" for x
    using that L(3) pr A(5,6) better_ahead [OF geo] better_asym by (fastforce simp: ahead_def)
  have 2: "\<not> ?P x" if "x \<in> set (map (entry_of h) vs)" for x
    using that L(4) pr A(6) better_ahead [OF geo] by fastforce
  have "insert_entry s (entry_of h a) (map (entry_of h) (us @ q s i) @ map (entry_of h) vs) =
      map (entry_of h) (us @ q s i) @ entry_of h a # map (entry_of h) vs"
    unfolding insert_entry_def entry_of_simps
    using takeWhile_dropWhile_append [of "map (entry_of h) (us @ q s i)" ?P "map (entry_of h) vs", OF 1 2]
    by simp
  then show "side_view h' b' (updq q s i (q s i @ [a])) s = insert_entry s (entry_of h a) (side_view h b q s)"
    by (simp add: side_view_def grid ent L)
qed

lemma requantify_view:
  assumes "same_grid b b'" and "h' = h(a := (h a)\<lparr>quantity := n, status := st\<rparr>)"
  shows "side_view h' b' q s =
    map (\<lambda>e. if e_slot e = a then e\<lparr>e_qty := n\<rparr> else e) (side_view h b q s)"
  using assms by (simp add: side_view_def prio_grid entry_of_def)

subsection \<open>Available liquidity\<close>

text \<open>
  An aggressor of side \<open>s\<close> with limit \<open>l\<close> trades against opposite entries at \<open>l\<close> or
  better. \<open>crossing_qty\<close> is the volume it can reach; \<open>available_quantity_at_or_better\<close>
  computes it from the level aggregates. The two agree when the aggregates are exact, the
  sum fits 32 bits, and the limit is one the index arithmetic handles: a buy limit not
  below the grid, a sell limit outside the grid or on a tick.
\<close>

definition crosses :: "bool \<Rightarrow> Price \<Rightarrow> Price \<Rightarrow> bool" where
  "crosses s l p \<longleftrightarrow> (if s then p \<le> l else l \<le> p)"

definition crossing_qty :: "bool \<Rightarrow> Price \<Rightarrow> Entry list \<Rightarrow> nat" where
  "crossing_qty s l es = sum_list (map (\<lambda>e. unat (e_qty e)) (filter (\<lambda>e. crosses s l (e_price e)) es))"

definition limit_exact :: "OrderBook \<Rightarrow> bool \<Rightarrow> Price \<Rightarrow> bool" where
  "limit_exact b s l \<longleftrightarrow>
     (if s then min_price b \<le> l
      else l \<le> min_price b \<or> max_price b < l \<or> (l - min_price b) mod tick_size b = 0)"

lemma unat_foldl_add:
  fixes f :: "'b \<Rightarrow> 'a::len word"
  assumes "unat t + sum_list (map (\<lambda>k. unat (f k)) ks) < 2 ^ LENGTH('a)"
  shows "unat (foldl (\<lambda>t k. t + f k) t ks) = unat t + sum_list (map (\<lambda>k. unat (f k)) ks)"
  using assms
proof (induction ks arbitrary: t)
  case (Cons k ks)
  have "unat (t + f k) = unat t + unat (f k)"
    using Cons.prems by (simp add: unat_word_ariths)
  then show ?case
    using Cons by simp
qed simp

lemma sum_list_concat_filter:
  fixes f :: "'a \<Rightarrow> nat"
  assumes "distinct L"
  shows "sum_list (map f (filter P (concat (map q L)))) = (\<Sum>k \<in> set L. sum_list (map f (filter P (q k))))"
  using assms by (induction L) simp_all

lemma crossing_qty_levels:
  assumes R: "book_repr h b q"
  shows "crossing_qty s l (side_view h b q o') =
    (\<Sum>k < num_levels b. if crosses s l (index_to_price b k) then qty_sum h (q o' k) else 0)"
proof -
  have "crossing_qty s l (side_view h b q o') =
      sum_list (map (\<lambda>a. unat (quantity (h a))) (filter (\<lambda>a. crosses s l (price (h a))) (prio b q o')))"
    by (simp add: crossing_qty_def side_view_def filter_map o_def)
  also have "\<dots> = (\<Sum>k < num_levels b. sum_list (map (\<lambda>a. unat (quantity (h a)))
      (filter (\<lambda>a. crosses s l (price (h a))) (q o' k))))"
    unfolding prio_def using sum_list_concat_filter [OF level_order_simps(2)]
    by (simp add: level_order_simps(1))
  also have "\<dots> = (\<Sum>k < num_levels b. if crosses s l (index_to_price b k) then qty_sum h (q o' k) else 0)"
  proof (rule sum.cong [OF refl])
    fix k assume k: "k \<in> {..<num_levels b}"
    have "filter (\<lambda>a. crosses s l (price (h a))) (q o' k) =
        filter (\<lambda>a. crosses s l (index_to_price b k)) (q o' k)"
      using queues_okD(2) [OF book_reprD(2) [OF R], of k _ o'] k
      by (intro filter_cong) (auto simp: order_at_def)
    then show "sum_list (map (\<lambda>a. unat (quantity (h a))) (filter (\<lambda>a. crosses s l (price (h a))) (q o' k))) =
        (if crosses s l (index_to_price b k) then qty_sum h (q o' k) else 0)"
      by (simp add: qty_sum_def)
  qed
  finally show ?thesis .
qed

lemma sum_levels_exact:
  assumes R: "book_repr h b q" and qty: "book_qty_ok h b q"
    and rng: "\<And>k. i \<le> k \<Longrightarrow> k \<le> j \<Longrightarrow> k < num_levels b"
    and cov: "\<And>k. k < num_levels b \<Longrightarrow> q o' k \<noteq> [] \<Longrightarrow>
      crosses s l (index_to_price b k) \<longleftrightarrow> i \<le> k \<and> k \<le> j"
    and fits: "crossing_qty s l (side_view h b q o') < 2 ^ 32"
  shows "unat (sum_levels (levels_of b o') i j) = crossing_qty s l (side_view h b q o')"
proof -
  let ?f = "\<lambda>k. unat (lvl_total_qty (levels_of b o' ! k))"
  have "sum_list (map ?f [i..<Suc j]) = (\<Sum>k \<in> {i..<Suc j}. ?f k)"
    by (simp only: sum_list_distinct_conv_sum_set distinct_upt set_upt)
  also have "\<dots> = (\<Sum>k \<in> {i..<Suc j}. qty_sum h (q o' k))"
    using qty rng by (intro sum.cong) (auto simp: book_qty_ok_def level_qty_ok_def)
  also have "\<dots> = (\<Sum>k < num_levels b. if i \<le> k \<and> k \<le> j then qty_sum h (q o' k) else 0)"
  proof -
    have "{i..<Suc j} = {..<num_levels b} \<inter> {k. i \<le> k \<and> k \<le> j}"
      using rng by auto
    then show ?thesis
      by (simp add: sum.inter_restrict)
  qed
  also have "\<dots> = crossing_qty s l (side_view h b q o')"
    unfolding crossing_qty_levels [OF R]
  proof (rule sum.cong [OF refl])
    fix k assume "k \<in> {..<num_levels b}"
    then show "(if i \<le> k \<and> k \<le> j then qty_sum h (q o' k) else 0) =
        (if crosses s l (index_to_price b k) then qty_sum h (q o' k) else 0)"
      using cov [of k] by (cases "q o' k = []") auto
  qed
  finally have "sum_list (map ?f [i..<Suc j]) = crossing_qty s l (side_view h b q o')" .
  then show ?thesis
    unfolding sum_levels_def using fits by (subst unat_foldl_add) simp_all
qed

lemma index_to_price_range:
  assumes "geometry b" and "k < num_levels b"
  shows "min_price b \<le> index_to_price b k" "index_to_price b k \<le> max_price b"
  using is_valid_price_iff [OF assms(1), of "index_to_price b k"] assms(2)
  by (auto simp: is_valid_price_def)

lemma mult_le_iff_le_div: "0 < t \<Longrightarrow> k * t \<le> x \<longleftrightarrow> k \<le> x div t" for k t x :: int
proof
  assume "0 < t" "k * t \<le> x"
  then show "k \<le> x div t"
    using zdiv_mono1 [of "k * t" x t] by simp
next
  assume "0 < t" "k \<le> x div t"
  then have "k * t \<le> x div t * t"
    by (simp add: mult_right_mono)
  also have "\<dots> \<le> x"
    using \<open>0 < t\<close> by (simp add: minus_mod_eq_div_mult [symmetric])
  finally show "k * t \<le> x" .
qed

lemma tick_to_index_floor:
  assumes geo: "geometry b" and l: "min_price b \<le> l" "l \<le> max_price b"
  shows "tick_to_index b l < num_levels b" "index_to_price b k \<le> l \<longleftrightarrow> k \<le> tick_to_index b l"
proof -
  let ?mn = "min_price b" and ?mx = "max_price b" and ?t = "tick_size b"
  have vg: "valid_geometry ?mn ?mx ?t"
    using geo by (simp add: geometry_def)
  have t: "0 < ?t" "?mx - ?mn < 2 ^ 63"
    using vg by (auto simp: valid_geometry_def)
  have ge: "0 \<le> (l - ?mn) div ?t" and le: "(l - ?mn) div ?t \<le> (?mx - ?mn) div ?t"
    and le2: "(l - ?mn) div ?t \<le> l - ?mn"
    using l t by (simp_all add: pos_imp_zdiv_nonneg_iff zdiv_mono1 div_le_self)
  have ix: "tick_to_index b l = nat ((l - ?mn) div ?t)"
    unfolding tick_to_index_def using l t ge le2 by (simp add: sdiv_nonneg to_size_small)
  have n: "num_levels b = nat ((?mx - ?mn) div ?t) + 1"
    using num_levels_for_eq [OF vg] num_levels_small(3) [OF geo, of True] geo by (simp add: geometry_def)
  show "tick_to_index b l < num_levels b"
    using le by (simp add: ix n nat_le_eq_zle le_imp_less_Suc nat_mono)
  have "index_to_price b k \<le> l \<longleftrightarrow> int k * ?t \<le> l - ?mn"
    by (auto simp: index_to_price_def)
  also have "\<dots> \<longleftrightarrow> int k \<le> (l - ?mn) div ?t"
    using t(1) by (rule mult_le_iff_le_div)
  also have "\<dots> \<longleftrightarrow> k \<le> tick_to_index b l"
    using ge by (simp add: ix le_nat_iff)
  finally show "index_to_price b k \<le> l \<longleftrightarrow> k \<le> tick_to_index b l" .
qed

lemma crossing_qty_none:
  assumes "book_repr h b q"
    and "\<And>k. k < num_levels b \<Longrightarrow> q o' k \<noteq> [] \<Longrightarrow> \<not> crosses s l (index_to_price b k)"
  shows "crossing_qty s l (side_view h b q o') = 0"
  unfolding crossing_qty_levels [OF assms(1)]
proof (rule sum.neutral, intro ballI)
  fix k assume "k \<in> {..<num_levels b}"
  then show "(if crosses s l (index_to_price b k) then qty_sum h (q o' k) else 0) = 0"
    using assms(2) [of k] by (cases "q o' k = []") auto
qed

text \<open>A non-empty level is not better than the cursor's.\<close>

lemma cursor_bound:
  assumes "book_repr h b q" and "k < num_levels b" and "q s k \<noteq> []"
  shows "cursor b s \<noteq> kNoBest" "cursor b s < num_levels b" "if s then k \<le> cursor b s else cursor b s \<le> k"
  using best_of_cursor_ne [OF book_reprD(3) [OF assms(1)] assms(2,3)] book_reprD(3) [OF assms(1), of s]
  by (auto simp: best_of_def)

lemma available_buy_exact:
  assumes R: "book_repr h b q" and qty: "book_qty_ok h b q" and l: "min_price b \<le> l"
    and fits: "crossing_qty True l (side_view h b q False) < 2 ^ 32"
  shows "unat (available_quantity_at_or_better b Buy l) = crossing_qty True l (side_view h b q False)"
proof (cases "best_ask_idx b = kNoBest")
  case True
  then have "side_view h b q False = []"
    using prio_empty_iff [OF R, of False] by (simp add: cursor_def side_view_def)
  then show ?thesis
    using True by (simp add: available_quantity_at_or_better_def crossing_qty_def)
next
  case False
  note geo = book_reprD(1) [OF R] and len = num_levels_small(3) [OF book_reprD(1) [OF R]]
  define t where "t = (if max_price b \<le> l then length (ask_levels b) - 1 else tick_to_index b l)"
  have asks: "length (ask_levels b) = num_levels b" "levels_of b False = ask_levels b"
    using len [of False] by (simp_all add: levels_of_def)
  have t: "t < num_levels b"
    using tick_to_index_floor(1) [OF geo l] num_levels_small(2) [OF geo] asks by (auto simp: t_def)
  have tk: "index_to_price b k \<le> l \<longleftrightarrow> k \<le> t" if "k < num_levels b" for k
    using tick_to_index_floor(2) [OF geo l, of k] index_to_price_range(2) [OF geo that] that asks
    by (cases "max_price b \<le> l") (auto simp: t_def)
  have av: "available_quantity_at_or_better b Buy l =
      (if t < best_ask_idx b then 0 else sum_levels (levels_of b False) (best_ask_idx b) t)"
    using False l by (simp add: available_quantity_at_or_better_def t_def asks)
  have lo: "best_ask_idx b \<le> k" if "k < num_levels b" "q False k \<noteq> []" for k
    using cursor_bound(3) [OF R that] by (simp add: cursor_def)
  show ?thesis
  proof (cases "t < best_ask_idx b")
    case True
    then show ?thesis
      using av lo t tk crossing_qty_none [OF R, of False True l] by (force simp: crosses_def)
  next
    case False
    have "unat (sum_levels (levels_of b False) (best_ask_idx b) t) = crossing_qty True l (side_view h b q False)"
      using t tk lo by (intro sum_levels_exact [OF R qty _ _ fits]) (auto simp: crosses_def)
    then show ?thesis
      using av False by simp
  qed
qed

lemma available_sell_exact:
  assumes R: "book_repr h b q" and qty: "book_qty_ok h b q" and sd: "sd \<noteq> Buy"
    and l: "l \<le> min_price b \<or> max_price b < l \<or> (l - min_price b) mod tick_size b = 0"
    and fits: "crossing_qty False l (side_view h b q True) < 2 ^ 32"
  shows "unat (available_quantity_at_or_better b sd l) = crossing_qty False l (side_view h b q True)"
proof (cases "best_bid_idx b = kNoBest")
  case True
  then have "side_view h b q True = []"
    using prio_empty_iff [OF R, of True] by (simp add: cursor_def side_view_def)
  then show ?thesis
    using True sd by (simp add: available_quantity_at_or_better_def crossing_qty_def)
next
  case False
  note geo = book_reprD(1) [OF R]
  define f where "f = (if l \<le> min_price b then 0 else if max_price b < l then length (bid_levels b)
    else tick_to_index b l)"
  have bids: "length (bid_levels b) = num_levels b" "levels_of b True = bid_levels b"
    by (simp_all add: levels_of_def num_levels_def)
  have f: "l \<le> index_to_price b k \<longleftrightarrow> f \<le> k" if k: "k < num_levels b" for k
  proof (cases "min_price b < l \<and> l \<le> max_price b")
    case True
    then have "is_valid_price b l"
      using l geo by (auto simp: is_valid_price_def smod_nonneg geometry_def valid_geometry_def)
    then show ?thesis
      using True valid_price_index [OF geo] index_to_price_mono [OF geo, of "tick_to_index b l" k]
      by (simp add: f_def)
  next
    case False
    then show ?thesis
      using index_to_price_range [OF geo k] k bids by (auto simp: f_def)
  qed
  have av: "available_quantity_at_or_better b sd l =
      (if best_bid_idx b < f then 0 else sum_levels (levels_of b True) f (best_bid_idx b))"
    using False sd by (simp add: available_quantity_at_or_better_def f_def bids)
  have hi: "k \<le> best_bid_idx b" if "k < num_levels b" "q True k \<noteq> []" for k
    using cursor_bound(3) [OF R that] by (simp add: cursor_def)
  have rng: "best_bid_idx b < num_levels b"
    using book_reprD(3) [OF R, of True] False by (simp add: best_of_def cursor_def)
  show ?thesis
  proof (cases "best_bid_idx b < f")
    case True
    then show ?thesis
      using av hi f crossing_qty_none [OF R, of True False l] by (force simp: crosses_def)
  next
    case False
    have "unat (sum_levels (levels_of b True) f (best_bid_idx b)) = crossing_qty False l (side_view h b q True)"
      using f hi rng by (intro sum_levels_exact [OF R qty _ _ fits]) (auto simp: crosses_def)
    then show ?thesis
      using av False by simp
  qed
qed

lemma available_exact:
  assumes "book_repr h b q" "book_qty_ok h b q" "s = (sd = Buy)" "limit_exact b s l"
    "crossing_qty s l (side_view h b q (\<not> s)) < 2 ^ 32"
  shows "unat (available_quantity_at_or_better b sd l) = crossing_qty s l (side_view h b q (\<not> s))"
  using assms available_buy_exact [of h b q l] available_sell_exact [of h b q sd l]
  by (cases s) (simp_all add: limit_exact_def)

subsection \<open>A complete index\<close>

text \<open>
  \<open>emplace\<close> drops the second of two live orders with one id, so the index need not hold
  every live order; it does as long as live ids are distinct.
\<close>

definition index_complete :: "heap \<Rightarrow> OrderBook \<Rightarrow> queues \<Rightarrow> bool" where
  "index_complete h b q \<longleftrightarrow> (\<forall>c \<in> live b q. index_find (order_index b) (order_id (h c)) = Some c)"

lemma index_completeD: "index_complete h b q \<Longrightarrow> c \<in> live b q \<Longrightarrow>
   index_find (order_index b) (order_id (h c)) = Some c"
  by (simp add: index_complete_def)

lemma index_complete_frame:
  "index_complete h b q \<Longrightarrow> (\<And>c. c \<in> live b q \<Longrightarrow> order_id (h' c) = order_id (h c)) \<Longrightarrow>
   index_complete h' b q"
  by (simp add: index_complete_def)

lemma index_complete_inj:
  "index_complete h b q \<Longrightarrow> c \<in> live b q \<Longrightarrow> d \<in> live b q \<Longrightarrow> order_id (h c) = order_id (h d) \<Longrightarrow> c = d"
  by (metis index_completeD option.inject)

lemma removes_complete:
  assumes rem: "removes h b q a w h' b' q'" and a: "a \<in> live b q" and C: "index_complete h b q"
  shows "index_complete h' b' q'"
  unfolding index_complete_def removesD(6) [OF rem] removesD(7) [OF rem]
proof
  fix c assume c: "c \<in> live b q - {a}"
  then have "order_id (h' c) = order_id (h c)"
    using removesD(4) [OF rem, of c] unlink_eqD(1) by blast
  moreover have "order_id (h c) \<noteq> order_id (h a)"
    using index_complete_inj [OF C] a c by blast
  ultimately show "index_find (index_erase (order_index b) (order_id (h a))) (order_id (h' c)) = Some c"
    using index_completeD [OF C, of c] c by (simp add: oi.look_del)
qed

subsection \<open>Filling the best order of a side\<close>

lemma best_level:
  assumes R: "book_repr h b q"
  shows "(if s then best_bid b else best_ask b) =
      (if prio b q s = [] then None else Some (levels_of b s ! cursor b s))"
    "prio b q s = a # as \<Longrightarrow> lvl_price (levels_of b s ! cursor b s) = price (h a)"
    "prio b q s = a # as \<Longrightarrow> lvl_head (levels_of b s ! cursor b s) = Some a"
proof -
  show "(if s then best_bid b else best_ask b) =
      (if prio b q s = [] then None else Some (levels_of b s ! cursor b s))"
    using prio_empty_iff [OF R, of s] by (auto simp: best_bid_def best_ask_def cursor_def levels_of_def)
  assume p: "prio b q s = a # as"
  then have ne: "cursor b s \<noteq> kNoBest"
    using prio_empty_iff [OF R, of s] by simp
  obtain a' as' vs where "q s (cursor b s) = a' # as'" "prio b q s = a' # as' @ vs"
    and iN: "cursor b s < num_levels b"
    using prio_best [OF R refl ne] by metis
  then have q: "q s (cursor b s) = a # as'"
    using p by simp
  note qok = book_reprD(2) [OF R]
  show "lvl_head (levels_of b s ! cursor b s) = Some a"
    using queues_okD(1) [OF qok iN, of s] q level_repr_head by metis
  show "lvl_price (levels_of b s ! cursor b s) = price (h a)"
    using queues_okD(2) [OF qok iN, of a s] q geometry_lvl_price [OF book_reprD(1) [OF R] iN]
    by (simp add: order_at_def)
qed

definition fills ::
  "heap \<Rightarrow> OrderBook \<Rightarrow> queues \<Rightarrow> addr \<Rightarrow> Quantity \<Rightarrow> heap \<Rightarrow> OrderBook \<Rightarrow> queues \<Rightarrow> bool" where
  "fills h b q a f h' b' q' \<longleftrightarrow>
     book_repr h' b' q' \<and> same_grid b b' \<and>
     live b' q' = live b q - (if f = quantity (h a) then {a} else {}) \<and>
     (\<forall>c. c \<notin> live b q \<longrightarrow> h' c = h c) \<and>
     (\<forall>c. order_id (h' c) = order_id (h c)) \<and> quantity (h' a) = quantity (h a) - f \<and>
     (book_qty_ok h b q \<longrightarrow> book_qty_ok h' b' q') \<and>
     (index_complete h b q \<longrightarrow> index_complete h' b' q')"

lemma fillsD:
  assumes "fills h b q a f h' b' q'"
  shows "book_repr h' b' q'" "same_grid b b'"
    "live b' q' = live b q - (if f = quantity (h a) then {a} else {})"
    "c \<notin> live b q \<Longrightarrow> h' c = h c"
    "order_id (h' d) = order_id (h d)" "quantity (h' a) = quantity (h a) - f"
    "book_qty_ok h b q \<Longrightarrow> book_qty_ok h' b' q'" "index_complete h b q \<Longrightarrow> index_complete h' b' q'"
  using assms by (auto simp: fills_def)

lemma fill_best_full:
  assumes R: "book_repr h b q" and p: "prio b q s = a # as"
    and out: "fill_resting_order h b (Some a) (quantity (h a)) = (r, h', b')"
  obtains q' where "r" "fills h b q a (quantity (h a)) h' b' q'"
    "side_view h' b' q' s = map (entry_of h) as" "side_view h' b' q' (\<not> s) = side_view h b q (\<not> s)"
proof -
  have a: "a \<in> live b q"
    using p by (cases s) (simp_all add: live_prio)
  obtain s1 i ys zs where r and P: "q s1 i = ys @ a # zs" "i < num_levels b" "s1 = is_buy (h a)"
    and rem: "removes h b q a (unlink ((h a)\<lparr>quantity := 0, status := Filled\<rparr>)) h' b' (updq q s1 i (ys @ zs))"
    using fill_resting_order_full [OF R a out] by metis
  note V = removes_view [OF R P(2,1) rem]
  have "order_id (h' c) = order_id (h c)" for c
    using removesD(3) [OF rem] unlink_eqD(1) [OF removesD(4) [OF rem, of c]]
    by (cases "c = a") (simp_all add: unlink_def)
  then have "fills h b q a (quantity (h a)) h' b' (updq q s1 i (ys @ zs))"
    using removesD [OF rem] removes_complete [OF rem a] by (auto simp: fills_def unlink_def)
  moreover have "a \<notin> set as"
    using distinct_prio [OF R, of s] p by simp
  then have "side_view h' b' (updq q s1 i (ys @ zs)) s = map (entry_of h) as"
    unfolding V by (simp add: side_view_def p filter_map o_def filter_neq_id)
  moreover have "a \<notin> set (prio b q (\<not> s))"
    using side_of_prio [OF R, of a "\<not> s"] side_of_prio [OF R, of a s] p by auto
  then have "side_view h' b' (updq q s1 i (ys @ zs)) (\<not> s) = side_view h b q (\<not> s)"
    unfolding V by (simp add: side_view_def filter_map o_def filter_neq_id)
  ultimately show thesis
    using that \<open>r\<close> by blast
qed

lemma fill_best_part:
  assumes R: "book_repr h b q" and p: "prio b q s = a # as" and lt: "f < quantity (h a)"
    and out: "fill_resting_order h b (Some a) f = (r, h', b')"
  shows "\<not> r" "fills h b q a f h' b' q"
    "side_view h' b' q s = (entry_of h a)\<lparr>e_qty := quantity (h a) - f\<rparr> # map (entry_of h) as"
    "side_view h' b' q (\<not> s) = side_view h b q (\<not> s)"
proof -
  have a: "a \<in> live b q"
    using p by (cases s) (simp_all add: live_prio)
  note F = fill_resting_order_part [OF R a lt out]
  show "\<not> r"
    by (rule F(1))
  have "index_complete h' b' q" if "index_complete h b q"
    using that F(2,5) same_gridD(5) [OF F(4)] by (simp add: index_complete_def)
  then show "fills h b q a f h' b' q"
    using F lt a same_gridD(5) [OF F(4)] by (auto simp: fills_def)
  note V = requantify_view [OF F(4,2)]
  have "a \<notin> set as"
    using distinct_prio [OF R, of s] p by simp
  then have "map (\<lambda>e. if e_slot e = a then e\<lparr>e_qty := n\<rparr> else e) (map (entry_of h) as) = map (entry_of h) as" for n
    by auto
  then show "side_view h' b' q s = (entry_of h a)\<lparr>e_qty := quantity (h a) - f\<rparr> # map (entry_of h) as"
    unfolding V by (simp add: side_view_def p del: map_map)
  have "a \<notin> set (prio b q (\<not> s))"
    using side_of_prio [OF R, of a "\<not> s"] side_of_prio [OF R, of a s] p by auto
  then show "side_view h' b' q (\<not> s) = side_view h b q (\<not> s)"
    unfolding V by (auto simp: side_view_def)
qed

subsection \<open>Where an entry is inserted\<close>

lemma insert_entry_split:
  assumes "price_sorted s es"
  obtains us vs where "es = us @ vs" "insert_entry s e es = us @ e # vs"
    "\<forall>u \<in> set us. \<not> better s (e_price e) (e_price u)" "\<forall>v \<in> set vs. better s (e_price e) (e_price v)"
proof -
  let ?P = "\<lambda>x. \<not> better s (e_price e) (e_price x)"
  let ?us = "takeWhile ?P es" and ?vs = "dropWhile ?P es"
  have "better s (e_price e) (e_price v)" if v: "v \<in> set ?vs" for v
  proof -
    obtain x xs where x: "?vs = x # xs"
      using v by (cases ?vs) auto
    have "better s (e_price e) (e_price x)"
      using hd_dropWhile [of ?P es] x by simp
    moreover have "price_sorted s (x # xs)"
      using assms x takeWhile_dropWhile_id [of ?P es] unfolding price_sorted_def
      by (metis sorted_wrt_append)
    ultimately show ?thesis
      using v x by (auto simp: price_sorted_def better_def split: if_splits)
  qed
  moreover have "\<forall>u \<in> set ?us. ?P u"
    by (auto dest: set_takeWhileD)
  moreover have "es = ?us @ ?vs"
    by simp
  ultimately show thesis
    by (intro that [of ?us ?vs] insert_entry_def) blast+
qed

subsection \<open>Reading the queues off a book\<close>

lemma same_queues:
  assumes "\<And>s i. i < num_levels b \<Longrightarrow> q s i = q' s i"
  shows "prio b q = prio b q'" "live b q = live b q'" "book_qty_ok h b q = book_qty_ok h b q'"
    "index_complete h b q = index_complete h b q'"
proof -
  have "map (q s) (level_order s (num_levels b)) = map (q' s) (level_order s (num_levels b))" for s
    using assms by (simp add: level_order_simps)
  then show "prio b q = prio b q'"
    by (simp add: prio_def fun_eq_iff del: map_eq_conv)
  then show l: "live b q = live b q'"
    by (simp add: live_prio)
  show "book_qty_ok h b q = book_qty_ok h b q'"
    using assms by (auto simp: book_qty_ok_def)
  show "index_complete h b q = index_complete h b q'"
    by (simp add: index_complete_def l)
qed

end
