(* ===== verification/Order_Pool.thy ===== *)
theory Order_Pool
  imports Order_Core
begin

section \<open>The slab pool (\<open>src/src/core/order_pool.hpp\<close>)\<close>

text \<open>
  \<open>OrderPool<Capacity>\<close> as a record: the slab is the heap restricted to the addresses
  below the capacity, the free list is threaded through \<open>Order::next\<close>. \<open>mmap\<close> is the
  operating system's: the constructor takes it as a parameter that, given whether huge
  pages are asked for and how many bytes, returns the mapped slab or fails.
  The interface \<open>slot_pool\<close> states what a client may rely on, and is interpreted on
  the model's \<open>acquire\<close> and \<open>release\<close>.
\<close>

record OrderPool =
  storage :: heap
  freelist_head :: ptr
  free_count :: u64
  bytes_allocated :: nat
  huge_pages_active :: bool
  Capacity :: nat

definition sizeof_Order :: nat where
  "sizeof_Order = 128"

text \<open>
  \<open>build_freelist\<close>: the loop runs \<open>i\<close> from \<open>Capacity - 1\<close> down to 0 and pushes each
  slot, so slot 0 ends up in front.
\<close>

fun build_loop :: "nat \<Rightarrow> heap \<Rightarrow> ptr \<Rightarrow> heap \<times> ptr" where
  "build_loop 0 h f = (h, f)"
| "build_loop (Suc i) h f = build_loop i (h(i := (h i)\<lparr>nxt := f, prv := None\<rparr>)) (Some i)"

definition build_freelist :: "OrderPool \<Rightarrow> OrderPool" where
  "build_freelist p =
     (let (h, f) = build_loop (Capacity p) (storage p) None
      in p\<lparr>free_count := of_nat (Capacity p), storage := h, freelist_head := f\<rparr>)"

datatype pool_error = Mmap_failed

definition OrderPool_new ::
  "(bool \<Rightarrow> nat \<Rightarrow> heap option) \<Rightarrow> nat \<Rightarrow> pool_error + OrderPool" where
  "OrderPool_new mmap cap =
     (let bytes = cap * sizeof_Order in
      case (case mmap True bytes of
              Some h \<Rightarrow> Some (h, True)
            | None \<Rightarrow> (case mmap False bytes of Some h \<Rightarrow> Some (h, False) | None \<Rightarrow> None)) of
        None \<Rightarrow> Inl Mmap_failed
      | Some (h, huge) \<Rightarrow>
          Inr (build_freelist
            \<lparr>storage = h, freelist_head = None, free_count = 0,
             bytes_allocated = bytes, huge_pages_active = huge, Capacity = cap\<rparr>))"

text \<open>The destructor; the slab of a constructed pool is always a mapping.\<close>

definition OrderPool_destroy :: "OrderPool \<Rightarrow> os_call list" where
  "OrderPool_destroy p = [Munmap (bytes_allocated p)]"

definition acquire :: "OrderPool \<Rightarrow> ptr \<times> OrderPool" where
  "acquire p =
     (case freelist_head p of
        None \<Rightarrow> (None, p)
      | Some a \<Rightarrow>
          (Some a,
           p\<lparr>freelist_head := nxt (storage p a),
             storage := (storage p)(a := reset (storage p a)),
             free_count := free_count p - 1\<rparr>))"

definition release :: "OrderPool \<Rightarrow> addr \<Rightarrow> OrderPool" where
  "release p a =
     p\<lparr>storage := (storage p)(a := (storage p a)\<lparr>nxt := freelist_head p, prv := None\<rparr>),
       freelist_head := Some a,
       free_count := free_count p + 1\<rparr>"

definition pool_reset :: "OrderPool \<Rightarrow> OrderPool" where
  "pool_reset p = build_freelist p"

definition used_count :: "OrderPool \<Rightarrow> u64" where
  "used_count p = of_nat (Capacity p) - free_count p"

definition exhausted :: "OrderPool \<Rightarrow> bool" where
  "exhausted p \<longleftrightarrow> freelist_head p = None"

definition is_from_this_pool :: "OrderPool \<Rightarrow> addr \<Rightarrow> bool" where
  "is_from_this_pool p a \<longleftrightarrow> 0 \<le> a \<and> a < Capacity p"

subsection \<open>Well-formed pools\<close>

primrec flist :: "heap \<Rightarrow> ptr \<Rightarrow> addr list \<Rightarrow> bool" where
  "flist h x [] \<longleftrightarrow> x = None"
| "flist h x (a # as) \<longleftrightarrow> x = Some a \<and> flist h (nxt (h a)) as"

definition free_list :: "OrderPool \<Rightarrow> addr list" where
  "free_list p = walk (unat (free_count p)) (storage p) (freelist_head p)"

definition pool_repr :: "OrderPool \<Rightarrow> addr list \<Rightarrow> bool" where
  "pool_repr p fl \<longleftrightarrow>
     flist (storage p) (freelist_head p) fl \<and> distinct fl \<and>
     set fl \<subseteq> {..<Capacity p} \<and> free_count p = of_nat (length fl) \<and>
     Capacity p < 2 ^ 64"

definition pool_ok :: "OrderPool \<Rightarrow> bool" where
  "pool_ok p \<longleftrightarrow> pool_repr p (free_list p)"

lemma flist_cong:
  "(\<And>a. a \<in> set as \<Longrightarrow> nxt (h a) = nxt (h' a)) \<Longrightarrow> flist h x as = flist h' x as"
  by (induction as arbitrary: x) auto

lemma flist_upd_notin [simp]: "a \<notin> set as \<Longrightarrow> flist (h(a := v)) x as = flist h x as"
  by (rule flist_cong) auto

lemma walk_flist: "flist h x as \<Longrightarrow> walk (length as) h x = as"
  by (induction as arbitrary: x) auto

lemma pool_repr_length:
  assumes "pool_repr p fl"
  shows "length fl \<le> Capacity p" "length fl < 2 ^ 64" "unat (free_count p) = length fl"
proof -
  have "card (set fl) \<le> card {..<Capacity p}"
    using assms by (intro card_mono) (auto simp: pool_repr_def)
  then show le: "length fl \<le> Capacity p"
    using assms by (simp add: pool_repr_def distinct_card)
  then show lt: "length fl < 2 ^ 64"
    using assms by (simp add: pool_repr_def)
  show "unat (free_count p) = length fl"
    using assms lt by (simp add: pool_repr_def unat_of_nat_small)
qed

lemma pool_repr_free_list: "pool_repr p fl \<Longrightarrow> free_list p = fl"
  using pool_repr_length(3) [of p fl]
  by (simp add: free_list_def walk_flist pool_repr_def)

lemma pool_repr_pool_ok: "pool_repr p fl \<Longrightarrow> pool_ok p"
  using pool_repr_free_list [of p fl] by (simp add: pool_ok_def)

lemma pool_ok_repr: "pool_ok p \<Longrightarrow> pool_repr p (free_list p)"
  by (simp add: pool_ok_def)

subsection \<open>Construction\<close>

lemma build_loop_flist:
  "flist h f as \<Longrightarrow> set as \<inter> {..<n} = {} \<Longrightarrow>
   build_loop n h f = (h', f') \<Longrightarrow> flist h' f' ([0..<n] @ as)"
proof (induction n arbitrary: h f as)
  case 0
  then show ?case by simp
next
  case (Suc i)
  have "i \<notin> set as"
    using Suc.prems(2) by auto
  then have "flist (h(i := (h i)\<lparr>nxt := f, prv := None\<rparr>)) (Some i) (i # as)"
    using Suc.prems(1) by simp
  moreover have "set (i # as) \<inter> {..<i} = {}"
    using Suc.prems(2) by auto
  moreover have "build_loop i (h(i := (h i)\<lparr>nxt := f, prv := None\<rparr>)) (Some i) = (h', f')"
    using Suc.prems(3) by simp
  ultimately have "flist h' f' ([0..<i] @ i # as)"
    by (rule Suc.IH)
  then show ?case by simp
qed

lemma build_freelist_repr:
  assumes "Capacity p < 2 ^ 64"
  shows "pool_repr (build_freelist p) [0..<Capacity p]"
proof -
  obtain h f where hf: "build_loop (Capacity p) (storage p) None = (h, f)"
    by fastforce
  have "flist h f ([0..<Capacity p] @ [])"
    using build_loop_flist [OF _ _ hf, of "[]"] by simp
  then show ?thesis
    using assms hf by (simp add: build_freelist_def pool_repr_def lessThan_atLeast0)
qed

subsection \<open>Acquire and release\<close>

lemma acquire_repr:
  assumes "pool_repr p fl"
  shows "acquire p =
    (case fl of [] \<Rightarrow> (None, p)
     | a # as \<Rightarrow> (Some a, p\<lparr>freelist_head := (case as of [] \<Rightarrow> None | b # _ \<Rightarrow> Some b),
         storage := (storage p)(a := reset (storage p a)), free_count := free_count p - 1\<rparr>))"
  using assms by (auto simp: acquire_def pool_repr_def split: list.splits)

lemma acquire_some:
  assumes "pool_repr p (a # as)"
  obtains p' where "acquire p = (Some a, p')" and "pool_repr p' as"
    and "storage p' = (storage p)(a := reset (storage p a))" and "Capacity p' = Capacity p"
proof -
  let ?p' = "p\<lparr>freelist_head := nxt (storage p a),
     storage := (storage p)(a := reset (storage p a)), free_count := free_count p - 1\<rparr>"
  have "acquire p = (Some a, ?p')"
    using assms by (simp add: acquire_def pool_repr_def)
  moreover have "pool_repr ?p' as"
    using assms by (simp add: pool_repr_def)
  ultimately show thesis
    using that by simp
qed

lemma acquire_none: "pool_repr p [] \<Longrightarrow> acquire p = (None, p)"
  by (simp add: acquire_def pool_repr_def)

lemma release_repr:
  assumes "pool_repr p fl" and "a < Capacity p" and "a \<notin> set fl"
  shows "pool_repr (release p a) (a # fl)"
  using assms by (simp add: release_def pool_repr_def)

lemma release_simps [simp]:
  "Capacity (release p a) = Capacity p"
  "storage (release p a) = (storage p)(a := (storage p a)\<lparr>nxt := freelist_head p, prv := None\<rparr>)"
  by (simp_all add: release_def)

subsection \<open>The interface a client relies on\<close>

text \<open>
  \<open>take_n acq n\<close> is a client that asks for \<open>n\<close> slots in a row and keeps those it gets.
\<close>

fun take_n :: "('p \<Rightarrow> 'a option \<times> 'p) \<Rightarrow> nat \<Rightarrow> 'p \<Rightarrow> 'a list \<times> 'p" where
  "take_n acq 0 p = ([], p)"
| "take_n acq (Suc n) p =
     (case acq p of
        (None, p') \<Rightarrow> ([], p')
      | (Some a, p') \<Rightarrow> (let (as, p'') = take_n acq n p' in (a # as, p'')))"

locale slot_pool =
  fixes acq :: "'p \<Rightarrow> 'a option \<times> 'p"
    and rel :: "'p \<Rightarrow> 'a \<Rightarrow> 'p"
    and free :: "'p \<Rightarrow> 'a list"
    and slots :: "'p \<Rightarrow> 'a set"
    and ok :: "'p \<Rightarrow> bool"
  assumes acq_empty: "ok p \<Longrightarrow> free p = [] \<Longrightarrow> acq p = (None, p)"
    and acq_cons: "ok p \<Longrightarrow> free p = a # as \<Longrightarrow>
      \<exists>p'. acq p = (Some a, p') \<and> ok p' \<and> free p' = as \<and> slots p' = slots p"
    and rel_free: "ok p \<Longrightarrow> a \<in> slots p \<Longrightarrow> a \<notin> set (free p) \<Longrightarrow>
      ok (rel p a) \<and> free (rel p a) = a # free p \<and> slots (rel p a) = slots p"
    and free_slots: "ok p \<Longrightarrow> distinct (free p) \<and> set (free p) \<subseteq> slots p"
begin

lemma acq_result:
  "ok p \<Longrightarrow> acq p = (r, p') \<Longrightarrow>
   (case free p of [] \<Rightarrow> r = None \<and> p' = p
    | a # as \<Rightarrow> r = Some a \<and> ok p' \<and> free p' = as \<and> slots p' = slots p)"
  using acq_empty [of p] acq_cons [of p] by (cases "free p") fastforce+

lemma acq_then_rel:
  assumes "ok p" and "acq p = (Some a, p')"
  shows "ok (rel p' a) \<and> free (rel p' a) = free p"
proof -
  obtain as where fp: "free p = a # as"
    using acq_result [OF assms] by (cases "free p") auto
  with acq_result [OF assms] have p': "ok p'" "free p' = as" "slots p' = slots p"
    by auto
  then have "a \<in> slots p'" "a \<notin> set (free p')"
    using free_slots [OF assms(1)] fp by auto
  then show ?thesis
    using rel_free [OF p'(1)] p'(2) fp by simp
qed

lemma rel_then_acq:
  assumes "ok p" and "a \<in> slots p" and "a \<notin> set (free p)"
  obtains p' where "acq (rel p a) = (Some a, p')" and "ok p'" and "free p' = free p"
proof -
  have "ok (rel p a)" "free (rel p a) = a # free p"
    using rel_free [OF assms] by auto
  from acq_cons [OF this] that show thesis
    by auto
qed

lemma take_n_result:
  "ok p \<Longrightarrow> take_n acq n p = (as, p') \<Longrightarrow>
   as = take n (free p) \<and> ok p' \<and> free p' = drop n (free p) \<and> slots p' = slots p"
proof (induction n arbitrary: p as p')
  case 0
  then show ?case by simp
next
  case (Suc n)
  show ?case
  proof (cases "free p")
    case Nil
    then show ?thesis
      using Suc.prems acq_empty [of p] by simp
  next
    case (Cons a rest)
    obtain q where q: "acq p = (Some a, q)" "ok q" "free q = rest" "slots q = slots p"
      using acq_cons [OF Suc.prems(1) Cons] by auto
    obtain bs r where br: "take_n acq n q = (bs, r)"
      by fastforce
    show ?thesis
      using Suc.IH [OF q(2) br] Suc.prems(2) q br Cons by simp
  qed
qed

lemma take_n_distinct:
  "ok p \<Longrightarrow> take_n acq n p = (as, p') \<Longrightarrow>
   distinct as \<and> set as \<subseteq> slots p \<and> set as \<inter> set (free p') = {} \<and>
   length as = min n (length (free p))"
  using take_n_result [of p n as p'] free_slots [of p]
  by (auto dest: in_set_takeD simp: min.commute set_take_disj_set_drop_if_distinct)

end

interpretation op: slot_pool acquire release free_list "\<lambda>p. {..<Capacity p}" pool_ok
proof unfold_locales
  fix p assume "pool_ok p" "free_list p = []"
  then show "acquire p = (None, p)"
    using pool_ok_repr [of p] by (simp add: acquire_none)
next
  fix p a as assume "pool_ok p" "free_list p = a # as"
  then show "\<exists>p'. acquire p = (Some a, p') \<and> pool_ok p' \<and> free_list p' = as \<and>
    {..<Capacity p'} = {..<Capacity p}"
    using pool_ok_repr [of p]
    by (metis acquire_some pool_repr_free_list pool_repr_pool_ok)
next
  fix p a assume *: "pool_ok p" "a \<in> {..<Capacity p}" "a \<notin> set (free_list p)"
  then have "pool_repr (release p a) (a # free_list p)"
    by (intro release_repr pool_ok_repr) auto
  then show "pool_ok (release p a) \<and> free_list (release p a) = a # free_list p \<and>
    {..<Capacity (release p a)} = {..<Capacity p}"
    by (simp add: pool_repr_free_list pool_repr_pool_ok)
next
  fix p assume "pool_ok p"
  then show "distinct (free_list p) \<and> set (free_list p) \<subseteq> {..<Capacity p}"
    by (auto dest!: pool_ok_repr simp: pool_repr_def)
qed

subsection \<open>Ownership of slots\<close>

text \<open>
  A client that follows the contract of the pool: it acquires slots, writes to the slots it
  owns as it likes (their links included), and releases slots it owns. The state is the
  pool with the set of slots the client owns.
\<close>

inductive pool_step :: "OrderPool \<times> addr set \<Rightarrow> OrderPool \<times> addr set \<Rightarrow> bool" where
  step_acquire: "acquire p = (Some a, p') \<Longrightarrow> pool_step (p, own) (p', insert a own)"
| step_refused: "acquire p = (None, p') \<Longrightarrow> pool_step (p, own) (p', own)"
| step_release: "a \<in> own \<Longrightarrow> pool_step (p, own) (release p a, own - {a})"
| step_write: "a \<in> own \<Longrightarrow> pool_step (p, own) (p\<lparr>storage := (storage p)(a := v)\<rparr>, own)"
| step_pool_reset: "pool_step (p, own) (pool_reset p, {})"

definition pool_init :: "OrderPool \<times> addr set \<Rightarrow> bool" where
  "pool_init s \<longleftrightarrow> (\<exists>mmap cap p. cap < 2 ^ 64 \<and> OrderPool_new mmap cap = Inr p \<and> s = (p, {}))"

definition pool_inv :: "OrderPool \<times> addr set \<Rightarrow> bool" where
  "pool_inv s \<longleftrightarrow>
     (case s of (p, own) \<Rightarrow> pool_ok p \<and> own \<inter> set (free_list p) = {} \<and> own \<union> set (free_list p) = {..<Capacity p})"

lemma build_freelist_ok:
  assumes "Capacity p < 2 ^ 64"
  shows "pool_ok (build_freelist p)" "free_list (build_freelist p) = [0..<Capacity p]"
    "Capacity (build_freelist p) = Capacity p"
  using pool_repr_free_list [OF build_freelist_repr [OF assms]] pool_repr_pool_ok [OF build_freelist_repr [OF assms]]
  by (simp_all add: build_freelist_def split: prod.splits)

lemma pool_ok_write:
  assumes "pool_ok p" and "a \<notin> set (free_list p)"
  shows "pool_ok (p\<lparr>storage := (storage p)(a := v)\<rparr>)" "free_list (p\<lparr>storage := (storage p)(a := v)\<rparr>) = free_list p"
proof -
  have "pool_repr (p\<lparr>storage := (storage p)(a := v)\<rparr>) (free_list p)"
    using assms by (simp add: pool_ok_def pool_repr_def)
  then show "pool_ok (p\<lparr>storage := (storage p)(a := v)\<rparr>)" "free_list (p\<lparr>storage := (storage p)(a := v)\<rparr>) = free_list p"
    by (simp_all add: pool_repr_pool_ok pool_repr_free_list)
qed

lemma pool_ok_capacity: "pool_ok p \<Longrightarrow> Capacity p < 2 ^ 64"
  by (simp add: pool_ok_def pool_repr_def)

lemma pool_step_inv:
  assumes "pool_inv s" and "pool_step s t"
  shows "pool_inv t"
proof -
  obtain p own where s: "s = (p, own)" and ok: "pool_ok p" and dj: "own \<inter> set (free_list p) = {}"
    and un: "own \<union> set (free_list p) = {..<Capacity p}"
    using assms(1) by (cases s) (simp add: pool_inv_def)
  from assms(2) [unfolded s] show ?thesis
  proof cases
    case (step_acquire a p')
    then obtain as where fl: "free_list p = a # as" and p': "pool_ok p'" "free_list p' = as" "Capacity p' = Capacity p"
      using op.acq_result [OF ok, of "Some a" p'] by (cases "free_list p") auto
    have "a \<notin> set as"
      using op.free_slots [OF ok] fl by simp
    then show ?thesis
      using step_acquire(1) p' dj un by (auto simp: pool_inv_def fl)
  next
    case (step_refused p')
    then have "p' = p"
      using op.acq_result [OF ok, of None p'] by (cases "free_list p") simp_all
    then show ?thesis
      using step_refused(1) ok dj un by (simp add: pool_inv_def)
  next
    case (step_release a)
    have "a < Capacity p" "a \<notin> set (free_list p)"
      using step_release(2) dj un by blast+
    then have "pool_ok (release p a)" "free_list (release p a) = a # free_list p"
      using op.rel_free [OF ok, of a] by simp_all
    then show ?thesis
      using step_release dj un by (simp add: pool_inv_def) blast
  next
    case (step_write a v)
    then have "a \<notin> set (free_list p)"
      using dj by blast
    note W = pool_ok_write [OF ok this, of v]
    show ?thesis
      unfolding step_write(1) pool_inv_def prod.case using W dj un by simp
  next
    case step_pool_reset
    then show ?thesis
      using build_freelist_ok [OF pool_ok_capacity [OF ok]]
      by (auto simp: pool_inv_def pool_reset_def lessThan_atLeast0)
  qed
qed

lemma OrderPool_new_ok:
  assumes "cap < 2 ^ 64" and "OrderPool_new mmap cap = Inr p"
  shows "pool_ok p" "free_list p = [0..<cap]" "Capacity p = cap"
    "huge_pages_active p \<longleftrightarrow> mmap True (cap * sizeof_Order) \<noteq> None"
proof -
  obtain h huge where p: "p = build_freelist \<lparr>storage = h, freelist_head = None, free_count = 0,
      bytes_allocated = cap * sizeof_Order, huge_pages_active = huge, Capacity = cap\<rparr>"
    and huge: "huge \<longleftrightarrow> mmap True (cap * sizeof_Order) \<noteq> None"
    using assms(2) by (auto simp: OrderPool_new_def Let_def split: option.splits)
  show "pool_ok p" "free_list p = [0..<cap]" "Capacity p = cap"
    unfolding p using build_freelist_ok assms(1) by simp_all
  show "huge_pages_active p \<longleftrightarrow> mmap True (cap * sizeof_Order) \<noteq> None"
    unfolding p huge by (simp add: build_freelist_def split: prod.splits)
qed

interpretation own: safety_machine pool_init pool_step pool_inv
proof unfold_locales
  show "pool_inv s" if "pool_init s" for s
    using that OrderPool_new_ok by (auto simp: pool_init_def pool_inv_def lessThan_atLeast0)
  show "pool_inv t" if "pool_inv s" "pool_step s t" for s t
    using that by (rule pool_step_inv)
qed

section \<open>Properties of the pool\<close>

text \<open>Construction. The pool tries a huge-page mapping first and falls back to normal pages; it
  fails exactly when both mappings fail. A constructed pool has every slot free, slot 0
  first, and remembers whether huge pages are in use.\<close>

theorem pool_construction:
  assumes "cap < 2 ^ 64"
  shows "case OrderPool_new mmap cap of
      Inl e \<Rightarrow> e = Mmap_failed \<and> mmap True (cap * sizeof_Order) = None \<and> mmap False (cap * sizeof_Order) = None
    | Inr p \<Rightarrow> pool_ok p \<and> free_list p = [0..<cap] \<and> used_count p = 0 \<and> (exhausted p \<longleftrightarrow> cap = 0) \<and>
        (huge_pages_active p \<longleftrightarrow> mmap True (cap * sizeof_Order) \<noteq> None)"
proof (cases "OrderPool_new mmap cap")
  case (Inl e)
  then show ?thesis
    by (auto simp: OrderPool_new_def Let_def split: option.splits)
next
  case (Inr p)
  note N = OrderPool_new_ok [OF assms Inr]
  have "pool_repr p [0..<cap]"
    using N(1,2) by (simp add: pool_ok_def)
  then have fl: "flist (storage p) (freelist_head p) [0..<cap]" "free_count p = of_nat cap"
    by (simp_all add: pool_repr_def)
  have "flist h x as \<Longrightarrow> x = None \<longleftrightarrow> as = []" for h x as
    by (cases as) simp_all
  from this [OF fl(1)] have "used_count p = 0" "exhausted p \<longleftrightarrow> cap = 0"
    using N(3) fl(2) by (simp_all add: used_count_def exhausted_def)
  then show ?thesis
    using Inr N by simp
qed

theorem pool_construction_witness:
  "OrderPool_new (\<lambda>_ _. None) 4 = Inl Mmap_failed \<and>
   (case OrderPool_new (\<lambda>huge _. if huge then None else Some (\<lambda>_. undefined)) 3 of
      Inl _ \<Rightarrow> False | Inr p \<Rightarrow> free_list p = [0, 1, 2] \<and> \<not> huge_pages_active p)"
proof -
  let ?m = "\<lambda>huge (_ :: nat). if huge then None else Some (\<lambda>_. undefined) :: heap option"
  obtain p where p: "OrderPool_new ?m 3 = Inr p"
    by (simp add: OrderPool_new_def Let_def)
  have "free_list p = [0..<3] \<and> \<not> huge_pages_active p"
    using pool_construction [of 3 ?m] p by simp
  moreover have "[0..<3] = [0, 1, 2]"
    by (simp add: upt_rec)
  ultimately show ?thesis
    using pool_construction [of 4 "\<lambda>_ _. None"] p
    by (auto simp: OrderPool_new_def Let_def)
qed

text \<open>C37: Exclusive ownership. However a client acquires, writes and releases slots, the free
  slots and the slots it owns partition the slab: no slot is handed out twice, a slot is
  refused only when the client owns all of them, and the free counter is exact.\<close>

theorem pool_ownership:
  assumes "pool_init s0" and "pool_step\<^sup>*\<^sup>* s0 (p, own)"
  shows "own \<inter> set (free_list p) = {} \<and> own \<union> set (free_list p) = {..<Capacity p} \<and>
    unat (free_count p) = Capacity p - card own \<and>
    (case acquire p of
       (None, p') \<Rightarrow> own = {..<Capacity p} \<and> p' = p
     | (Some a, p') \<Rightarrow> a \<notin> own \<and> a < Capacity p \<and> storage p' = (storage p)(a := reset (storage p a)))"
proof -
  have ok: "pool_ok p" and dj: "own \<inter> set (free_list p) = {}" and un: "own \<union> set (free_list p) = {..<Capacity p}"
    using own.reachable_inv [OF assms] by (simp_all add: pool_inv_def)
  note R = pool_ok_repr [OF ok]
  have "card own + card (set (free_list p)) = Capacity p"
    using card_Un_disjoint [of own "set (free_list p)"] dj un by (metis List.finite_set card_lessThan finite_Un finite_lessThan)
  then have "unat (free_count p) = Capacity p - card own"
    using R pool_repr_length [OF R] by (simp add: pool_repr_def distinct_card unat_of_nat_small)
  moreover have "case acquire p of (None, p') \<Rightarrow> own = {..<Capacity p} \<and> p' = p
     | (Some a, p') \<Rightarrow> a \<notin> own \<and> a < Capacity p \<and> storage p' = (storage p)(a := reset (storage p a))"
  proof (cases "free_list p")
    case Nil
    then show ?thesis
      using acquire_none R un by simp
  next
    case (Cons a as)
    then obtain p' where "acquire p = (Some a, p')" "storage p' = (storage p)(a := reset (storage p a))"
      using acquire_some [of p a as] R by metis
    then show ?thesis
      using Cons dj un by auto
  qed
  ultimately show ?thesis
    using dj un by blast
qed

theorem pool_ownership_witness:
  "\<exists>p p1. OrderPool_new (\<lambda>_ _. Some (\<lambda>_. undefined)) 2 = Inr p \<and> acquire p = (Some 0, p1) \<and>
     {0} \<union> set (free_list p1) = {..<Capacity p1}"
proof -
  obtain p where p: "OrderPool_new (\<lambda>_ _. Some (\<lambda>_. undefined)) 2 = Inr p"
    by (simp add: OrderPool_new_def Let_def)
  have i: "pool_init (p, {})"
    unfolding pool_init_def
    by (intro exI [of _ "\<lambda>_ _. Some (\<lambda>_. undefined)"] exI [of _ 2] exI [of _ p]) (simp add: p)
  have "free_list p = [0, 1]" and "pool_ok p"
    using OrderPool_new_ok [OF _ p] by (simp_all add: upt_rec)
  then obtain p1 where a: "acquire p = (Some 0, p1)"
    using op.acq_cons [of p 0 "[1]"] by auto
  then have "pool_step\<^sup>*\<^sup>* (p, {}) (p1, {0})"
    using step_acquire [OF a, of "{}"] by blast
  from pool_ownership [OF i this] show ?thesis
    using p a by blast
qed

end
