(* ===== verification/Spsc_Queue.thy ===== *)
theory Spsc_Queue
  imports Prelude
begin

unbundle bit_operations_syntax

section \<open>The ring buffer (\<open>src/src/spsc/spsc_queue.hpp\<close>)\<close>

text \<open>
  \<open>SPSCQueue<T, N>\<close>: two 64-bit indices that only ever grow (and wrap at \<open>2 ^ 64\<close>) and
  an array that is always indexed through the mask. The template parameter \<open>N\<close> is the
  first argument of every operation. \<open>contents\<close> reads the queue as a list; the interface
  \<open>bounded_fifo\<close> is the contract the pipeline stages rely on, and it is interpreted on
  the model's operations for every \<open>N\<close>.
\<close>

record 'a SPSCQueue =
  write_idx :: u64
  read_idx :: u64
  buffer :: "nat \<Rightarrow> 'a"

definition has_single_bit :: "u64 \<Rightarrow> bool" where
  "has_single_bit N \<longleftrightarrow> list_ex (\<lambda>k. N = 2 ^ k) [0..<64]"

definition kMask :: "u64 \<Rightarrow> u64" where
  "kMask N = N - 1"

definition slot :: "u64 \<Rightarrow> u64 \<Rightarrow> nat" where
  "slot N idx = unat (idx AND kMask N)"

definition SPSCQueue_new :: "(nat \<Rightarrow> 'a) \<Rightarrow> 'a SPSCQueue" where
  "SPSCQueue_new b = \<lparr>write_idx = 0, read_idx = 0, buffer = b\<rparr>"

definition try_push :: "u64 \<Rightarrow> 'a SPSCQueue \<Rightarrow> 'a \<Rightarrow> bool \<times> 'a SPSCQueue" where
  "try_push N q item =
     (let w = write_idx q in
      if w - read_idx q = N then (False, q)
      else (True, q\<lparr>buffer := (buffer q)(slot N w := item), write_idx := w + 1\<rparr>))"

definition try_pop :: "u64 \<Rightarrow> 'a SPSCQueue \<Rightarrow> 'a option \<times> 'a SPSCQueue" where
  "try_pop N q =
     (let r = read_idx q in
      if r = write_idx q then (None, q)
      else (Some (buffer q (slot N r)), q\<lparr>read_idx := r + 1\<rparr>))"

text \<open>The copy loops of the batch operations, from index \<open>i\<close> on.\<close>

fun push_loop :: "u64 \<Rightarrow> u64 \<Rightarrow> 'a list \<Rightarrow> (nat \<Rightarrow> 'a) \<Rightarrow> nat \<Rightarrow> 'a" where
  "push_loop N w [] b = b"
| "push_loop N w (x # xs) b = push_loop N (w + 1) xs (b(slot N w := x))"

definition try_push_batch ::
  "u64 \<Rightarrow> 'a SPSCQueue \<Rightarrow> 'a list \<Rightarrow> nat \<times> 'a SPSCQueue" where
  "try_push_batch N q items =
     (let w = write_idx q;
          available = N - (w - read_idx q);
          n = (if length items < unat available then length items else unat available);
          b = push_loop N w (take n items) (buffer q)
      in (n, if 0 < n then q\<lparr>buffer := b, write_idx := w + of_nat n\<rparr> else q\<lparr>buffer := b\<rparr>))"

fun pop_loop :: "u64 \<Rightarrow> u64 \<Rightarrow> nat \<Rightarrow> (nat \<Rightarrow> 'a) \<Rightarrow> 'a list" where
  "pop_loop N r 0 b = []"
| "pop_loop N r (Suc n) b = b (slot N r) # pop_loop N (r + 1) n b"

definition try_pop_batch :: "u64 \<Rightarrow> 'a SPSCQueue \<Rightarrow> nat \<Rightarrow> 'a list \<times> 'a SPSCQueue" where
  "try_pop_batch N q max_count =
     (let r = read_idx q;
          available = write_idx q - r;
          n = (if max_count < unat available then max_count else unat available);
          out = pop_loop N r n (buffer q)
      in (out, if 0 < n then q\<lparr>read_idx := r + of_nat n\<rparr> else q))"

definition queue_empty :: "'a SPSCQueue \<Rightarrow> bool" where
  "queue_empty q \<longleftrightarrow> write_idx q = read_idx q"

definition queue_full :: "u64 \<Rightarrow> 'a SPSCQueue \<Rightarrow> bool" where
  "queue_full N q \<longleftrightarrow> write_idx q - read_idx q = N"

definition size_approx :: "'a SPSCQueue \<Rightarrow> u64" where
  "size_approx q = write_idx q - read_idx q"

subsection \<open>The queue as a list\<close>

definition contents :: "u64 \<Rightarrow> 'a SPSCQueue \<Rightarrow> 'a list" where
  "contents N q = map (\<lambda>i. buffer q (slot N (read_idx q + of_nat i)))
     [0..<unat (write_idx q - read_idx q)]"

definition spsc_ok :: "u64 \<Rightarrow> 'a SPSCQueue \<Rightarrow> bool" where
  "spsc_ok N q \<longleftrightarrow> has_single_bit N \<and> unat (write_idx q - read_idx q) \<le> unat N"

lemma has_single_bitE:
  assumes "has_single_bit N"
  obtains k where "k < 64" and "N = 2 ^ k" and "unat N = 2 ^ k"
proof -
  obtain k where k: "k < 64" "N = 2 ^ k"
    using assms by (auto simp: has_single_bit_def list_ex_iff)
  have "(2::nat) ^ k < 2 ^ LENGTH(64)"
    using k(1) by (intro power_strict_increasing) simp_all
  then have "unat (of_nat (2 ^ k) :: u64) = 2 ^ k"
    by (rule unat_of_nat_small)
  with k that show thesis by simp
qed

lemma slot_mod:
  assumes "k < 64"
  shows "slot (2 ^ k) x = unat x mod 2 ^ k"
proof -
  have "x AND (2 ^ k - 1) = take_bit k x"
    by (simp add: take_bit_eq_mask mask_eq_exp_minus_1)
  then have "slot (2 ^ k) x = take_bit k (unat x)"
    by (simp add: slot_def kMask_def unsigned_take_bit_eq del: take_bit_eq_mod)
  then show ?thesis
    by (simp add: take_bit_eq_mod)
qed

lemma slot_add:
  assumes "k < 64"
  shows "slot (2 ^ k) (r + of_nat i) = (unat r + i) mod 2 ^ k"
proof -
  have dvd: "(2::nat) ^ k dvd 2 ^ 64"
    using assms by (intro le_imp_power_dvd) simp
  have "unat (r + of_nat i) = (unat r + i) mod 2 ^ 64"
    by (simp add: unat_word_ariths unat_of_nat take_bit_eq_mod mod_add_right_eq)
  then show ?thesis
    using assms dvd by (simp add: slot_mod mod_mod_cancel)
qed

lemma mod_add_inj:
  fixes a i j n :: nat
  assumes "(a + i) mod n = (a + j) mod n" and "i < j" and "j - i < n"
  shows False
proof -
  have "n dvd (a + j) - (a + i)"
    using assms(1,2) by (intro mod_eq_dvd_iff_nat [THEN iffD1]) simp_all
  then have "n dvd j - i"
    by simp
  then show False
    using assms(2,3) nat_dvd_not_less [of "j - i" n] by simp
qed

lemma slot_distinct:
  assumes "has_single_bit N" and "i < j" and "j - i < unat N"
  shows "slot N (r + of_nat i) \<noteq> slot N (r + of_nat j)"
proof -
  obtain k where k: "k < 64" "N = 2 ^ k" "unat N = 2 ^ k"
    using assms(1) by (rule has_single_bitE)
  show ?thesis
    using mod_add_inj [of "unat r" i "2 ^ k" j] assms(2,3) k by (auto simp: slot_add)
qed

lemma single_bit_nonzero: "has_single_bit N \<Longrightarrow> 0 < unat N"
  by (erule has_single_bitE) simp

lemma length_contents [simp]: "length (contents N q) = unat (write_idx q - read_idx q)"
  by (simp add: contents_def)

lemma idx_diff_eq_iff: "a - b = N \<longleftrightarrow> unat (a - b) = unat N" for a b N :: u64
  by (simp add: word_unat_eq_iff)

lemma write_idx_as_read_idx:
  "write_idx q = read_idx q + of_nat (unat (write_idx q - read_idx q))"
  by simp

lemma try_push_room:
  assumes "spsc_ok N q" and "length (contents N q) < unat N"
  shows "\<exists>q'. try_push N q x = (True, q') \<and> spsc_ok N q' \<and> contents N q' = contents N q @ [x]"
proof -
  let ?w = "write_idx q" and ?r = "read_idx q"
  let ?n = "unat (?w - ?r)"
  let ?q' = "q\<lparr>buffer := (buffer q)(slot N ?w := x), write_idx := ?w + 1\<rparr>"
  have sb: "has_single_bit N" and n: "?n < unat N"
    using assms by (auto simp: spsc_ok_def)
  have push: "try_push N q x = (True, ?q')"
    using n by (simp add: try_push_def Let_def idx_diff_eq_iff)
  have "unat N < 2 ^ LENGTH(64)"
    by (rule unsigned_less)
  then have "Suc ?n < 2 ^ LENGTH(64)"
    using n by linarith
  then have "unat (?w - ?r + 1) = Suc ?n"
    by (rule unat_Suc_word)
  moreover have "?w + 1 - ?r = ?w - ?r + 1"
    by simp
  ultimately have sz: "unat (?w + 1 - ?r) = Suc ?n"
    by (simp only:)
  have other: "slot N (?r + of_nat i) \<noteq> slot N ?w" if "i < ?n" for i
    using slot_distinct [OF sb that, of ?r] n by (simp add: less_imp_diff_less)
  have "contents N ?q' = contents N q @ [x]"
    using other sz by (simp add: contents_def)
  moreover have "spsc_ok N ?q'"
    using sb sz n by (simp add: spsc_ok_def)
  ultimately show ?thesis
    using push by blast
qed

lemma try_push_full:
  "spsc_ok N q \<Longrightarrow> length (contents N q) = unat N \<Longrightarrow> try_push N q x = (False, q)"
  by (simp add: try_push_def Let_def idx_diff_eq_iff)

lemma try_pop_empty: "contents N q = [] \<Longrightarrow> try_pop N q = (None, q)"
  by (auto simp: try_pop_def contents_def unat_eq_0)

lemma try_pop_cons:
  assumes "spsc_ok N q" and "contents N q = x # xs"
  shows "\<exists>q'. try_pop N q = (Some x, q') \<and> spsc_ok N q' \<and> contents N q' = xs"
proof -
  let ?w = "write_idx q" and ?r = "read_idx q"
  obtain n where n: "unat (?w - ?r) = Suc n"
    using arg_cong [OF assms(2), of length] by auto
  then have ne: "?w \<noteq> ?r"
    by auto
  have "?w - (?r + 1) = ?w - ?r - 1"
    by simp
  also have "unat (?w - ?r - 1) = n"
    using n by (rule unat_pred_word)
  finally have sz: "unat (?w - (?r + 1)) = n" .
  have hd_tl: "x = buffer q (slot N ?r)"
    "xs = map (\<lambda>i. buffer q (slot N (?r + of_nat i))) [1..<Suc n]"
    using assms(2) n by (simp_all add: contents_def upt_conv_Cons del: upt_Suc)
  have "xs = contents N (q\<lparr>read_idx := ?r + 1\<rparr>)"
    unfolding hd_tl(2) using sz
    by (simp add: contents_def map_Suc_upt [symmetric] comp_def add.assoc del: upt_Suc)
  moreover have "spsc_ok N (q\<lparr>read_idx := ?r + 1\<rparr>)"
    using assms(1) n sz by (simp add: spsc_ok_def)
  ultimately show ?thesis
    using ne hd_tl(1) by (simp add: try_pop_def Let_def)
qed

subsection \<open>The contract of a bounded queue\<close>

text \<open>
  Two clients: one that pushes a list until the queue refuses, one that pops at most
  \<open>n\<close> items.
\<close>

fun push_all :: "('q \<Rightarrow> 'a \<Rightarrow> bool \<times> 'q) \<Rightarrow> 'q \<Rightarrow> 'a list \<Rightarrow> nat \<times> 'q" where
  "push_all push q [] = (0, q)"
| "push_all push q (x # xs) =
     (case push q x of
        (False, q') \<Rightarrow> (0, q')
      | (True, q') \<Rightarrow> (let (n, q'') = push_all push q' xs in (Suc n, q'')))"

fun pop_upto :: "('q \<Rightarrow> 'a option \<times> 'q) \<Rightarrow> nat \<Rightarrow> 'q \<Rightarrow> 'a list \<times> 'q" where
  "pop_upto pop 0 q = ([], q)"
| "pop_upto pop (Suc n) q =
     (case pop q of
        (None, q') \<Rightarrow> ([], q')
      | (Some x, q') \<Rightarrow> (let (xs, q'') = pop_upto pop n q' in (x # xs, q'')))"

locale bounded_fifo =
  fixes push :: "'q \<Rightarrow> 'a \<Rightarrow> bool \<times> 'q"
    and pop :: "'q \<Rightarrow> 'a option \<times> 'q"
    and cont :: "'q \<Rightarrow> 'a list"
    and cap :: nat
    and ok :: "'q \<Rightarrow> bool"
  assumes bounded: "ok q \<Longrightarrow> length (cont q) \<le> cap"
    and push_room: "ok q \<Longrightarrow> length (cont q) < cap \<Longrightarrow>
      \<exists>q'. push q x = (True, q') \<and> ok q' \<and> cont q' = cont q @ [x]"
    and push_full: "ok q \<Longrightarrow> length (cont q) = cap \<Longrightarrow> push q x = (False, q)"
    and pop_nil: "ok q \<Longrightarrow> cont q = [] \<Longrightarrow> pop q = (None, q)"
    and pop_cons: "ok q \<Longrightarrow> cont q = x # xs \<Longrightarrow>
      \<exists>q'. pop q = (Some x, q') \<and> ok q' \<and> cont q' = xs"
begin

lemma push_result:
  "ok q \<Longrightarrow> push q x = (b, q') \<Longrightarrow>
   ok q' \<and> b = (length (cont q) < cap) \<and> cont q' = (if b then cont q @ [x] else cont q)"
  using bounded [of q] push_room [of q x] push_full [of q x]
  by (cases "length (cont q) < cap") fastforce+

lemma pop_result:
  "ok q \<Longrightarrow> pop q = (r, q') \<Longrightarrow>
   ok q' \<and> (case cont q of [] \<Rightarrow> r = None \<and> q' = q | x # xs \<Rightarrow> r = Some x \<and> cont q' = xs)"
  using pop_nil [of q] pop_cons [of q] by (cases "cont q") fastforce+

lemma push_all_result:
  "ok q \<Longrightarrow> push_all push q xs = (n, q') \<Longrightarrow>
   n = min (length xs) (cap - length (cont q)) \<and> ok q' \<and> cont q' = cont q @ take n xs"
proof (induction xs arbitrary: q n q')
  case Nil
  then show ?case by simp
next
  case (Cons x xs)
  obtain b q1 where b: "push q x = (b, q1)"
    by fastforce
  note r = push_result [OF Cons.prems(1) b]
  show ?case
  proof (cases b)
    case True
    obtain m q2 where m: "push_all push q1 xs = (m, q2)"
      by fastforce
    have "n = Suc m" "q' = q2"
      using Cons.prems(2) b m True by auto
    then show ?thesis
      using Cons.IH [OF _ m] r True by auto
  next
    case False
    then show ?thesis
      using Cons.prems b r by auto
  qed
qed

lemma pop_upto_result:
  "ok q \<Longrightarrow> pop_upto pop n q = (out, q') \<Longrightarrow>
   ok q' \<and> out = take n (cont q) \<and> cont q' = drop n (cont q)"
proof (induction n arbitrary: q out q')
  case 0
  then show ?case by simp
next
  case (Suc n)
  obtain r q1 where r: "pop q = (r, q1)"
    by fastforce
  note pr = pop_result [OF Suc.prems(1) r]
  show ?case
  proof (cases "cont q")
    case Nil
    then show ?thesis
      using Suc.prems r pr by auto
  next
    case (Cons x xs)
    obtain ys q2 where ys: "pop_upto pop n q1 = (ys, q2)"
      by fastforce
    have "out = x # ys" "q' = q2"
      using Suc.prems(2) r pr Cons ys by auto
    then show ?thesis
      using Suc.IH [OF _ ys] pr Cons by auto
  qed
qed

lemma push_then_pop:
  assumes "ok q" and "push_all push q xs = (n, q1)" and "pop_upto pop m q1 = (out, q2)"
    and "m = length (cont q) + length xs" and "length (cont q) + length xs \<le> cap"
  shows "out = cont q @ xs \<and> cont q2 = [] \<and> ok q2"
  using push_all_result [OF assms(1,2)] pop_upto_result [OF _ assms(3)] assms(4,5) by auto

end

interpretation sq: bounded_fifo "try_push N" "try_pop N" "contents N" "unat N" "spsc_ok N"
  for N :: u64
proof unfold_locales
  show "length (contents N q) \<le> unat N" if "spsc_ok N q" for q :: "'a SPSCQueue"
    using that by (simp add: spsc_ok_def)
qed (simp_all only: try_push_room try_push_full try_pop_empty try_pop_cons)

lemma spsc_new_ok: "has_single_bit N \<Longrightarrow> spsc_ok N (SPSCQueue_new b) \<and> contents N (SPSCQueue_new b) = []"
  by (simp add: spsc_ok_def SPSCQueue_new_def contents_def)

subsection \<open>Batches\<close>

lemma free_slots_eq:
  assumes "spsc_ok N q"
  shows "unat (N - (write_idx q - read_idx q)) = unat N - length (contents N q)"
  using assms by (simp add: spsc_ok_def unat_sub word_le_nat_alt)

lemma try_push_batch_Nil: "try_push_batch N q [] = (0, q)"
  by (cases q) (simp add: try_push_batch_def Let_def)

lemma try_push_batch_Cons:
  assumes "spsc_ok N q"
  shows "try_push_batch N q (x # xs) =
    (case try_push N q x of
       (False, q') \<Rightarrow> (0, q')
     | (True, q') \<Rightarrow> (let (n, q'') = try_push_batch N q' xs in (Suc n, q'')))"
proof (cases "length (contents N q) < unat N")
  case True
  obtain q1 where q1: "try_push N q x = (True, q1)" "spsc_ok N q1" "contents N q1 = contents N q @ [x]"
    using try_push_room [OF assms True] by blast
  then have q1_def: "q1 = q\<lparr>buffer := (buffer q)(slot N (write_idx q) := x), write_idx := write_idx q + 1\<rparr>"
    by (auto simp: try_push_def Let_def split: if_splits)
  let ?a = "unat (N - (write_idx q - read_idx q))"
  let ?a1 = "unat (N - (write_idx q1 - read_idx q1))"
  have a: "?a = Suc ?a1"
    using free_slots_eq [OF assms] free_slots_eq [OF q1(2)] q1(3) True
    by (simp del: length_contents)
  define m where "m = (if length xs < ?a1 then length xs else ?a1)"
  have 1: "try_push_batch N q (x # xs) =
    (Suc m, q\<lparr>buffer := push_loop N (write_idx q) (take (Suc m) (x # xs)) (buffer q),
       write_idx := write_idx q + of_nat (Suc m)\<rparr>)"
    by (simp add: try_push_batch_def Let_def a m_def)
  have 2: "try_push_batch N q1 xs =
    (m, q1\<lparr>buffer := push_loop N (write_idx q1) (take m xs) (buffer q1),
       write_idx := write_idx q1 + of_nat m\<rparr>)"
    by (simp add: try_push_batch_def Let_def m_def)
  show ?thesis
    by (simp add: 1 2 q1(1)) (simp add: q1_def add.assoc)
next
  case False
  then have full: "length (contents N q) = unat N"
    using sq.bounded [OF assms] by simp
  then show ?thesis
    using try_push_full [OF assms full] free_slots_eq [OF assms]
    by (cases q) (simp add: try_push_batch_def Let_def)
qed

lemma try_push_batch_push_all:
  "spsc_ok N q \<Longrightarrow> try_push_batch N q xs = push_all (try_push N) q xs"
proof (induction xs arbitrary: q)
  case Nil
  then show ?case by (simp add: try_push_batch_Nil)
next
  case (Cons x xs)
  show ?case
  proof (cases "try_push N q x")
    case (Pair b q1)
    then have "spsc_ok N q1"
      using sq.push_result [OF Cons.prems] by blast
    then show ?thesis
      using Cons.IH [of q1] Pair try_push_batch_Cons [OF Cons.prems, of x xs]
      by (simp split: bool.splits)
  qed
qed

lemma try_pop_batch_pop_upto:
  "spsc_ok N q \<Longrightarrow> try_pop_batch N q n = pop_upto (try_pop N) n q"
proof (induction n arbitrary: q)
  case 0
  then show ?case by (simp add: try_pop_batch_def Let_def)
next
  case (Suc n)
  let ?av = "unat (write_idx q - read_idx q)"
  show ?case
  proof (cases ?av)
    case 0
    then show ?thesis
      using try_pop_empty [of N q] by (simp add: try_pop_batch_def Let_def contents_def)
  next
    case (Suc m)
    obtain x xs where xs: "contents N q = x # xs"
      using Suc by (cases "contents N q") (auto simp: contents_def)
    obtain q1 where q1: "try_pop N q = (Some x, q1)" "spsc_ok N q1" "contents N q1 = xs"
      using try_pop_cons [OF Suc.prems xs] by blast
    have q1_def: "q1 = q\<lparr>read_idx := read_idx q + 1\<rparr>" "x = buffer q (slot N (read_idx q))"
      using q1(1) by (auto simp: try_pop_def Let_def split: if_splits)
    have av1: "unat (write_idx q1 - read_idx q1) = m"
      using arg_cong [OF xs, of length] arg_cong [OF q1(3), of length] Suc by simp
    let ?k = "if n < m then n else m"
    have 1: "try_pop_batch N q (Suc n) =
      (pop_loop N (read_idx q) (Suc ?k) (buffer q), q\<lparr>read_idx := read_idx q + of_nat (Suc ?k)\<rparr>)"
      by (simp add: try_pop_batch_def Let_def Suc)
    have 2: "try_pop_batch N q1 n =
      (pop_loop N (read_idx q1) ?k (buffer q1), q1\<lparr>read_idx := read_idx q1 + of_nat ?k\<rparr>)"
      unfolding try_pop_batch_def Let_def av1 by simp
    show ?thesis
      unfolding 1 pop_upto.simps q1(1) using Suc.IH [OF q1(2)] 2 q1_def
      by (simp add: add.assoc)
  qed
qed

subsection \<open>Busy-waiting\<close>

text \<open>
  \<open>spin_push\<close> retries \<open>try_push\<close> until it succeeds, while the consumer runs on another
  core. A schedule \<open>ps\<close> says how many items the consumer takes before each attempt;
  after the schedule the consumer is silent. A channel is the queue with the list of
  items the consumer has taken from it. The loop returns \<open>Blocked\<close> exactly when an
  attempt fails with the consumer silent, that is when it never returns.
\<close>

type_synonym 'a channel = "'a SPSCQueue \<times> 'a list"

definition consume :: "u64 \<Rightarrow> nat \<Rightarrow> 'a channel \<Rightarrow> 'a channel" where
  "consume N k c = (let (out, q) = pop_upto (try_pop N) k (fst c) in (q, snd c @ out))"

fun spin_push :: "u64 \<Rightarrow> 'a \<Rightarrow> 'a channel \<Rightarrow> nat list \<Rightarrow> fault + ('a channel \<times> nat list)" where
  "spin_push N item c [] =
     (case try_push N (fst c) item of
        (True, q) \<Rightarrow> Inr ((q, snd c), [])
      | (False, _) \<Rightarrow> Inl Blocked)"
| "spin_push N item c (k # ps) =
     (let c' = consume N k c in
      case try_push N (fst c') item of
        (True, q) \<Rightarrow> Inr ((q, snd c'), ps)
      | (False, _) \<Rightarrow> spin_push N item c' ps)"

text \<open>\<open>spin_pop\<close>: dually, the schedule says what the producer offers before each attempt.\<close>

fun spin_pop :: "u64 \<Rightarrow> 'a SPSCQueue \<Rightarrow> 'a list list \<Rightarrow> fault + ('a \<times> 'a SPSCQueue \<times> 'a list list)" where
  "spin_pop N q [] =
     (case try_pop N q of
        (Some x, q') \<Rightarrow> Inr (x, q', [])
      | (None, _) \<Rightarrow> Inl Blocked)"
| "spin_pop N q (xs # ps) =
     (let q1 = snd (push_all (try_push N) q xs) in
      case try_pop N q1 of
        (Some x, q') \<Rightarrow> Inr (x, q', ps)
      | (None, _) \<Rightarrow> spin_pop N q1 ps)"

text \<open>Everything ever sent through the channel, in order.\<close>

definition stream :: "u64 \<Rightarrow> 'a channel \<Rightarrow> 'a list" where
  "stream N c = snd c @ contents N (fst c)"

definition can_post :: "u64 \<Rightarrow> nat \<Rightarrow> 'a channel \<Rightarrow> nat list \<Rightarrow> bool" where
  "can_post N n c ps \<longleftrightarrow>
     n \<le> unat N - length (contents N (fst c)) \<or> n \<le> length (filter (\<lambda>k. 0 < k) ps)"

lemma consume_result:
  assumes "spsc_ok N (fst c)"
  shows "spsc_ok N (fst (consume N k c))" "stream N (consume N k c) = stream N c"
    "contents N (fst (consume N k c)) = drop k (contents N (fst c))"
proof -
  obtain out q where o: "pop_upto (try_pop N) k (fst c) = (out, q)"
    by fastforce
  note r = sq.pop_upto_result [OF assms o]
  show "spsc_ok N (fst (consume N k c))"
    "contents N (fst (consume N k c)) = drop k (contents N (fst c))"
    using r o by (simp_all add: consume_def)
  show "stream N (consume N k c) = stream N c"
    using r o by (simp add: consume_def stream_def)
qed

lemma spin_push_result:
  "spsc_ok N (fst c) \<Longrightarrow> spin_push N x c ps = Inr (c', ps') \<Longrightarrow>
   spsc_ok N (fst c') \<and> stream N c' = stream N c @ [x]"
proof (induction N x c ps rule: spin_push.induct)
  case (1 N item c)
  obtain b q where b: "try_push N (fst c) item = (b, q)"
    by fastforce
  then show ?case
    using 1 sq.push_result [OF 1(1) b] by (cases b) (auto simp: stream_def)
next
  case (2 N item c k ps)
  let ?c = "consume N k c"
  obtain b q where b: "try_push N (fst ?c) item = (b, q)"
    by fastforce
  note cr = consume_result [OF "2.prems"(1), of k]
  note pr = sq.push_result [OF cr(1) b]
  show ?case
  proof (cases b)
    case True
    then have "c' = (q, snd ?c)"
      using "2.prems"(2) b by (simp add: Let_def)
    then show ?thesis
      using pr True cr(2) by (simp add: stream_def)
  next
    case False
    then have "spin_push N item ?c ps = Inr (c', ps')"
      using "2.prems"(2) b by (simp add: Let_def)
    then show ?thesis
      using "2.IH" [OF refl b [symmetric] _ cr(1)] False cr(2) by simp
  qed
qed

lemma spin_push_taken:
  "spsc_ok N (fst c) \<Longrightarrow> spin_push N x c ps = Inr (c', ps') \<Longrightarrow> length (snd c) \<le> length (snd c')"
proof (induction N x c ps rule: spin_push.induct)
  case (1 N item c)
  then show ?case
    by (auto split: prod.splits bool.splits)
next
  case (2 N item c k ps)
  let ?c = "consume N k c"
  obtain b q where b: "try_push N (fst ?c) item = (b, q)"
    by fastforce
  have le: "length (snd c) \<le> length (snd ?c)"
    by (simp add: consume_def split: prod.split)
  show ?case
  proof (cases b)
    case True
    then show ?thesis
      using "2.prems"(2) b le by (auto simp: Let_def)
  next
    case False
    then have "spin_push N item ?c ps = Inr (c', ps')"
      using "2.prems"(2) b by (simp add: Let_def)
    then show ?thesis
      using "2.IH" [OF refl b [symmetric] _ consume_result(1) [OF "2.prems"(1)]] False le by simp
  qed
qed

lemma spin_push_silent:
  "spin_push N x c [] = Inr (c', ps') \<Longrightarrow> ps' = [] \<and> snd c' = snd c"
  by (auto split: prod.splits bool.splits)

lemma spin_push_fault: "spin_push N x c ps = Inl e \<Longrightarrow> e = Blocked"
  by (induction N x c ps rule: spin_push.induct)
     (auto simp: Let_def split: prod.splits bool.splits)

lemma spin_push_can_post:
  "spsc_ok N (fst c) \<Longrightarrow> can_post N (Suc n) c ps \<Longrightarrow>
   \<exists>c' ps'. spin_push N x c ps = Inr (c', ps') \<and> can_post N n c' ps'"
proof (induction N x c ps rule: spin_push.induct)
  case (1 N item c)
  have room: "length (contents N (fst c)) < unat N"
    using 1(2) by (simp add: can_post_def)
  obtain q where q: "try_push N (fst c) item = (True, q)" "contents N q = contents N (fst c) @ [item]"
    using sq.push_room [OF 1(1) room, of item] by blast
  have "length (contents N q) = Suc (length (contents N (fst c)))"
    by (simp only: q(2)) simp
  then show ?case
    using q(1) 1(2) by (auto simp: can_post_def)
next
  case (2 N item c k ps)
  let ?c = "consume N k c"
  note cr = consume_result [OF "2.prems"(1), of k]
  have len: "length (contents N (fst ?c)) = length (contents N (fst c)) - k"
    by (simp only: cr(3) length_drop)
  obtain b q where b: "try_push N (fst ?c) item = (b, q)"
    by fastforce
  note pr = sq.push_result [OF cr(1) b]
  have bnd: "length (contents N (fst c)) \<le> unat N"
    using "2.prems"(1) by (rule sq.bounded)
  show ?case
  proof (cases b)
    case True
    have "length (contents N q) = Suc (length (contents N (fst ?c)))"
      using pr True by (simp del: length_contents)
    then have "can_post N n (q, snd ?c) ps"
      using "2.prems"(2) len by (auto simp: can_post_def simp del: length_contents split: if_splits)
    then show ?thesis
      using b True by (simp add: Let_def)
  next
    case False
    then have full: "length (contents N (fst ?c)) = unat N"
      using pr sq.bounded [OF cr(1)] by simp
    have "k = 0 \<or> unat N = 0"
      using full len bnd by linarith
    moreover have "0 < unat N"
      using "2.prems"(1) single_bit_nonzero by (auto simp: spsc_ok_def)
    ultimately have "can_post N (Suc n) ?c ps"
      using "2.prems"(2) len full by (auto simp: can_post_def simp del: length_contents)
    then show ?thesis
      using "2.IH" [OF refl b [symmetric] _ cr(1)] False b by (simp add: Let_def)
  qed
qed

subsection \<open>Messages of the pipeline\<close>

text \<open>
  \<open>RawByteSpan::data\<close> is an address of the byte memory the receive buffers live in
  (\<open>None\<close> for \<open>nullptr\<close>). The padding arrays carry no information. Enumerations whose
  values arrive as raw bytes have a \<open>_raw\<close> constructor for the values without a name.
\<close>

record RawByteSpan =
  rs_data :: "nat option"
  rs_len :: u32
  rs_buf_id :: u32

datatype InboundKind = NewOrder | Cancel | Modify | InboundKind_raw u8

record InboundOrderMsg =
  im_kind :: InboundKind
  im_order_id :: u64
  im_price :: int
  im_quantity :: u32
  im_instrument_id :: u32
  im_client_id :: u64
  im_side :: u8
  im_type :: u8

datatype ExKind = Fill | PartialFill | CancelAck | Reject | ExKind_raw u8

record ExecutionReport =
  er_kind :: ExKind
  er_order_id :: u64
  er_counterpart_order_id :: u64
  er_exec_price :: int
  er_exec_quantity :: u32
  er_leaves_quantity :: u32
  er_timestamp_ns :: u64

definition kPipelineQueueCapacity :: u64 where
  "kPipelineQueueCapacity = 65536"

lemma kPipelineQueueCapacity_single_bit [simp]: "has_single_bit kPipelineQueueCapacity"
  by (simp add: has_single_bit_def kPipelineQueueCapacity_def upt_rec)

section \<open>Properties of the queue\<close>

text \<open>C38: The ring buffer is a bounded FIFO queue. A push appends its item exactly when fewer than
  the capacity are stored and otherwise changes nothing; a pop returns the oldest item
  and leaves the rest in order, and on an empty queue changes nothing. This holds for
  every position of the two 64-bit indices, at their wrap-around too.\<close>

theorem spsc_fifo:
  assumes "spsc_ok N q"
  shows "(case try_push N q x of
      (b, q') \<Rightarrow> spsc_ok N q' \<and> (b \<longleftrightarrow> length (contents N q) < unat N) \<and>
        (if b then contents N q' = contents N q @ [x] else q' = q)) \<and>
    (case try_pop N q of
      (r, q') \<Rightarrow> spsc_ok N q' \<and>
        (case contents N q of [] \<Rightarrow> r = None \<and> q' = q | y # ys \<Rightarrow> r = Some y \<and> contents N q' = ys)) \<and>
    (queue_empty q \<longleftrightarrow> contents N q = []) \<and> (queue_full N q \<longleftrightarrow> length (contents N q) = unat N) \<and>
    unat (size_approx q) = length (contents N q)"
proof -
  obtain b q1 where push: "try_push N q x = (b, q1)"
    by fastforce
  obtain r q2 where pop: "try_pop N q = (r, q2)"
    by fastforce
  have "q1 = q" if "\<not> b"
    using that push by (auto simp: try_push_def Let_def split: if_splits)
  moreover have "queue_empty q \<longleftrightarrow> contents N q = []"
    by (auto simp: queue_empty_def contents_def unat_eq_0)
  moreover have "queue_full N q \<longleftrightarrow> length (contents N q) = unat N"
    by (simp add: queue_full_def Let_def idx_diff_eq_iff)
  moreover have "unat (size_approx q) = length (contents N q)"
    by (simp add: size_approx_def Let_def)
  ultimately show ?thesis
    using sq.push_result [OF assms push] sq.pop_result [OF assms pop]
    by (cases b) (simp_all add: push pop del: length_contents)
qed

theorem spsc_fifo_witness:
  "let q = \<lparr>write_idx = - 1, read_idx = - 1, buffer = (\<lambda>_. 7)\<rparr> :: nat SPSCQueue
   in spsc_ok 4 q \<and> contents 4 q = [] \<and>
      (case try_push 4 q 5 of (b, q') \<Rightarrow> b \<and> contents 4 q' = [5] \<and> write_idx q' = 0)"
proof -
  let ?q = "\<lparr>write_idx = - 1, read_idx = - 1, buffer = (\<lambda>_. 7)\<rparr> :: nat SPSCQueue"
  have sb: "has_single_bit 4"
    by (simp add: has_single_bit_def upt_rec)
  then have ok: "spsc_ok 4 ?q" and c: "contents 4 ?q = []"
    by (simp_all add: spsc_ok_def contents_def)
  obtain b q' where p: "try_push 4 ?q 5 = (b, q')"
    by fastforce
  have b: "b" "contents 4 q' = [5]"
    using spsc_fifo [OF ok, of 5] p c by auto
  then have "write_idx q' = 0"
    using p by (auto simp: try_push_def Let_def split: if_splits)
  then show ?thesis
    using ok c b p by (simp add: Let_def)
qed

text \<open>C39: A batch is a sequence of single operations. \<open>try_push_batch\<close> leaves the queue and returns
  the count that pushing the items one by one until the first refusal gives, and
  \<open>try_pop_batch\<close> what popping one by one up to the given number gives.\<close>

theorem batches_are_single_operations:
  assumes "spsc_ok N q"
  shows "try_push_batch N q xs = push_all (try_push N) q xs \<and>
    try_pop_batch N q n = pop_upto (try_pop N) n q \<and>
    contents N (snd (try_push_batch N q xs)) = contents N q @ take (unat N - length (contents N q)) xs \<and>
    fst (try_pop_batch N q n) = take n (contents N q)"
proof -
  obtain k q1 where push: "push_all (try_push N) q xs = (k, q1)"
    by fastforce
  obtain out q2 where pop: "pop_upto (try_pop N) n q = (out, q2)"
    by fastforce
  note e = try_push_batch_push_all [OF assms, of xs] try_pop_batch_pop_upto [OF assms, of n]
  have "take k xs = take (unat N - length (contents N q)) xs"
    using sq.push_all_result [OF assms push] by (simp add: min_def del: length_contents)
  then show ?thesis
    using sq.push_all_result [OF assms push] sq.pop_upto_result [OF assms pop] by (simp add: e push pop del: length_contents)
qed

theorem batches_are_single_operations_witness:
  "contents 2 (snd (try_push_batch 2 (SPSCQueue_new (\<lambda>_. 0)) [10 :: nat, 11, 12])) = [10, 11]"
proof -
  have sb: "has_single_bit 2"
    by (simp add: has_single_bit_def upt_rec)
  note N = spsc_new_ok [OF sb, of "\<lambda>_. 0 :: nat"]
  have "contents 2 (snd (try_push_batch 2 (SPSCQueue_new (\<lambda>_. 0 :: nat)) [10, 11, 12])) =
      contents 2 (SPSCQueue_new (\<lambda>_. 0 :: nat)) @
      take (unat (2 :: u64) - length (contents 2 (SPSCQueue_new (\<lambda>_. 0 :: nat)))) [10, 11, 12]"
    using batches_are_single_operations [of 2 "SPSCQueue_new (\<lambda>_. 0 :: nat)" "[10, 11, 12]" 0] N by blast
  also have "\<dots> = [10, 11]"
    unfolding conjunct2 [OF N] by simp
  finally show ?thesis .
qed

text \<open>Busy-waiting delivers. \<open>spin_push\<close> returns as soon as there is room or the consumer takes
  something, appends exactly its item to everything ever sent, and can only fail to
  return by waiting for a consumer that stays silent.\<close>

theorem spin_push_delivers:
  assumes "spsc_ok N (fst c)" and "can_post N (Suc n) c ps"
  shows "\<exists>c' ps'. spin_push N x c ps = Inr (c', ps') \<and> spsc_ok N (fst c') \<and>
    stream N c' = stream N c @ [x] \<and> can_post N n c' ps'"
  using spin_push_can_post [OF assms, of x] spin_push_result [OF assms(1)] by blast

theorem spin_push_delivers_witness:
  "\<exists>c ps. spin_push 1 (4 :: nat) (\<lparr>write_idx = 1, read_idx = 0, buffer = (\<lambda>_. 3)\<rparr>, []) [0, 1] = Inr (c, ps) \<and>
     stream 1 c = [3, 4]"
proof -
  let ?q = "\<lparr>write_idx = 1, read_idx = 0, buffer = (\<lambda>_. 3)\<rparr> :: nat SPSCQueue"
  have "has_single_bit 1"
    by (simp add: has_single_bit_def upt_rec)
  then have "spsc_ok 1 (fst (?q, []))" "stream 1 (?q, []) = [3]" "can_post 1 (Suc 0) (?q, []) [0, 1]"
    by (simp_all add: spsc_ok_def stream_def contents_def can_post_def)
  then show ?thesis
    using spin_push_delivers [of 1 "(?q, [])" 0 "[0, 1]" 4] by auto
qed

end
