(* ===== verification/Matching_Engine.thy ===== *)
theory Matching_Engine
  imports Book_Spec Order_Pool Spsc_Queue
begin

section \<open>The matching engine (\<open>src/src/matching/matching_engine.hpp\<close>)\<close>

text \<open>
  The definitions of \<open>MatchingEngine\<close>, method by method. The engine owns the pool and the
  books; \<open>inbound\<close> and \<open>outbound\<close> are the queues it was given. What the environment
  contributes is part of the state: \<open>clock\<close> is what successive \<open>clock_gettime\<close> calls
  return (seconds and nanoseconds), \<open>pauses\<close> is the schedule of the outbound consumer
  during busy-waits (see \<open>spin_push\<close>), and the second component of \<open>outbound\<close> is what
  that consumer has taken.

  A handler that is given a reference to a book returns the updated book beside the
  engine; \<open>handle_new_order\<close> and \<open>handle_cancel\<close> write it back into \<open>books\<close>. The
  unbounded loop \<open>do_sweep\<close> takes an iteration budget: \<open>sweep_budget\<close> is one more than
  the aggressor's quantity, enough because every iteration fills at least one unit
  (proved in \<open>Engine_Refine\<close>).
\<close>

record MatchingEngine =
  pool :: OrderPool
  books :: "InstrumentId \<Rightarrow> OrderBook option"
  inbound :: "InboundOrderMsg SPSCQueue"
  outbound :: "ExecutionReport channel"
  orders_processed :: u64
  fills_executed :: u64
  orders_rejected :: u64
  clock :: "nat \<Rightarrow> u64 \<times> u64"
  clock_calls :: nat
  pauses :: "nat list"

definition kDefaultPoolCapacity :: nat where
  "kDefaultPoolCapacity = 1000000"

definition MatchingEngine_over ::
  "OrderPool \<Rightarrow> InboundOrderMsg SPSCQueue \<Rightarrow> ExecutionReport channel \<Rightarrow>
   (nat \<Rightarrow> u64 \<times> u64) \<Rightarrow> nat list \<Rightarrow> MatchingEngine" where
  "MatchingEngine_over p inb outb clk ps =
     \<lparr>pool = p, books = (\<lambda>_. None), inbound = inb, outbound = outb,
      orders_processed = 0, fills_executed = 0, orders_rejected = 0,
      clock = clk, clock_calls = 0, pauses = ps\<rparr>"

definition MatchingEngine_new ::
  "(bool \<Rightarrow> nat \<Rightarrow> heap option) \<Rightarrow> InboundOrderMsg SPSCQueue \<Rightarrow> ExecutionReport channel \<Rightarrow>
   (nat \<Rightarrow> u64 \<times> u64) \<Rightarrow> nat list \<Rightarrow> pool_error + MatchingEngine" where
  "MatchingEngine_new mmap inb outb clk ps =
     (case OrderPool_new mmap kDefaultPoolCapacity of
        Inl e \<Rightarrow> Inl e
      | Inr p \<Rightarrow> Inr (MatchingEngine_over p inb outb clk ps))"

definition add_instrument ::
  "MatchingEngine \<Rightarrow> InstrumentId \<Rightarrow> Price \<Rightarrow> Price \<Rightarrow> Price \<Rightarrow> MatchingEngine" where
  "add_instrument me iid mn mx tick =
     (case books me iid of
        None \<Rightarrow> me\<lparr>books := (books me)(iid := Some (OrderBook_new iid mn mx tick))\<rparr>
      | Some _ \<Rightarrow> me)"

definition book_for :: "MatchingEngine \<Rightarrow> InstrumentId \<Rightarrow> OrderBook option" where
  "book_for me iid = books me iid"

definition reset_state :: "MatchingEngine \<Rightarrow> MatchingEngine" where
  "reset_state me = me\<lparr>pool := pool_reset (pool me),
     books := (\<lambda>iid. map_option book_clear (books me iid))\<rparr>"

subsection \<open>Clock and reports\<close>

definition clock_read :: "(nat \<Rightarrow> u64 \<times> u64) \<Rightarrow> nat \<Rightarrow> u64" where
  "clock_read clk n = fst (clk n) * 1000000000 + snd (clk n)"

definition now_ns :: "MatchingEngine \<Rightarrow> u64 \<times> MatchingEngine" where
  "now_ns me = (clock_read (clock me) (clock_calls me), me\<lparr>clock_calls := Suc (clock_calls me)\<rparr>)"

text \<open>The loop \<open>while (!outbound_.try_push(r)) ME_PAUSE();\<close>\<close>

definition push_out :: "ExecutionReport \<Rightarrow> MatchingEngine \<Rightarrow> fault + MatchingEngine" where
  "push_out r me =
     ebind (spin_push kPipelineQueueCapacity r (outbound me) (pauses me))
       (\<lambda>(c, ps). Inr (me\<lparr>outbound := c, pauses := ps\<rparr>))"

definition post_report ::
  "ExKind \<Rightarrow> OrderId \<Rightarrow> OrderId \<Rightarrow> Price \<Rightarrow> Quantity \<Rightarrow> Quantity \<Rightarrow> MatchingEngine \<Rightarrow>
   fault + MatchingEngine" where
  "post_report k oid cid p xq lq me =
     (let (t, me1) = now_ns me in
      push_out \<lparr>er_kind = k, er_order_id = oid, er_counterpart_order_id = cid, er_exec_price = p,
        er_exec_quantity = xq, er_leaves_quantity = lq, er_timestamp_ns = t\<rparr> me1)"

definition post_reject :: "OrderId \<Rightarrow> Quantity \<Rightarrow> MatchingEngine \<Rightarrow> fault + MatchingEngine" where
  "post_reject oid original_qty me =
     (let (t, me1) = now_ns me in
      push_out \<lparr>er_kind = Reject, er_order_id = oid, er_counterpart_order_id = 0, er_exec_price = 0,
        er_exec_quantity = 0, er_leaves_quantity = original_qty, er_timestamp_ns = t\<rparr> me1)"

definition post_cancel_ack :: "OrderId \<Rightarrow> Quantity \<Rightarrow> MatchingEngine \<Rightarrow> fault + MatchingEngine" where
  "post_cancel_ack oid leaves_qty me =
     (let (t, me1) = now_ns me in
      push_out \<lparr>er_kind = CancelAck, er_order_id = oid, er_counterpart_order_id = 0, er_exec_price = 0,
        er_exec_quantity = 0, er_leaves_quantity = leaves_qty, er_timestamp_ns = t\<rparr> me1)"

subsection \<open>Sweeping and the order types\<close>

definition orders :: "MatchingEngine \<Rightarrow> heap" where
  "orders me = storage (pool me)"

definition set_orders :: "heap \<Rightarrow> MatchingEngine \<Rightarrow> MatchingEngine" where
  "set_orders h me = me\<lparr>pool := (pool me)\<lparr>storage := h\<rparr>\<rparr>"

definition pool_release :: "addr \<Rightarrow> MatchingEngine \<Rightarrow> MatchingEngine" where
  "pool_release a me = me\<lparr>pool := release (pool me) a\<rparr>"

fun do_sweep ::
  "nat \<Rightarrow> (Price \<Rightarrow> bool) \<Rightarrow> addr \<Rightarrow> MatchingEngine \<Rightarrow> OrderBook \<Rightarrow>
   fault + (MatchingEngine \<times> OrderBook)" where
  "do_sweep 0 price_ok agg me b = Inl OutOfFuel"
| "do_sweep (Suc n) price_ok agg me b =
     (let h = orders me in
      if quantity (h agg) = 0 then Inr (me, b)
      else
        case (if is_buy (h agg) then best_ask b else best_bid b) of
          None \<Rightarrow> Inr (me, b)
        | Some best \<Rightarrow>
            if \<not> price_ok (lvl_price best) then Inr (me, b)
            else
              case lvl_head best of
                None \<Rightarrow> Inl NullDeref
              | Some rest \<Rightarrow>
                  (let fill_qty = min (quantity (h rest)) (quantity (h agg));
                       exec_price = price (h rest);
                       h1 = h(agg := (h agg)\<lparr>quantity := quantity (h agg) - fill_qty\<rparr>);
                       (rest_done, h2, b1) = fill_resting_order h1 b (Some rest) fill_qty;
                       me1 = (set_orders h2 me)\<lparr>fills_executed := fills_executed me + 1\<rparr>
                   in ebind (post_report (if rest_done then Fill else PartialFill)
                        (order_id (h2 rest)) (order_id (h2 agg)) exec_price fill_qty
                        (quantity (h2 rest)) me1)
                      (\<lambda>me2. ebind (post_report (if quantity (h2 agg) = 0 then Fill else PartialFill)
                        (order_id (h2 agg)) (order_id (h2 rest)) exec_price fill_qty
                        (quantity (h2 agg)) me2)
                      (\<lambda>me3. do_sweep n price_ok agg
                        (if rest_done then pool_release rest me3 else me3) b1))))"

definition sweep_budget :: "addr \<Rightarrow> MatchingEngine \<Rightarrow> nat" where
  "sweep_budget agg me = Suc (unat (quantity (orders me agg)))"

text \<open>The two lambdas of the limit-priced order types.\<close>

definition sweep_at_limit ::
  "addr \<Rightarrow> MatchingEngine \<Rightarrow> OrderBook \<Rightarrow> fault + (MatchingEngine \<times> OrderBook)" where
  "sweep_at_limit agg me b =
     (let p = price (orders me agg) in
      if is_buy (orders me agg) then do_sweep (sweep_budget agg me) (\<lambda>lvl_price. lvl_price \<le> p) agg me b
      else do_sweep (sweep_budget agg me) (\<lambda>lvl_price. p \<le> lvl_price) agg me b)"

definition match_limit ::
  "addr \<Rightarrow> MatchingEngine \<Rightarrow> OrderBook \<Rightarrow> fault + (MatchingEngine \<times> OrderBook)" where
  "match_limit agg me b =
     ebind (sweep_at_limit agg me b) (\<lambda>(me1, b1).
       if 0 < quantity (orders me1 agg)
       then (let (h, b2) = add_order (orders me1) b1 (Some agg) in Inr (set_orders h me1, b2))
       else Inr (pool_release agg me1, b1))"

definition match_market ::
  "addr \<Rightarrow> MatchingEngine \<Rightarrow> OrderBook \<Rightarrow> fault + (MatchingEngine \<times> OrderBook)" where
  "match_market agg me b =
     ebind (do_sweep (sweep_budget agg me) (\<lambda>_. True) agg me b) (\<lambda>(me1, b1).
     ebind (if 0 < quantity (orders me1 agg)
            then post_cancel_ack (order_id (orders me1 agg)) (quantity (orders me1 agg)) me1
            else Inr me1) (\<lambda>me2.
     Inr (pool_release agg me2, b1)))"

definition match_ioc ::
  "addr \<Rightarrow> MatchingEngine \<Rightarrow> OrderBook \<Rightarrow> fault + (MatchingEngine \<times> OrderBook)" where
  "match_ioc agg me b =
     ebind (sweep_at_limit agg me b) (\<lambda>(me1, b1).
     ebind (if 0 < quantity (orders me1 agg)
            then post_cancel_ack (order_id (orders me1 agg)) (quantity (orders me1 agg)) me1
            else Inr me1) (\<lambda>me2.
     Inr (pool_release agg me2, b1)))"

text \<open>\<open>match_fok\<close> with the closing assert compiled out (\<open>NDEBUG\<close>).\<close>

definition match_fok ::
  "addr \<Rightarrow> MatchingEngine \<Rightarrow> OrderBook \<Rightarrow> fault + (MatchingEngine \<times> OrderBook)" where
  "match_fok agg me b =
     (let o1 = orders me agg;
          avail = available_quantity_at_or_better b (side o1) (price o1)
      in if avail < quantity o1
         then ebind (post_reject (order_id o1) (quantity o1) me) (\<lambda>me1.
           Inr ((pool_release agg me1)\<lparr>orders_rejected := orders_rejected me1 + 1\<rparr>, b))
         else ebind (sweep_at_limit agg me b) (\<lambda>(me1, b1). Inr (pool_release agg me1, b1)))"

subsection \<open>Handlers\<close>

text \<open>The field-by-field initialisation of the acquired slot.\<close>

definition fill_order :: "InboundOrderMsg \<Rightarrow> u64 \<Rightarrow> Order \<Rightarrow> Order" where
  "fill_order msg t o1 = o1\<lparr>
     order_id := im_order_id msg,
     price := im_price msg,
     quantity := im_quantity msg,
     orig_quantity := im_quantity msg,
     instrument_id := im_instrument_id msg,
     client_id := im_client_id msg,
     side := side_of_u8 (im_side msg),
     otype := order_type_of_u8 (im_type msg),
     status := New,
     timestamp_ns := t,
     nxt := None,
     prv := None\<rparr>"

definition reject_new :: "InboundOrderMsg \<Rightarrow> MatchingEngine \<Rightarrow> fault + MatchingEngine" where
  "reject_new msg me =
     ebind (post_reject (im_order_id msg) (im_quantity msg) me) (\<lambda>me1.
       Inr (me1\<lparr>orders_rejected := orders_rejected me1 + 1\<rparr>))"

definition route ::
  "addr \<Rightarrow> MatchingEngine \<Rightarrow> OrderBook \<Rightarrow> fault + (MatchingEngine \<times> OrderBook)" where
  "route a me b =
     (case otype (orders me a) of
        Limit \<Rightarrow> match_limit a me b
      | Market \<Rightarrow> match_market a me b
      | IOC \<Rightarrow> match_ioc a me b
      | FOK \<Rightarrow> match_fok a me b
      | OrderType_raw _ \<Rightarrow>
          ebind (post_reject (order_id (orders me a)) (quantity (orders me a)) me) (\<lambda>me1.
            Inr ((pool_release a me1)\<lparr>orders_rejected := orders_rejected me1 + 1\<rparr>, b)))"

definition handle_new_order :: "InboundOrderMsg \<Rightarrow> MatchingEngine \<Rightarrow> fault + MatchingEngine" where
  "handle_new_order msg me =
     (case book_for me (im_instrument_id msg) of
        None \<Rightarrow> reject_new msg me
      | Some b \<Rightarrow>
          (case acquire (pool me) of
             (None, p) \<Rightarrow> reject_new msg (me\<lparr>pool := p\<rparr>)
           | (Some a, p) \<Rightarrow>
               (let me1 = me\<lparr>pool := p\<rparr>;
                    (t, me2) = now_ns me1;
                    me3 = set_orders ((orders me2)(a := fill_order msg t (orders me2 a))) me2
                in ebind (route a me3 b) (\<lambda>(me4, b').
                     Inr (me4\<lparr>books := (books me4)(im_instrument_id msg := Some b')\<rparr>)))))"

definition handle_cancel :: "InboundOrderMsg \<Rightarrow> MatchingEngine \<Rightarrow> fault + MatchingEngine" where
  "handle_cancel msg me =
     (case book_for me (im_instrument_id msg) of
        None \<Rightarrow> Inr me
      | Some b \<Rightarrow>
          (case find_order b (im_order_id msg) of
             None \<Rightarrow> Inr me
           | Some a \<Rightarrow>
               (let leaves = quantity (orders me a);
                    (h, b') = cancel_order_ptr (orders me) b (Some a);
                    me1 = (set_orders h me)\<lparr>books := (books me)(im_instrument_id msg := Some b')\<rparr>
                in ebind (post_cancel_ack (order_id (h a)) leaves me1) (\<lambda>me2.
                     Inr (pool_release a me2)))))"

definition dispatch :: "InboundOrderMsg \<Rightarrow> MatchingEngine \<Rightarrow> fault + MatchingEngine" where
  "dispatch msg me =
     (case im_kind msg of
        NewOrder \<Rightarrow> handle_new_order msg me
      | Cancel \<Rightarrow> handle_cancel msg me
      | Modify \<Rightarrow> handle_cancel msg me
      | InboundKind_raw _ \<Rightarrow> Inr me)"

fun dispatch_all :: "InboundOrderMsg list \<Rightarrow> MatchingEngine \<Rightarrow> fault + MatchingEngine" where
  "dispatch_all [] me = Inr me"
| "dispatch_all (m # ms) me = ebind (dispatch m me) (dispatch_all ms)"

definition engine_poll :: "nat \<Rightarrow> MatchingEngine \<Rightarrow> fault + (nat \<times> MatchingEngine)" where
  "engine_poll max_batch me =
     (let (batch, inb) = try_pop_batch kPipelineQueueCapacity (inbound me) (min max_batch 64) in
      ebind (dispatch_all batch (me\<lparr>inbound := inb\<rparr>)) (\<lambda>me1.
        Inr (length batch, me1\<lparr>orders_processed := orders_processed me1 + of_nat (length batch)\<rparr>)))"

definition submit :: "InboundOrderMsg \<Rightarrow> MatchingEngine \<Rightarrow> fault + MatchingEngine" where
  "submit msg me =
     ebind (dispatch msg me) (\<lambda>me1. Inr (me1\<lparr>orders_processed := orders_processed me1 + 1\<rparr>))"

end
