(* ===== verification/Engine_Refine.thy ===== *)
theory Engine_Refine
  imports Matching_Engine
begin

section \<open>The sweep implements price-time priority matching\<close>

text \<open>
  \<open>match_spec\<close> is the specification of a sweep on the opposite side's priority list: fill
  the first entry with the smaller of the two quantities, report both sides at the
  entry's price, drop the entry when it is exhausted, stop at the first entry whose price
  does not qualify. \<open>do_sweep_refines\<close> shows that \<open>do_sweep\<close>, running on linked lists,
  cursors, the order index, the pool and the outbound queue, does exactly that, and that
  the only way it can fail to return is an outbound queue that is never drained.
\<close>

subsection \<open>Posting reports\<close>

definition sent :: "MatchingEngine \<Rightarrow> ExecutionReport list" where
  "sent me = stream kPipelineQueueCapacity (outbound me)"

definition can_send :: "nat \<Rightarrow> MatchingEngine \<Rightarrow> bool" where
  "can_send n me \<longleftrightarrow> can_post kPipelineQueueCapacity n (outbound me) (pauses me)"

definition out_ok :: "MatchingEngine \<Rightarrow> bool" where
  "out_ok me \<longleftrightarrow> spsc_ok kPipelineQueueCapacity (fst (outbound me))"

definition report :: "ExKind \<Rightarrow> OrderId \<Rightarrow> OrderId \<Rightarrow> Price \<Rightarrow> Quantity \<Rightarrow> Quantity \<Rightarrow> ExecutionReport" where
  "report k oid cid p xq lq =
     \<lparr>er_kind = k, er_order_id = oid, er_counterpart_order_id = cid, er_exec_price = p,
      er_exec_quantity = xq, er_leaves_quantity = lq, er_timestamp_ns = 0\<rparr>"

text \<open>Reports in the order they are posted carry successive clock readings.\<close>

fun stamp :: "(nat \<Rightarrow> u64 \<times> u64) \<Rightarrow> nat \<Rightarrow> ExecutionReport list \<Rightarrow> ExecutionReport list" where
  "stamp clk n [] = []"
| "stamp clk n (r # rs) = r\<lparr>er_timestamp_ns := clock_read clk n\<rparr> # stamp clk (Suc n) rs"

lemma stamp_append [simp]: "stamp clk n (rs @ ss) = stamp clk n rs @ stamp clk (n + length rs) ss"
  by (induction rs arbitrary: n) simp_all

text \<open>\<open>me'\<close> is \<open>me\<close> after posting \<open>rs\<close>.\<close>

definition posted :: "MatchingEngine \<Rightarrow> ExecutionReport list \<Rightarrow> MatchingEngine \<Rightarrow> bool" where
  "posted me rs me' \<longleftrightarrow>
     pool me' = pool me \<and> books me' = books me \<and> inbound me' = inbound me \<and>
     orders_processed me' = orders_processed me \<and> fills_executed me' = fills_executed me \<and>
     orders_rejected me' = orders_rejected me \<and> clock me' = clock me \<and>
     clock_calls me' = clock_calls me + length rs \<and> out_ok me' \<and>
     sent me' = sent me @ stamp (clock me) (clock_calls me) rs"

lemma posted_refl: "out_ok me \<Longrightarrow> posted me [] me"
  by (simp add: posted_def)

lemma posted_fields:
  assumes "posted me rs me'"
  shows "pool me' = pool me" "books me' = books me" "inbound me' = inbound me"
    "orders_processed me' = orders_processed me" "fills_executed me' = fills_executed me"
    "orders_rejected me' = orders_rejected me" "clock me' = clock me"
    "clock_calls me' = clock_calls me + length rs" "out_ok me'"
    "sent me' = sent me @ stamp (clock me) (clock_calls me) rs" "orders me' = orders me"
  using assms by (auto simp: posted_def orders_def)

lemma posted_trans: "posted me rs me1 \<Longrightarrow> posted me1 ss me2 \<Longrightarrow> posted me (rs @ ss) me2"
  by (simp add: posted_def)

lemma push_out_result:
  assumes "out_ok me" and "push_out r me = Inr me'"
  obtains c ps where "me' = me\<lparr>outbound := c, pauses := ps\<rparr>" "out_ok me'" "sent me' = sent me @ [r]"
  using assms spin_push_result [of kPipelineQueueCapacity "outbound me" r "pauses me"]
  by (auto simp: push_out_def ebind_Inr_iff out_ok_def sent_def)

text \<open>The three post operations are one: read the clock, push the stamped report.\<close>

definition post :: "ExecutionReport \<Rightarrow> MatchingEngine \<Rightarrow> fault + MatchingEngine" where
  "post r me = push_out (r\<lparr>er_timestamp_ns := fst (now_ns me)\<rparr>) (snd (now_ns me))"

lemma post_eqs:
  "post_report k oid cid p xq lq me = post (report k oid cid p xq lq) me"
  "post_reject oid oq me = post (report Reject oid 0 0 0 oq) me"
  "post_cancel_ack oid lq me = post (report CancelAck oid 0 0 0 lq) me"
  by (simp_all add: post_report_def post_reject_def post_cancel_ack_def post_def report_def now_ns_def)

lemma post_result:
  assumes "out_ok me" and "post r me = Inr me'"
  shows "posted me [r] me'"
proof -
  let ?m = "me\<lparr>clock_calls := Suc (clock_calls me)\<rparr>"
  have ok: "out_ok ?m" "sent ?m = sent me"
    using assms(1) by (simp_all add: out_ok_def sent_def)
  have "push_out (r\<lparr>er_timestamp_ns := clock_read (clock me) (clock_calls me)\<rparr>) ?m = Inr me'"
    using assms(2) by (simp add: post_def now_ns_def)
  then obtain c ps where "me' = ?m\<lparr>outbound := c, pauses := ps\<rparr>" "out_ok me'"
    "sent me' = sent me @ [r\<lparr>er_timestamp_ns := clock_read (clock me) (clock_calls me)\<rparr>]"
    using push_out_result [OF ok(1)] ok(2) by metis
  then show ?thesis
    by (simp add: posted_def)
qed

lemma post_fault: "post r me = Inl e \<Longrightarrow> e = Blocked"
  by (auto simp: post_def push_out_def ebind_Inl_iff dest: spin_push_fault)

lemma post_can_send:
  assumes "out_ok me" and "can_send (Suc n) me"
  obtains me' where "post r me = Inr me'" "posted me [r] me'" "can_send n me'"
proof -
  let ?r = "r\<lparr>er_timestamp_ns := clock_read (clock me) (clock_calls me)\<rparr>"
  obtain c ps where c: "spin_push kPipelineQueueCapacity ?r (outbound me) (pauses me) = Inr (c, ps)"
    "can_post kPipelineQueueCapacity n c ps"
    using spin_push_can_post [of kPipelineQueueCapacity "outbound me" n "pauses me" ?r] assms
    by (auto simp: out_ok_def can_send_def)
  then have "post r me = Inr (me\<lparr>clock_calls := Suc (clock_calls me), outbound := c, pauses := ps\<rparr>)"
    by (simp add: post_def now_ns_def push_out_def)
  then show thesis
    using that post_result [OF assms(1)] c(2) by (simp add: can_send_def)
qed

subsection \<open>Runs that may have to wait\<close>

text \<open>
  \<open>run_meets n me P eng x\<close>: the run \<open>x\<close>, started in \<open>me\<close> and posting \<open>n\<close> reports, ends in
  a result satisfying \<open>P\<close> if it ends; it can only fail by waiting on the outbound queue
  (no null dereference, no exhausted budget); and it does end when the queue takes \<open>n\<close>
  reports. \<open>eng\<close> picks the engine out of a result.
\<close>

definition run_meets ::
  "nat \<Rightarrow> MatchingEngine \<Rightarrow> ('r \<Rightarrow> bool) \<Rightarrow> ('r \<Rightarrow> MatchingEngine) \<Rightarrow> fault + 'r \<Rightarrow> bool" where
  "run_meets n me P eng x \<longleftrightarrow>
     (\<forall>r. x = Inr r \<longrightarrow> P r) \<and> (\<forall>e. x = Inl e \<longrightarrow> e = Blocked) \<and>
     (\<forall>k. can_send (n + k) me \<longrightarrow> (\<exists>r. x = Inr r \<and> can_send k (eng r)))"

lemma run_meetsD:
  assumes "run_meets n me P eng x"
  shows "x = Inr r \<Longrightarrow> P r" "x = Inl e \<Longrightarrow> e = Blocked"
    "can_send (n + k) me \<Longrightarrow> \<exists>r. x = Inr r \<and> P r \<and> can_send k (eng r)"
  using assms by (auto simp: run_meets_def)

lemma run_meets_return: "P r \<Longrightarrow> (\<And>k. can_send k me \<Longrightarrow> can_send k (eng r)) \<Longrightarrow> run_meets 0 me P eng (Inr r)"
  by (simp add: run_meets_def)

lemma run_meets_post: "out_ok me \<Longrightarrow> run_meets 1 me (posted me [r]) (\<lambda>x. x) (post r me)"
  unfolding run_meets_def using post_result post_fault post_can_send by (metis plus_1_eq_Suc)

lemma run_meets_bind:
  assumes x: "run_meets n me P eng x" and f: "\<And>r. P r \<Longrightarrow> run_meets m (eng r) Q eng' (f r)"
  shows "run_meets (n + m) me Q eng' (ebind x f)"
  unfolding run_meets_def
proof (intro conjI allI impI)
  show "Q r" if "ebind x f = Inr r" for r
    using that run_meetsD(1) [OF x] run_meetsD(1) [OF f] by (auto simp: ebind_Inr_iff)
  show "e = Blocked" if "ebind x f = Inl e" for e
    using that run_meetsD(1,2) [OF x] run_meetsD(2) [OF f] by (auto simp: ebind_Inl_iff)
  fix k assume "can_send (n + m + k) me"
  then obtain r where "x = Inr r" "P r" "can_send (m + k) (eng r)"
    using run_meetsD(3) [OF x, of "m + k"] by (auto simp: add.assoc)
  then show "\<exists>r. ebind x f = Inr r \<and> can_send k (eng' r)"
    using run_meetsD(3) [OF f] by auto
qed

lemma run_meets_mono:
  "run_meets n me P eng x \<Longrightarrow> (\<And>r. P r \<Longrightarrow> Q r) \<Longrightarrow> run_meets n me Q eng x"
  by (auto simp: run_meets_def)

lemma run_meets_start:
  "run_meets n me1 P eng x \<Longrightarrow> (\<And>k. can_send k me1 = can_send k me) \<Longrightarrow> run_meets n me P eng x"
  by (simp add: run_meets_def)

subsection \<open>The specification of a sweep\<close>

definition pair_reports :: "OrderId \<Rightarrow> Quantity \<Rightarrow> Entry \<Rightarrow> ExecutionReport list" where
  "pair_reports aid r e =
     (let f = min (e_qty e) r in
      [report (if f = e_qty e then Fill else PartialFill) (e_id e) aid (e_price e) f (e_qty e - f),
       report (if r - f = 0 then Fill else PartialFill) aid (e_id e) (e_price e) f (r - f)])"

fun match_spec ::
  "(Price \<Rightarrow> bool) \<Rightarrow> OrderId \<Rightarrow> Quantity \<Rightarrow> Entry list \<Rightarrow>
   ExecutionReport list \<times> Quantity \<times> Entry list" where
  "match_spec ok aid r [] = ([], r, [])"
| "match_spec ok aid r (e # es) =
     (if r = 0 \<or> \<not> ok (e_price e) then ([], r, e # es)
      else
        (let f = min (e_qty e) r in
         if f = e_qty e
         then (let (reps, r', es') = match_spec ok aid (r - f) es
               in (pair_reports aid r e @ reps, r', es'))
         else (pair_reports aid r e, r - f, e\<lparr>e_qty := e_qty e - f\<rparr> # es)))"

subsection \<open>The state of a sweep\<close>

definition sweeping :: "MatchingEngine \<Rightarrow> OrderBook \<Rightarrow> queues \<Rightarrow> addr list \<Rightarrow> addr \<Rightarrow> bool" where
  "sweeping me b q fl agg \<longleftrightarrow>
     pool_repr (pool me) fl \<and> book_repr (orders me) b q \<and> out_ok me \<and>
     agg < Capacity (pool me) \<and> agg \<notin> live b q \<and> agg \<notin> set fl \<and>
     live b q \<inter> set fl = {} \<and> live b q \<subseteq> {..<Capacity (pool me)}"

lemma sweepingD:
  assumes "sweeping me b q fl agg"
  shows "pool_repr (pool me) fl" "book_repr (orders me) b q" "out_ok me" "agg < Capacity (pool me)"
    "agg \<notin> live b q" "agg \<notin> set fl" "live b q \<inter> set fl = {}" "live b q \<subseteq> {..<Capacity (pool me)}"
  using assms by (auto simp: sweeping_def)

definition swept ::
  "MatchingEngine \<Rightarrow> OrderBook \<Rightarrow> queues \<Rightarrow> addr list \<Rightarrow> addr \<Rightarrow> ExecutionReport list \<Rightarrow> Quantity \<Rightarrow>
   MatchingEngine \<Rightarrow> OrderBook \<Rightarrow> queues \<Rightarrow> addr list \<Rightarrow> bool" where
  "swept me b q fl agg reps r me' b' q' fl' \<longleftrightarrow>
     sweeping me' b' q' fl' agg \<and> same_grid b b' \<and>
     set fl' \<union> live b' q' = set fl \<union> live b q \<and> live b' q' \<subseteq> live b q \<and>
     (\<forall>c. c \<notin> insert agg (live b q) \<longrightarrow> orders me' c = orders me c) \<and>
     orders me' agg = (orders me agg)\<lparr>quantity := r\<rparr> \<and>
     side_view (orders me') b' q' (is_buy (orders me agg)) =
       side_view (orders me) b q (is_buy (orders me agg)) \<and>
     Capacity (pool me') = Capacity (pool me) \<and> books me' = books me \<and> inbound me' = inbound me \<and>
     orders_processed me' = orders_processed me \<and> orders_rejected me' = orders_rejected me \<and>
     clock me' = clock me \<and> clock_calls me' = clock_calls me + length reps \<and>
     sent me' = sent me @ stamp (clock me) (clock_calls me) reps \<and>
     fills_executed me' = fills_executed me + of_nat (length reps div 2) \<and>
     (book_qty_ok (orders me) b q \<longrightarrow> book_qty_ok (orders me') b' q') \<and>
     (index_complete (orders me) b q \<longrightarrow> index_complete (orders me') b' q') \<and>
     (\<forall>c. order_id (orders me' c) = order_id (orders me c))"

lemma sweptD:
  assumes "swept me b q fl agg reps r me' b' q' fl'"
  shows "sweeping me' b' q' fl' agg" "same_grid b b'" "set fl' \<union> live b' q' = set fl \<union> live b q"
    "live b' q' \<subseteq> live b q" "c \<notin> insert agg (live b q) \<Longrightarrow> orders me' c = orders me c"
    "orders me' agg = (orders me agg)\<lparr>quantity := r\<rparr>"
    "side_view (orders me') b' q' (is_buy (orders me agg)) =
       side_view (orders me) b q (is_buy (orders me agg))"
    "Capacity (pool me') = Capacity (pool me)" "books me' = books me" "inbound me' = inbound me"
    "orders_processed me' = orders_processed me" "orders_rejected me' = orders_rejected me"
    "clock me' = clock me" "clock_calls me' = clock_calls me + length reps"
    "sent me' = sent me @ stamp (clock me) (clock_calls me) reps"
    "fills_executed me' = fills_executed me + of_nat (length reps div 2)"
    "book_qty_ok (orders me) b q \<Longrightarrow> book_qty_ok (orders me') b' q'"
    "index_complete (orders me) b q \<Longrightarrow> index_complete (orders me') b' q'"
    "order_id (orders me' d) = order_id (orders me d)"
  using assms unfolding swept_def by blast+

lemma swept_refl:
  assumes "sweeping me b q fl agg"
  shows "swept me b q fl agg [] (quantity (orders me agg)) me b q fl"
  using assms by (simp add: swept_def)

lemma swept_trans:
  assumes A: "swept me b q fl agg R1 r1 me1 b1 q1 fl1" and B: "swept me1 b1 q1 fl1 agg R2 r2 me2 b2 q2 fl2"
    and ev: "even (length R1)"
  shows "swept me b q fl agg (R1 @ R2) r2 me2 b2 q2 fl2"
proof -
  have half: "(length R1 + length R2) div 2 = length R1 div 2 + length R2 div 2"
    using ev by (auto elim: evenE)
  have "orders me2 c = orders me c" if "c \<notin> insert agg (live b q)" for c
  proof -
    have "c \<notin> insert agg (live b1 q1)"
      using that sweptD(4) [OF A] by blast
    then show ?thesis
      using sweptD(5) [OF A that] sweptD(5) [OF B] by simp
  qed
  moreover have "is_buy (orders me1 agg) = is_buy (orders me agg)"
    by (simp add: sweptD(6) [OF A])
  moreover have "live b2 q2 \<subseteq> live b q"
    using sweptD(4) [OF A] sweptD(4) [OF B] by blast
  moreover have "same_grid b b2"
    using sweptD(2) [OF A] sweptD(2) [OF B] by (rule same_grid_trans)
  ultimately show ?thesis
    using sweptD [OF A] sweptD [OF B] unfolding swept_def length_append half
    by (simp add: add.assoc)
qed

lemma pool_repr_frame:
  "pool_repr p fl \<Longrightarrow> (\<And>c. c \<in> set fl \<Longrightarrow> h c = storage p c) \<Longrightarrow> pool_repr (p\<lparr>storage := h\<rparr>) fl"
  using flist_cong [of fl h "storage p"] by (simp add: pool_repr_def)

lemma sweeping_pool_frame:
  assumes S: "sweeping me b q fl agg" and eq: "\<And>c. c \<notin> insert agg (live b q) \<Longrightarrow> h c = orders me c"
  shows "pool_repr ((pool me)\<lparr>storage := h\<rparr>) fl"
proof (rule pool_repr_frame [OF sweepingD(1) [OF S]])
  fix c assume "c \<in> set fl"
  then have "c \<notin> insert agg (live b q)"
    using sweepingD(6,7) [OF S] by auto
  then show "h c = storage (pool me) c"
    using eq by (simp add: orders_def)
qed

subsection \<open>One iteration\<close>

lemma prio_live: "c \<in> set (prio b q s) \<Longrightarrow> c \<in> live b q"
  by (cases s) (simp_all add: live_prio)

lemma side_view_frame:
  "(\<And>c. c \<in> live b q \<Longrightarrow> h' c = h c) \<Longrightarrow> side_view h' b q s = side_view h b q s"
  by (rule side_view_cong [OF refl]) (simp add: entry_of_def prio_live)

text \<open>Writing to an order that is not in the book.\<close>

lemma outside_frame:
  assumes R: "book_repr h b q" and a: "a \<notin> live b q"
  shows "book_repr (h(a := v)) b q" "side_view (h(a := v)) b q s = side_view h b q s"
    "book_qty_ok h b q \<Longrightarrow> book_qty_ok (h(a := v)) b q"
    "index_complete h b q \<Longrightarrow> index_complete (h(a := v)) b q"
proof -
  have eq: "(h(a := v)) c = h c" if "c \<in> live b q" for c
    using that a by auto
  show "book_repr (h(a := v)) b q"
    using R eq by (rule book_repr_frame)
  show "side_view (h(a := v)) b q s = side_view h b q s"
    using eq by (rule side_view_frame)
  show "book_qty_ok h b q \<Longrightarrow> book_qty_ok (h(a := v)) b q"
    by (erule book_qty_ok_frame) (metis eq)
  show "index_complete h b q \<Longrightarrow> index_complete (h(a := v)) b q"
    by (erule index_complete_frame) (metis eq)
qed

lemma fill_best:
  assumes R: "book_repr h b q" and p: "prio b q s = a # as"
    and f: "f \<le> quantity (h a)"
    and out: "fill_resting_order h b (Some a) f = (dn, h2, b1)"
  obtains q1 where "dn \<longleftrightarrow> f = quantity (h a)" "fills h b q a f h2 b1 q1"
    "side_view h2 b1 q1 s = (if f = quantity (h a) then map (entry_of h) as
       else (entry_of h a)\<lparr>e_qty := quantity (h a) - f\<rparr> # map (entry_of h) as)"
    "side_view h2 b1 q1 (\<not> s) = side_view h b q (\<not> s)"
proof (cases "f = quantity (h a)")
  case True
  then have "fill_resting_order h b (Some a) (quantity (h a)) = (dn, h2, b1)"
    using out by simp
  from fill_best_full [OF R p this] show thesis
    using that True by metis
next
  case False
  then have "f < quantity (h a)"
    using f by simp
  from fill_best_part [OF R p this out] show thesis
    using that False by metis
qed

lemma sweep_after:
  assumes S: "sweeping me b q fl agg" and al: "a \<in> live b q"
    and h1: "h1 = (orders me)(agg := (orders me agg)\<lparr>quantity := r\<rparr>)"
    and F: "fills h1 b q a f h2 b1 q1" and dn_eq: "dn \<longleftrightarrow> f = quantity (orders me a)"
    and own: "side_view h2 b1 q1 s = side_view h1 b q s" "s = is_buy (orders me agg)"
    and P: "posted ((set_orders h2 me)\<lparr>fills_executed := fills_executed me + 1\<rparr>) R me3" "length R = 2"
    and me4: "me4 = (if dn then pool_release a me3 else me3)" and fl1: "fl1 = (if dn then a # fl else fl)"
  shows "swept me b q fl agg R r me4 b1 q1 fl1"
    "side_view (orders me4) b1 q1 s' = side_view h2 b1 q1 s'"
proof -
  note D = sweepingD [OF S]
  let ?p = "(pool me)\<lparr>storage := h2\<rparr>"
  note O = outside_frame [OF D(2,5), of "(orders me agg)\<lparr>quantity := r\<rparr>", folded h1]
  have ne: "a \<noteq> agg"
    using al D(5) by auto
  have lv: "live b1 q1 = live b q - (if dn then {a} else {})"
    using fillsD(3) [OF F] ne by (simp add: h1 dn_eq)
  have agg2: "h2 agg = (orders me agg)\<lparr>quantity := r\<rparr>"
    using fillsD(4) [OF F D(5)] by (simp add: h1)
  have out: "h2 c = orders me c" if "c \<notin> insert agg (live b q)" for c
    using fillsD(4) [OF F, of c] that by (simp add: h1)
  have pool3: "pool me3 = ?p"
    using posted_fields(1) [OF P(1)] by (simp add: set_orders_def)
  have pool4: "pool me4 = (if dn then release ?p a else ?p)"
    by (simp add: me4 pool_release_def pool3)
  have ord4: "orders me4 = (if dn then h2(a := (h2 a)\<lparr>nxt := freelist_head ?p, prv := None\<rparr>) else h2)"
    by (simp add: orders_def pool4)
  have pr: "pool_repr ?p fl"
    using S out by (rule sweeping_pool_frame)
  have pr4: "pool_repr (pool me4) fl1"
    using pr release_repr [OF pr, of a] al D(7,8) by (auto simp: pool4 fl1)
  have notin: "dn \<Longrightarrow> a \<notin> live b1 q1"
    by (simp add: lv)
  note F4 = outside_frame [OF fillsD(1) [OF F] notin]
  have B4: "book_repr (orders me4) b1 q1" "side_view (orders me4) b1 q1 s' = side_view h2 b1 q1 s'"
    "book_qty_ok h2 b1 q1 \<Longrightarrow> book_qty_ok (orders me4) b1 q1"
    "index_complete h2 b1 q1 \<Longrightarrow> index_complete (orders me4) b1 q1" for s'
    using F4 fillsD(1) [OF F] by (auto simp: ord4)
  show "side_view (orders me4) b1 q1 s' = side_view h2 b1 q1 s'"
    by (rule B4)
  have rest4: "books me4 = books me3" "inbound me4 = inbound me3" "orders_processed me4 = orders_processed me3"
    "fills_executed me4 = fills_executed me3" "orders_rejected me4 = orders_rejected me3" "clock me4 = clock me3"
    "clock_calls me4 = clock_calls me3" "sent me4 = sent me3" "out_ok me4 = out_ok me3"
    by (simp_all add: me4 pool_release_def sent_def out_ok_def)
  have "sweeping me4 b1 q1 fl1 agg"
    unfolding sweeping_def using pr4 B4(1) rest4(9) posted_fields(9) [OF P(1)] D lv ne al
    by (auto simp: pool4 fl1)
  moreover have "set fl1 \<union> live b1 q1 = set fl \<union> live b q" "live b1 q1 \<subseteq> live b q"
    using lv al by (auto simp: fl1)
  moreover have "orders me4 c = orders me c" if "c \<notin> insert agg (live b q)" for c
    using out [OF that] that al by (auto simp: ord4)
  moreover have "orders me4 agg = (orders me agg)\<lparr>quantity := r\<rparr>"
    using agg2 ne by (simp add: ord4)
  moreover have "Capacity (pool me4) = Capacity (pool me)"
    by (simp add: pool4)
  moreover have "sent ((set_orders h2 me)\<lparr>fills_executed := fills_executed me + 1\<rparr>) = sent me"
    by (simp add: sent_def set_orders_def)
  moreover have "order_id (orders me4 c) = order_id (orders me c)" for c
  proof -
    have "order_id (orders me4 c) = order_id (h2 c)"
      by (simp add: ord4)
    also have "\<dots> = order_id (orders me c)"
      using fillsD(5) [OF F, of c] by (simp add: h1 split: if_splits)
    finally show ?thesis .
  qed
  ultimately show "swept me b q fl agg R r me4 b1 q1 fl1"
    unfolding swept_def
    using posted_fields [OF P(1)] rest4 P(2) fillsD(2,7,8) [OF F] O own B4
    by (simp add: set_orders_def)
qed

text \<open>
  What one full iteration amounts to: two reports, then the loop goes on from a state that
  the specification's first step describes.
\<close>

lemma do_sweep_step:
  assumes S: "sweeping me b q fl agg" and s: "s = is_buy (orders me agg)"
    and p: "prio b q (\<not> s) = a # as" and r: "r = quantity (orders me agg)" "r \<noteq> 0"
    and ok: "ok (price (orders me a))" and e: "e = entry_of (orders me) a" and f: "f = min (e_qty e) r"
  obtains R1 R2 me1 dn b1 q1 where
    "pair_reports (order_id (orders me agg)) r e = [R1, R2]" "out_ok me1" "\<And>k. can_send k me1 = can_send k me"
    "\<And>n. do_sweep (Suc n) ok agg me b = ebind (post R1 me1) (\<lambda>me2. ebind (post R2 me2)
       (\<lambda>me3. do_sweep n ok agg (if dn then pool_release a me3 else me3) b1))"
    "\<And>me3. posted me1 [R1, R2] me3 \<Longrightarrow>
       swept me b q fl agg [R1, R2] (r - f) (if dn then pool_release a me3 else me3) b1 q1
         (if dn then a # fl else fl) \<and>
       side_view (orders (if dn then pool_release a me3 else me3)) b1 q1 (\<not> s) =
         (if f = e_qty e then map (entry_of (orders me)) as
          else e\<lparr>e_qty := e_qty e - f\<rparr> # map (entry_of (orders me)) as)"
proof -
  note D = sweepingD [OF S]
  let ?h = "orders me"
  let ?h1 = "?h(agg := (?h agg)\<lparr>quantity := r - f\<rparr>)"
  have al: "a \<in> live b q" "a \<noteq> agg"
    using prio_live [of a b q "\<not> s"] p D(5) by auto
  note O = outside_frame [OF D(2,5), of "(?h agg)\<lparr>quantity := r - f\<rparr>"]
  obtain dn h2 b1 where out: "fill_resting_order ?h1 b (Some a) f = (dn, h2, b1)"
    by (metis prod.collapse)
  have "f \<le> quantity (?h1 a)"
    using al by (simp add: f e)
  then obtain q1 where dn1: "dn \<longleftrightarrow> f = quantity (?h1 a)" and F: "fills ?h1 b q a f h2 b1 q1"
    and V1: "side_view h2 b1 q1 (\<not> s) = (if f = quantity (?h1 a) then map (entry_of ?h1) as
       else (entry_of ?h1 a)\<lparr>e_qty := quantity (?h1 a) - f\<rparr> # map (entry_of ?h1) as)"
    and "side_view h2 b1 q1 (\<not> \<not> s) = side_view ?h1 b q (\<not> \<not> s)"
    by (rule fill_best [OF O(1) p _ out])
  then have own: "side_view h2 b1 q1 s = side_view ?h1 b q s" and dn: "dn \<longleftrightarrow> f = quantity (?h a)"
    using al by simp_all
  have agg2: "h2 agg = (?h agg)\<lparr>quantity := r - f\<rparr>"
    using fillsD(4) [OF F D(5)] by simp
  have a2: "order_id (h2 a) = order_id (?h a)" "quantity (h2 a) = quantity (?h a) - f"
    using fillsD(5) [OF F, of a] fillsD(6) [OF F] al by simp_all
  have "agg \<notin> set as"
    using prio_live [of agg b q "\<not> s"] p D(5) by auto
  then have ents: "entry_of ?h1 a = e" "map (entry_of ?h1) as = map (entry_of ?h) as"
    using al by (auto simp: entry_of_def e)
  have V: "side_view h2 b1 q1 (\<not> s) = (if f = e_qty e then map (entry_of ?h) as
      else e\<lparr>e_qty := e_qty e - f\<rparr> # map (entry_of ?h) as)"
    using V1 [unfolded ents] al(2) by (simp add: e)
  let ?me1 = "(set_orders h2 me)\<lparr>fills_executed := fills_executed me + 1\<rparr>"
  let ?R1 = "report (if dn then Fill else PartialFill) (order_id (?h a)) (order_id (?h agg)) (price (?h a)) f
     (quantity (?h a) - f)"
  let ?R2 = "report (if r - f = 0 then Fill else PartialFill) (order_id (?h agg)) (order_id (?h a))
     (price (?h a)) f (r - f)"
  note B = best_level [OF D(2), of "\<not> s"]
  have best: "(if is_buy (?h agg) then best_ask b else best_bid b) =
      Some (levels_of b (\<not> s) ! cursor b (\<not> s))"
    using B(1) p s by (cases s) simp_all
  show thesis
  proof (rule that)
    show "pair_reports (order_id (?h agg)) r e = [?R1, ?R2]"
      by (simp add: pair_reports_def f e dn Let_def)
    show "out_ok ?me1" "can_send k ?me1 = can_send k me" for k
      using D(3) by (simp_all add: out_ok_def can_send_def set_orders_def)
    show "do_sweep (Suc n) ok agg me b = ebind (post ?R1 ?me1) (\<lambda>me2. ebind (post ?R2 me2)
        (\<lambda>me3. do_sweep n ok agg (if dn then pool_release a me3 else me3) b1))" for n
      using r ok out by (simp add: best B(2,3) [OF p] Let_def f e agg2 a2 post_eqs)
    show "swept me b q fl agg [?R1, ?R2] (r - f) (if dn then pool_release a me3 else me3) b1 q1
         (if dn then a # fl else fl) \<and>
       side_view (orders (if dn then pool_release a me3 else me3)) b1 q1 (\<not> s) =
         (if f = e_qty e then map (entry_of ?h) as else e\<lparr>e_qty := e_qty e - f\<rparr> # map (entry_of ?h) as)"
      if "posted ?me1 [?R1, ?R2] me3" for me3
      using sweep_after [OF S al(1) refl F dn own s that _ refl refl] V by simp
  qed
qed

subsection \<open>The whole loop\<close>

text \<open>\<open>sweep_meets\<close> is the contract of a run of the loop against the specification's result.\<close>

definition sweep_meets ::
  "MatchingEngine \<Rightarrow> OrderBook \<Rightarrow> queues \<Rightarrow> addr list \<Rightarrow> addr \<Rightarrow>
   ExecutionReport list \<times> Quantity \<times> Entry list \<Rightarrow> fault + (MatchingEngine \<times> OrderBook) \<Rightarrow> bool" where
  "sweep_meets me b q fl agg spec x \<longleftrightarrow>
     (case spec of (reps, r', es') \<Rightarrow>
       run_meets (length reps) me (\<lambda>(me', b'). \<exists>q' fl'. swept me b q fl agg reps r' me' b' q' fl' \<and>
         side_view (orders me') b' q' (\<not> is_buy (orders me agg)) = es') fst x)"

lemma sweep_meets_stop:
  assumes "sweeping me b q fl agg"
  shows "sweep_meets me b q fl agg
    ([], quantity (orders me agg), side_view (orders me) b q (\<not> is_buy (orders me agg))) (Inr (me, b))"
  unfolding sweep_meets_def prod.case list.size
  by (rule run_meets_return) (use swept_refl [OF assms] in auto)

lemma sweep_meets_step:
  assumes ok: "out_ok me1" and cs: "\<And>k. can_send k me1 = can_send k me"
    and rest: "\<And>me3. posted me1 [R1, R2] me3 \<Longrightarrow>
      swept me b q fl agg [R1, R2] r1 (after me3) b1 q1 fl1 \<and>
      sweep_meets (after me3) b1 q1 fl1 agg (reps, r', es') (cont me3) \<and>
      (\<forall>k. can_send k (after me3) = can_send k me3)"
  shows "sweep_meets me b q fl agg (R1 # R2 # reps, r', es')
    (ebind (post R1 me1) (\<lambda>me2. ebind (post R2 me2) cont))"
proof -
  let ?P = "\<lambda>(me', b'). \<exists>q' fl'. swept me b q fl agg (R1 # R2 # reps) r' me' b' q' fl' \<and>
    side_view (orders me') b' q' (\<not> is_buy (orders me agg)) = es'"
  have "run_meets (length reps) me3 ?P fst (cont me3)" if "posted me1 [R1, R2] me3" for me3
  proof -
    note A = rest [OF that]
    have buy: "is_buy (orders (after me3) agg) = is_buy (orders me agg)"
      using sweptD(6) [OF conjunct1 [OF A]] by simp
    have "run_meets (length reps) (after me3) (\<lambda>(me', b'). \<exists>q' fl'.
        swept (after me3) b1 q1 fl1 agg reps r' me' b' q' fl' \<and>
        side_view (orders me') b' q' (\<not> is_buy (orders me agg)) = es') fst (cont me3)"
      using A by (simp add: sweep_meets_def buy)
    then have "run_meets (length reps) (after me3) ?P fst (cont me3)"
      by (rule run_meets_mono) (use swept_trans [OF conjunct1 [OF A]] in fastforce)
    then show ?thesis
      using A by (blast intro: run_meets_start)
  qed
  then have "run_meets (length reps + 1) me2 ?P fst (ebind (post R2 me2) cont)" if "posted me1 [R1] me2" for me2
    unfolding add.commute [of _ 1] using posted_trans [OF that]
    by (intro run_meets_bind [OF run_meets_post [OF posted_fields(9) [OF that]]]) fastforce
  then have "run_meets (1 + (length reps + 1)) me1 ?P fst (ebind (post R1 me1) (\<lambda>me2. ebind (post R2 me2) cont))"
    by (rule run_meets_bind [OF run_meets_post [OF ok]])
  then show ?thesis
    using cs by (auto simp: sweep_meets_def intro: run_meets_start)
qed

lemma pair_reports_length [simp]: "length (pair_reports aid r e) = 2"
  by (simp add: pair_reports_def Let_def)

lemma can_send_release [simp]: "can_send k (pool_release a me) = can_send k me"
  by (simp add: can_send_def pool_release_def)

lemma do_sweep_zero: "quantity (orders me agg) = 0 \<Longrightarrow> do_sweep (Suc n) ok agg me b = Inr (me, b)"
  by simp

lemma do_sweep_stop:
  assumes S: "sweeping me b q fl agg" and s: "s = is_buy (orders me agg)"
    and stop: "case prio b q (\<not> s) of [] \<Rightarrow> True | a # _ \<Rightarrow> \<not> ok (price (orders me a))"
  shows "do_sweep (Suc n) ok agg me b = Inr (me, b)"
proof -
  note B = best_level [OF sweepingD(2) [OF S], of "\<not> s"]
  have best: "(if is_buy (orders me agg) then best_ask b else best_bid b) =
      (if prio b q (\<not> s) = [] then None else Some (levels_of b (\<not> s) ! cursor b (\<not> s)))"
    using B(1) s by (cases s) simp_all
  show ?thesis
    using stop B(2) by (cases "prio b q (\<not> s)") (simp_all add: best Let_def)
qed

lemma prio_qty: "book_repr h b q \<Longrightarrow> c \<in> set (prio b q s) \<Longrightarrow> quantity (h c) \<noteq> 0"
  using queues_okD(2) [OF book_reprD(2)] by (fastforce simp: set_prio order_at_def)

lemma match_spec_zero: "match_spec ok aid 0 es = ([], 0, es)"
  by (cases es) simp_all

text \<open>The specification, one step at a time.\<close>

lemma match_spec_step:
  assumes r: "r \<noteq> 0" "ok (e_price e)" and f: "f = min (e_qty e) r"
    and R: "pair_reports aid r e = [R1, R2]"
    and rest: "match_spec ok aid (r - f) (if f = e_qty e then es else e\<lparr>e_qty := e_qty e - f\<rparr> # es) = (reps, r', es')"
  shows "match_spec ok aid r (e # es) = (R1 # R2 # reps, r', es')"
proof (cases "f = e_qty e")
  case True
  then show ?thesis
    using assms by simp
next
  case False
  then have "f = r"
    using f by (simp add: min_def split: if_splits)
  then have "reps = []" "r' = 0" "es' = e\<lparr>e_qty := e_qty e - r\<rparr> # es"
    using rest False by (simp_all add: match_spec_zero del: match_spec.simps)
  moreover have "min (e_qty e) r = r" "r \<noteq> e_qty e"
    using \<open>f = r\<close> f False by auto
  ultimately show ?thesis
    using r R by simp
qed

lemma do_sweep_meets:
  assumes "sweeping me b q fl agg" and "s = is_buy (orders me agg)"
    and "unat (quantity (orders me agg)) < n"
  shows "sweep_meets me b q fl agg
    (match_spec ok (order_id (orders me agg)) (quantity (orders me agg)) (side_view (orders me) b q (\<not> s)))
    (do_sweep n ok agg me b)"
  using assms
proof (induction n arbitrary: me b q fl)
  case (Suc n)
  note S = Suc.prems(1) and s = Suc.prems(2)
  let ?r = "quantity (orders me agg)" and ?aid = "order_id (orders me agg)"
  let ?es = "side_view (orders me) b q (\<not> s)"
  consider "?r = 0" | "prio b q (\<not> s) = []"
    | a as where "?r \<noteq> 0" "prio b q (\<not> s) = a # as" "\<not> ok (price (orders me a))"
    | a as where "?r \<noteq> 0" "prio b q (\<not> s) = a # as" "ok (price (orders me a))"
    by (cases "prio b q (\<not> s)") auto
  then show ?case
  proof cases
    case 1
    then show ?thesis
      using sweep_meets_stop [OF S] s by (simp add: match_spec_zero del: do_sweep.simps add: do_sweep_zero)
  next
    case 2
    then have "?es = []"
      by (simp add: side_view_def)
    then show ?thesis
      using sweep_meets_stop [OF S] do_sweep_stop [OF S s, of ok n] 2 s by simp
  next
    case (3 a as)
    then have "match_spec ok ?aid ?r ?es = ([], ?r, ?es)"
      by (simp add: side_view_def)
    then show ?thesis
      using sweep_meets_stop [OF S] do_sweep_stop [OF S s, of ok n] 3 s by simp
  next
    case (4 a as)
    define e where "e = entry_of (orders me) a"
    define f where "f = min (e_qty e) ?r"
    obtain R1 R2 me1 dn b1 q1 where st: "pair_reports ?aid ?r e = [R1, R2]" "out_ok me1"
      "\<And>k. can_send k me1 = can_send k me"
      "\<And>n. do_sweep (Suc n) ok agg me b = ebind (post R1 me1) (\<lambda>me2. ebind (post R2 me2)
         (\<lambda>me3. do_sweep n ok agg (if dn then pool_release a me3 else me3) b1))"
      "\<And>me3. posted me1 [R1, R2] me3 \<Longrightarrow>
         swept me b q fl agg [R1, R2] (?r - f) (if dn then pool_release a me3 else me3) b1 q1
           (if dn then a # fl else fl) \<and>
         side_view (orders (if dn then pool_release a me3 else me3)) b1 q1 (\<not> s) =
           (if f = e_qty e then map (entry_of (orders me)) as
            else e\<lparr>e_qty := e_qty e - f\<rparr> # map (entry_of (orders me)) as)"
      using do_sweep_step [of me b q fl agg s a as ?r ok e f, OF S s 4(2) refl 4(1,3) e_def f_def] by blast
    obtain reps r' es' where sp: "match_spec ok ?aid (?r - f) (if f = e_qty e then map (entry_of (orders me)) as
        else e\<lparr>e_qty := e_qty e - f\<rparr> # map (entry_of (orders me)) as) = (reps, r', es')"
      by (metis prod.collapse)
    have "e_qty e \<noteq> 0"
      using prio_qty [OF sweepingD(2) [OF S], of a "\<not> s"] 4(2) by (simp add: e_def)
    then have f0: "f \<noteq> 0" "f \<le> ?r"
      using 4(1) by (auto simp: f_def min_def)
    then have "unat (?r - f) = unat ?r - unat f" "0 < unat f" "unat f \<le> unat ?r"
      by (auto simp: unat_sub word_le_nat_alt unat_gt_0)
    then have dec: "unat (?r - f) < n"
      using Suc.prems(3) by linarith
    have spec: "match_spec ok ?aid ?r ?es = (R1 # R2 # reps, r', es')"
      using match_spec_step [OF 4(1) _ f_def st(1) sp] 4(2,3) by (simp add: side_view_def e_def)
    show ?thesis
      unfolding spec st(4)
    proof (rule sweep_meets_step [where ?fl1.0 = "if dn then a # fl else fl"
          and after = "\<lambda>me3. if dn then pool_release a me3 else me3", OF st(2,3)])
      fix me3
      assume "posted me1 [R1, R2] me3"
      note A = st(5) [OF this]
      let ?me4 = "if dn then pool_release a me3 else me3"
      have agg: "orders ?me4 agg = (orders me agg)\<lparr>quantity := ?r - f\<rparr>"
        using sweptD(6) A by blast
      have "sweep_meets ?me4 b1 q1 (if dn then a # fl else fl) agg
          (match_spec ok (order_id (orders ?me4 agg)) (quantity (orders ?me4 agg))
            (side_view (orders ?me4) b1 q1 (\<not> s))) (do_sweep n ok agg ?me4 b1)"
        using A dec s by (intro Suc.IH) (auto simp: agg intro: sweptD(1))
      then show "swept me b q fl agg [R1, R2] (?r - f) ?me4 b1 q1 (if dn then a # fl else fl) \<and>
          sweep_meets ?me4 b1 q1 (if dn then a # fl else fl) agg (reps, r', es') (do_sweep n ok agg ?me4 b1) \<and>
          (\<forall>k. can_send k ?me4 = can_send k me3)"
        using A sp by (simp add: agg)
    qed
  qed
qed simp

end
