(* ===== verification/Engine_Spec.thy ===== *)
theory Engine_Spec
  imports Engine_Refine
begin

section \<open>What each order type does\<close>

text \<open>
  \<open>order_spec\<close> gives, for an incoming order and the two priority lists of its book, the
  reports it causes and the lists it leaves behind; \<open>route_refines\<close> shows that
  \<open>match_limit\<close>, \<open>match_market\<close>, \<open>match_ioc\<close>, \<open>match_fok\<close> and the rejection of an
  unknown type implement it. The first part holds the facts about \<open>match_spec\<close> itself:
  conservation of quantity, maximality, priority.
\<close>

subsection \<open>The matching specification\<close>

definition total_qty :: "Entry list \<Rightarrow> nat" where
  "total_qty es = sum_list (map (\<lambda>e. unat (e_qty e)) es)"

definition is_trade :: "ExecutionReport \<Rightarrow> bool" where
  "is_trade r \<longleftrightarrow> er_kind r = Fill \<or> er_kind r = PartialFill"

text \<open>The quantity the reports of an order say it traded.\<close>

definition traded :: "OrderId \<Rightarrow> ExecutionReport list \<Rightarrow> nat" where
  "traded oid rs = sum_list (map (\<lambda>r. unat (er_exec_quantity r))
     (filter (\<lambda>r. is_trade r \<and> er_order_id r = oid) rs))"

lemma total_qty_simps [simp]:
  "total_qty [] = 0" "total_qty (e # es) = unat (e_qty e) + total_qty es"
  "total_qty (es @ es') = total_qty es + total_qty es'"
  by (simp_all add: total_qty_def)

lemma report_simps [simp]:
  "er_kind (report k oid cid p xq lq) = k" "er_order_id (report k oid cid p xq lq) = oid"
  "er_counterpart_order_id (report k oid cid p xq lq) = cid" "er_exec_price (report k oid cid p xq lq) = p"
  "er_exec_quantity (report k oid cid p xq lq) = xq" "er_leaves_quantity (report k oid cid p xq lq) = lq"
  by (simp_all add: report_def)

text \<open>Case analysis of one step, the shape in which the facts below use it.\<close>

lemma match_spec_cases:
  assumes "match_spec ok aid r (e # es) = (reps, r', es')"
  obtains (stop) "r = 0 \<or> \<not> ok (e_price e)" "reps = []" "r' = r" "es' = e # es"
  | (full) reps1 where "r \<noteq> 0" "ok (e_price e)" "e_qty e \<le> r"
      "match_spec ok aid (r - e_qty e) es = (reps1, r', es')" "reps = pair_reports aid r e @ reps1"
  | (part) "r \<noteq> 0" "ok (e_price e)" "r < e_qty e" "reps = pair_reports aid r e" "r' = 0"
      "es' = e\<lparr>e_qty := e_qty e - r\<rparr> # es"
proof (cases "r = 0 \<or> \<not> ok (e_price e)")
  case True
  then have "reps = []" "r' = r" "es' = e # es"
    using assms by auto
  with True show thesis
    by (rule stop)
next
  case go: False
  show thesis
  proof (cases "e_qty e \<le> r")
    case True
    then have "min (e_qty e) r = e_qty e"
      by simp
    moreover obtain reps1 r1 es1 where m: "match_spec ok aid (r - e_qty e) es = (reps1, r1, es1)"
      by (metis prod.collapse)
    ultimately have "reps = pair_reports aid r e @ reps1" "r' = r1" "es' = es1"
      using assms go by simp_all
    then show thesis
      using full [OF _ _ True, of reps1] m go by blast
  next
    case False
    then have "min (e_qty e) r = r" "r \<noteq> e_qty e"
      by auto
    then have "reps = pair_reports aid r e" "r' = 0" "es' = e\<lparr>e_qty := e_qty e - r\<rparr> # es"
      using assms go by auto
    then show thesis
      using part go False by (simp only: not_le not_False_eq_True de_Morgan_disj not_not)
  qed
qed

lemma pair_reports_trade: "x \<in> set (pair_reports aid r e) \<Longrightarrow> is_trade x \<and> er_exec_price x = e_price e"
  by (auto simp: pair_reports_def Let_def is_trade_def split: if_splits)

lemma match_spec_trades:
  "match_spec ok aid r es = (reps, r', es') \<Longrightarrow> x \<in> set reps \<Longrightarrow> is_trade x \<and> ok (er_exec_price x)"
proof (induction es arbitrary: r reps)
  case (Cons e es)
  from Cons.prems(1) show ?case
  proof (cases rule: match_spec_cases)
    case (full reps1)
    then show ?thesis
      using Cons.IH [OF full(4)] Cons.prems(2) by (auto dest: pair_reports_trade)
  next
    case part
    then show ?thesis
      using Cons.prems(2) by (auto dest: pair_reports_trade)
  qed (use Cons.prems in simp)
qed simp

lemma match_spec_conserves:
  assumes "match_spec ok aid r es = (reps, r', es')"
  shows "r' \<le> r" "total_qty es = total_qty es' + (unat r - unat r')"
proof -
  have "r' \<le> r \<and> total_qty es = total_qty es' + (unat r - unat r')"
    using assms
  proof (induction es arbitrary: r reps)
    case (Cons e es)
    from Cons.prems show ?case
    proof (cases rule: match_spec_cases)
      case (full reps1)
      then show ?thesis
        using Cons.IH [OF full(4)] by (auto simp: word_le_nat_alt unat_sub)
    next
      case part
      then show ?thesis
        by (auto simp: word_le_nat_alt unat_sub word_less_nat_alt)
    qed simp
  qed simp
  then show "r' \<le> r" "total_qty es = total_qty es' + (unat r - unat r')"
    by auto
qed

lemma traded_append [simp]: "traded oid (rs @ ss) = traded oid rs + traded oid ss"
  by (simp add: traded_def)

lemma traded_pair: "e_id e \<noteq> aid \<Longrightarrow> traded aid (pair_reports aid r e) = unat (min (e_qty e) r)"
  by (auto simp: traded_def pair_reports_def Let_def is_trade_def)

text \<open>The aggressor's own reports add up to what it lost.\<close>

lemma match_spec_traded:
  assumes "match_spec ok aid r es = (reps, r', es')" and "\<forall>e \<in> set es. e_id e \<noteq> aid"
  shows "unat r = unat r' + traded aid reps"
  using assms
proof (induction es arbitrary: r reps)
  case (Cons e es)
  from Cons.prems(1) show ?case
  proof (cases rule: match_spec_cases)
    case (full reps1)
    then have "traded aid reps = unat (e_qty e) + traded aid reps1"
      using Cons.prems(2) by (simp add: traded_pair min_absorb1 min_def)
    then show ?thesis
      using Cons.IH [OF full(4)] Cons.prems(2) full(3) by (simp add: unat_sub word_le_nat_alt)
  next
    case part
    then show ?thesis
      using Cons.prems(2) by (simp add: traded_pair min_absorb2)
  qed (simp add: traded_def)
qed (simp add: traded_def)

text \<open>Maximality: quantity is left over only if nothing that qualifies is left.\<close>

lemma match_spec_maximal:
  "match_spec ok aid r es = (reps, r', es') \<Longrightarrow> r' \<noteq> 0 \<Longrightarrow> es' = [] \<or> \<not> ok (e_price (hd es'))"
proof (induction es arbitrary: r reps)
  case (Cons e es)
  from Cons.prems(1) show ?case
  proof (cases rule: match_spec_cases)
    case (full reps1)
    then show ?thesis
      using Cons.IH [OF full(4)] Cons.prems(2) by simp
  qed (use Cons.prems in auto)
qed simp

text \<open>
  Priority: the orders that trade are a prefix of the priority list; all but the last are
  filled completely, the last is reduced in place, and the rest is untouched.
\<close>

lemma match_spec_prefix:
  assumes "match_spec ok aid r es = (reps, r', es')"
  obtains (exact) pre where "es = pre @ es'" "\<forall>e \<in> set pre. ok (e_price e)"
      "map er_order_id reps = concat (map (\<lambda>e. [e_id e, aid]) pre)"
  | (part) pre e es1 f where "es = pre @ e # es1" "\<forall>x \<in> set (pre @ [e]). ok (e_price x)"
      "es' = e\<lparr>e_qty := e_qty e - f\<rparr> # es1" "0 < f" "f < e_qty e" "r' = 0"
      "map er_order_id reps = concat (map (\<lambda>e. [e_id e, aid]) (pre @ [e]))"
  using assms
proof (induction es arbitrary: r reps thesis)
  case Nil
  then show ?case by simp
next
  case (Cons e es)
  have ids: "map er_order_id (pair_reports aid r e) = [e_id e, aid]"
    by (simp add: pair_reports_def Let_def)
  from Cons.prems(3) show ?case
  proof (cases rule: match_spec_cases)
    case stop
    then show ?thesis
      using Cons.prems(1) [of "[]"] by simp
  next
    case (full reps1)
    show ?thesis
    proof (rule Cons.IH [OF _ _ full(4)])
      fix pre assume "es = pre @ es'" "\<forall>e \<in> set pre. ok (e_price e)"
        "map er_order_id reps1 = concat (map (\<lambda>e. [e_id e, aid]) pre)"
      then show ?thesis
        using Cons.prems(1) [of "e # pre"] full ids by simp
    next
      fix pre x es1 f assume "es = pre @ x # es1" "\<forall>x \<in> set (pre @ [x]). ok (e_price x)"
        "es' = x\<lparr>e_qty := e_qty x - f\<rparr> # es1" "0 < f" "f < e_qty x" "r' = 0"
        "map er_order_id reps1 = concat (map (\<lambda>e. [e_id e, aid]) (pre @ [x]))"
      then show ?thesis
        using Cons.prems(2) [of "e # pre" x es1 f] full ids by simp
    qed
  next
    case part
    then show ?thesis
      using Cons.prems(2) [of "[]" e es r] ids by (simp add: word_neq_0_conv)
  qed
qed

text \<open>On a sorted list nothing that qualifies hides behind an entry that does not.\<close>

lemma sorted_crosses:
  assumes "price_sorted (\<not> s) (e # es)" and "\<not> crosses s l (e_price e)" and "x \<in> set (e # es)"
  shows "\<not> crosses s l (e_price x)"
  using assms by (auto simp: price_sorted_def crosses_def better_def split: if_splits)

lemma crossing_qty_simps:
  "crossing_qty s l [] = 0"
  "crossing_qty s l (e # es) = (if crosses s l (e_price e) then unat (e_qty e) else 0) + crossing_qty s l es"
  by (simp_all add: crossing_qty_def)

lemma crossing_qty_zero: "(\<And>x. x \<in> set es \<Longrightarrow> \<not> crosses s l (e_price x)) \<Longrightarrow> crossing_qty s l es = 0"
  by (induction es) (simp_all add: crossing_qty_simps)

text \<open>What is left of the aggressor is what the crossing volume could not cover.\<close>

lemma match_spec_left:
  assumes "match_spec (crosses s l) aid r es = (reps, r', es')" and "price_sorted (\<not> s) es"
  shows "unat r' = unat r - crossing_qty s l es"
  using assms
proof (induction es arbitrary: r reps)
  case (Cons e es)
  have srt: "price_sorted (\<not> s) es"
    using Cons.prems(2) by (simp add: price_sorted_def)
  from Cons.prems(1) show ?case
  proof (cases rule: match_spec_cases)
    case stop
    then show ?thesis
      using crossing_qty_zero [of "e # es" s l] sorted_crosses [OF Cons.prems(2)] by auto
  next
    case (full reps1)
    then show ?thesis
      using Cons.IH [OF full(4) srt] by (simp add: crossing_qty_simps unat_sub)
  next
    case part
    then show ?thesis
      by (simp add: crossing_qty_simps word_less_nat_alt)
  qed
qed (simp add: crossing_qty_simps)

lemma match_spec_sorted:
  assumes "match_spec ok aid r es = (reps, r', es')" and "price_sorted s es"
  shows "price_sorted s es'"
  using assms
proof (induction es arbitrary: r reps)
  case (Cons e es)
  from Cons.prems(1) show ?case
  proof (cases rule: match_spec_cases)
    case (full reps1)
    then show ?thesis
      using Cons.IH [OF full(4)] Cons.prems(2) by (simp add: price_sorted_def)
  qed (use Cons.prems(2) price_sorted_def in auto)
qed simp

lemma match_spec_none_cross:
  assumes m: "match_spec (crosses s l) aid r es = (reps, r', es')" and srt: "price_sorted (\<not> s) es"
    and r: "r' \<noteq> 0" and x: "x \<in> set es'"
  shows "\<not> crosses s l (e_price x)"
proof (cases es')
  case (Cons e es1)
  then show ?thesis
    using match_spec_maximal [OF m r] match_spec_sorted [OF m srt] x sorted_crosses [of s e es1 l x] by simp
qed (use x in simp)

subsection \<open>The specification of the order types\<close>

text \<open>
  \<open>e\<close> is the incoming order as an entry, \<open>own\<close> and \<open>opp\<close> the lists of its own and of the
  opposite side, \<open>valid\<close> whether its price is one of the book's levels, \<open>av\<close> the
  liquidity a fill-or-kill order is checked against.
\<close>

definition residual_ack :: "OrderId \<Rightarrow> Quantity \<Rightarrow> ExecutionReport list" where
  "residual_ack oid r = (if r = 0 then [] else [report CancelAck oid 0 0 0 r])"

fun order_spec ::
  "OrderType \<Rightarrow> bool \<Rightarrow> bool \<Rightarrow> Quantity \<Rightarrow> Entry \<Rightarrow> Entry list \<Rightarrow> Entry list \<Rightarrow>
   ExecutionReport list \<times> Entry list \<times> Entry list" where
  "order_spec Limit s valid av e own opp =
     (let (reps, r, opp') = match_spec (crosses s (e_price e)) (e_id e) (e_qty e) opp
      in (reps, if r = 0 \<or> \<not> valid then own else insert_entry s (e\<lparr>e_qty := r\<rparr>) own, opp'))"
| "order_spec Market s valid av e own opp =
     (let (reps, r, opp') = match_spec (\<lambda>_. True) (e_id e) (e_qty e) opp
      in (reps @ residual_ack (e_id e) r, own, opp'))"
| "order_spec IOC s valid av e own opp =
     (let (reps, r, opp') = match_spec (crosses s (e_price e)) (e_id e) (e_qty e) opp
      in (reps @ residual_ack (e_id e) r, own, opp'))"
| "order_spec FOK s valid av e own opp =
     (if av < e_qty e then ([report Reject (e_id e) 0 0 0 (e_qty e)], own, opp)
      else
        (let (reps, r, opp') = match_spec (crosses s (e_price e)) (e_id e) (e_qty e) opp
         in (reps, own, opp')))"
| "order_spec (OrderType_raw _) s valid av e own opp =
     ([report Reject (e_id e) 0 0 0 (e_qty e)], own, opp)"

text \<open>
  The pool slot of an order is free again or in the book afterwards, except for a limit
  order that does not trade completely and whose price is not a level of the book.
\<close>

definition slot_kept :: "OrderType \<Rightarrow> bool \<Rightarrow> bool \<Rightarrow> Entry \<Rightarrow> Entry list \<Rightarrow> bool" where
  "slot_kept ty s valid e opp \<longleftrightarrow>
     (ty = Limit \<longrightarrow> valid \<or>
        fst (snd (match_spec (crosses s (e_price e)) (e_id e) (e_qty e) opp)) = 0)"

end
