(* ===== verification/Engine_Route.thy ===== *)
theory Engine_Route
  imports Engine_Spec
begin

section \<open>The order types implement their specification\<close>

text \<open>
  \<open>routed\<close> relates the engine and the book before and after an order has been routed: the
  book and the pool are well-formed again and share no slot, only the order's own slot and
  the book's slots may have changed, the reports are those given, the counters count
  them. \<open>route_refines\<close> is the contract of \<open>route\<close> against \<open>order_spec\<close>.
\<close>

definition settled :: "MatchingEngine \<Rightarrow> OrderBook \<Rightarrow> queues \<Rightarrow> addr list \<Rightarrow> bool" where
  "settled me b q fl \<longleftrightarrow>
     pool_repr (pool me) fl \<and> book_repr (orders me) b q \<and> out_ok me \<and>
     live b q \<inter> set fl = {} \<and> live b q \<subseteq> {..<Capacity (pool me)}"

lemma sweeping_settled:
  "sweeping me b q fl agg \<longleftrightarrow>
     settled me b q fl \<and> agg < Capacity (pool me) \<and> agg \<notin> live b q \<and> agg \<notin> set fl"
  by (auto simp: sweeping_def settled_def)

definition routed ::
  "MatchingEngine \<Rightarrow> OrderBook \<Rightarrow> queues \<Rightarrow> addr list \<Rightarrow> addr \<Rightarrow> ExecutionReport list \<Rightarrow>
   MatchingEngine \<Rightarrow> OrderBook \<Rightarrow> queues \<Rightarrow> addr list \<Rightarrow> bool" where
  "routed me b q fl agg reps me' b' q' fl' \<longleftrightarrow>
     settled me' b' q' fl' \<and> same_grid b b' \<and> set fl \<subseteq> set fl' \<and> live b' q' \<subseteq> insert agg (live b q) \<and>
     set fl' \<union> live b' q' \<subseteq> insert agg (set fl \<union> live b q) \<and>
     set fl \<union> live b q \<subseteq> set fl' \<union> live b' q' \<and>
     (\<forall>c. c \<notin> insert agg (live b q) \<longrightarrow> orders me' c = orders me c) \<and>
     Capacity (pool me') = Capacity (pool me) \<and> books me' = books me \<and> inbound me' = inbound me \<and>
     orders_processed me' = orders_processed me \<and> clock me' = clock me \<and>
     clock_calls me' = clock_calls me + length reps \<and>
     sent me' = sent me @ stamp (clock me) (clock_calls me) reps \<and>
     fills_executed me' = fills_executed me + of_nat (length (filter is_trade reps) div 2) \<and>
     orders_rejected me' = orders_rejected me + of_nat (length (filter (\<lambda>r. er_kind r = Reject) reps)) \<and>
     (book_qty_ok (orders me) b q \<longrightarrow>
        total_qty (side_view (orders me') b' q' (is_buy (orders me agg))) < 2 ^ 32 \<longrightarrow>
        book_qty_ok (orders me') b' q') \<and>
     (index_complete (orders me) b q \<longrightarrow>
        (\<forall>c \<in> live b q. order_id (orders me c) \<noteq> order_id (orders me agg)) \<longrightarrow>
        index_complete (orders me') b' q')"

text \<open>A sweep followed by further reports and the release of the aggressor's slot.\<close>

lemma swept_release:
  assumes S: "sweeping me b q fl agg" and W: "swept me b q fl agg reps r me1 b1 q1 fl1"
    and P: "posted me1 extra me2"
    and trade: "\<forall>x \<in> set reps. is_trade x" and ack: "\<forall>x \<in> set extra. er_kind x = CancelAck"
  shows "routed me b q fl agg (reps @ extra) (pool_release agg me2) b1 q1 (agg # fl1)"
    "side_view (orders (pool_release agg me2)) b1 q1 s = side_view (orders me1) b1 q1 s"
proof -
  note D = sweepingD [OF sweptD(1) [OF W]] and E = sweptD [OF W] and F = posted_fields [OF P]
  let ?me = "pool_release agg me2"
  have ord: "orders ?me = (orders me1)(agg := (orders me1 agg)\<lparr>nxt := freelist_head (pool me1), prv := None\<rparr>)"
    using F(1) by (simp add: pool_release_def orders_def)
  note O = outside_frame [OF D(2,5), of "(orders me1 agg)\<lparr>nxt := freelist_head (pool me1), prv := None\<rparr>", folded ord]
  show "side_view (orders ?me) b1 q1 s = side_view (orders me1) b1 q1 s"
    by (rule O(2))
  have pr: "pool_repr (pool ?me) (agg # fl1)"
    using release_repr [OF D(1,4,6)] F(1) by (simp add: pool_release_def)
  have same: "out_ok ?me = out_ok me2" "sent ?me = sent me2" "books ?me = books me2" "inbound ?me = inbound me2"
    "orders_processed ?me = orders_processed me2" "fills_executed ?me = fills_executed me2"
    "orders_rejected ?me = orders_rejected me2" "clock ?me = clock me2" "clock_calls ?me = clock_calls me2"
    "Capacity (pool ?me) = Capacity (pool me2)"
    by (simp_all add: pool_release_def out_ok_def sent_def)
  have "settled ?me b1 q1 (agg # fl1)"
    unfolding settled_def using pr O(1) F(9,1) D same by auto
  moreover have "filter is_trade reps = reps" "filter is_trade extra = []"
    "filter (\<lambda>r. er_kind r = Reject) (reps @ extra) = []"
    using trade ack by (auto simp: filter_empty_conv is_trade_def filter_id_conv)
  moreover have "orders ?me c = orders me c" if "c \<notin> insert agg (live b q)" for c
    using E(5) [OF that] that by (auto simp: ord)
  moreover have "set fl \<subseteq> set fl1"
    using E(3,4) sweepingD(7) [OF S] by blast
  ultimately show "routed me b q fl agg (reps @ extra) ?me b1 q1 (agg # fl1)"
    unfolding routed_def same using E F O by auto
qed

subsection \<open>Resting a residual\<close>

text \<open>There is always room in a level for one more: the pool is smaller than the counter's range.\<close>

lemma level_room:
  assumes S: "sweeping me b q fl agg" and cap: "Capacity (pool me) < 2 ^ 32" and iN: "i < num_levels b"
  shows "Suc (length (q s i)) < 2 ^ 32"
proof -
  note D = sweepingD [OF S]
  have dist: "distinct (q s i)"
    using queues_okD(1) [OF book_reprD(2) [OF D(2)] iN, of s] by (simp add: level_repr_def)
  have sub: "insert agg (set (q s i)) \<subseteq> {..<Capacity (pool me)}" "agg \<notin> set (q s i)"
    using D(4,5,8) live_at [OF iN, of _ q s] by auto
  have "card (insert agg (set (q s i))) \<le> Capacity (pool me)"
    using card_mono [OF _ sub(1)] by simp
  then show ?thesis
    using cap sub(2) dist by (simp add: distinct_card)
qed

lemma add_order_complete:
  assumes C: "index_complete h b q" and I: "index_ok h b q"
    and fresh: "\<forall>c \<in> live b q. order_id (h c) \<noteq> order_id (h a)"
    and eq: "\<And>c. order_id (h' c) = order_id (h c)"
    and lv: "live b' q' = insert a (live b q)"
    and ix: "order_index b' = index_emplace (order_index b) (order_id (h a)) a"
  shows "index_complete h' b' q'"
proof -
  have "index_find (order_index b) (order_id (h a)) = None"
    using I fresh by (cases "index_find (order_index b) (order_id (h a))") (auto simp: index_ok_def)
  then show ?thesis
    using fresh index_completeD [OF C] by (auto simp: index_complete_def lv ix eq oi.look_ins)
qed

lemma qty_sum_le_view:
  assumes "i < num_levels b"
  shows "qty_sum h (q s i) \<le> total_qty (side_view h b q s)"
proof -
  obtain us vs where "prio b q s = us @ q s i @ vs"
    using prio_at_level [OF assms, of q s] by metis
  then show ?thesis
    by (simp add: side_view_def total_qty_def qty_sum_def o_def)
qed

lemma rest_order:
  assumes S: "sweeping me b q fl agg" and cap: "Capacity (pool me) < 2 ^ 32"
    and act: "is_active (orders me agg)" and r: "quantity (orders me agg) \<noteq> 0"
    and valid: "is_valid_price b (price (orders me agg))"
    and add: "add_order (orders me) b (Some agg) = (h, b')" and s: "s = is_buy (orders me agg)"
  obtains q' where "settled (set_orders h me) b' q' fl" "same_grid b b'" "live b' q' = insert agg (live b q)"
    "\<And>c. c \<notin> insert agg (live b q) \<Longrightarrow> h c = orders me c"
    "side_view h b' q' s = insert_entry s (entry_of (orders me) agg) (side_view (orders me) b q s)"
    "side_view h b' q' (\<not> s) = side_view (orders me) b q (\<not> s)"
    "book_qty_ok (orders me) b q \<Longrightarrow> total_qty (side_view h b' q' s) < 2 ^ 32 \<Longrightarrow> book_qty_ok h b' q'"
    "index_complete (orders me) b q \<Longrightarrow>
       \<forall>c \<in> live b q. order_id (orders me c) \<noteq> order_id (orders me agg) \<Longrightarrow> index_complete h b' q'"
proof -
  note D = sweepingD [OF S]
  define i where "i = tick_to_index b (price (orders me agg))"
  have iN: "i < num_levels b"
    using valid_price_index(1) [OF book_reprD(1) [OF D(2)] valid] by (simp add: i_def)
  note room = level_room [OF S cap iN, of s]
  note A = add_order_repr [OF D(2,5) valid r act s i_def room add]
    and V = add_order_view [OF D(2,5) valid r act s i_def room add]
  let ?q = "updq q s i (q s i @ [agg])"
  have lv: "live b' ?q = insert agg (live b q)"
    using live_updq_insert [OF iN] same_gridD(5) [OF A(3)] by simp
  have fr: "h c = orders me c" if "c \<notin> insert agg (live b q)" for c
    using relinkedD(8) [OF A(2), of c] that live_at [OF iN, of c q s] by auto
  have "pool_repr ((pool me)\<lparr>storage := h\<rparr>) fl"
    using S fr by (rule sweeping_pool_frame)
  then have st: "settled (set_orders h me) b' ?q fl"
    using A(1) D lv by (auto simp: settled_def set_orders_def orders_def out_ok_def)
  have qty: "book_qty_ok h b' ?q" if "book_qty_ok (orders me) b q" "total_qty (side_view h b' ?q s) < 2 ^ 32"
  proof (rule add_order_qty [OF D(2,5) valid r act s i_def room add that(1)])
    have "qty_sum h (?q s i) \<le> total_qty (side_view h b' ?q s)"
      using iN same_gridD(1) [OF A(3)] by (intro qty_sum_le_view) simp
    then show "qty_sum (orders me) (q s i @ [agg]) < 2 ^ 32"
      using that(2) relinked_qty_sum [OF A(2)] by (simp add: relinkedD(3) [OF A(2)])
  qed
  show thesis
    using that [OF st A(3) lv fr V qty] add_order_complete [OF _ book_reprD(4) [OF D(2)] _ relinkedD(1) [OF A(2)] lv A(4)]
    by blast
qed

subsection \<open>The order types\<close>

definition route_meets ::
  "MatchingEngine \<Rightarrow> OrderBook \<Rightarrow> queues \<Rightarrow> addr list \<Rightarrow> addr \<Rightarrow> bool \<Rightarrow>
   ExecutionReport list \<times> Entry list \<times> Entry list \<Rightarrow> fault + (MatchingEngine \<times> OrderBook) \<Rightarrow> bool" where
  "route_meets me b q fl agg kept spec x \<longleftrightarrow>
     (case spec of (reps, own', opp') \<Rightarrow>
       run_meets (length reps) me (\<lambda>(me', b'). \<exists>q' fl'. routed me b q fl agg reps me' b' q' fl' \<and>
         side_view (orders me') b' q' (is_buy (orders me agg)) = own' \<and>
         side_view (orders me') b' q' (\<not> is_buy (orders me agg)) = opp' \<and>
         (agg \<in> set fl' \<union> live b' q' \<longleftrightarrow> kept)) fst x)"

lemma sweep_at_limit_crosses:
  "sweep_at_limit agg me b =
     do_sweep (sweep_budget agg me) (crosses (is_buy (orders me agg)) (price (orders me agg))) agg me b"
  by (auto simp: sweep_at_limit_def crosses_def [abs_def] Let_def)

lemma residual_meets:
  assumes "out_ok me"
  shows "run_meets (length (residual_ack oid r)) me (posted me (residual_ack oid r)) (\<lambda>x. x)
    (if 0 < r then post_cancel_ack oid r me else Inr me)"
proof (cases "r = 0")
  case True
  then show ?thesis
    using posted_refl [OF assms] by (simp add: residual_ack_def run_meets_return)
next
  case False
  then show ?thesis
    using run_meets_post [OF assms] by (simp add: residual_ack_def post_eqs word_neq_0_conv [symmetric])
qed

text \<open>
  The residual of a limit order: it rests at the tail of its level, or, with a price that
  is not a level of the book, \<open>add_order\<close> does nothing and its slot is neither free nor
  in the book.
\<close>

lemma limit_rests:
  assumes S: "sweeping me b q fl agg" and W: "swept me b q fl agg reps r me1 b1 q1 fl1" and r: "r \<noteq> 0"
    and add: "add_order (orders me1) b1 (Some agg) = (h, b2)"
    and cap: "Capacity (pool me) < 2 ^ 32" and act: "is_active (orders me agg)"
    and trade: "\<forall>x \<in> set reps. is_trade x"
  shows "\<exists>q' fl'. routed me b q fl agg reps (set_orders h me1) b2 q' fl' \<and>
    side_view (orders (set_orders h me1)) b2 q' (is_buy (orders me agg)) =
      (if is_valid_price b (price (orders me agg))
       then insert_entry (is_buy (orders me agg)) ((entry_of (orders me) agg)\<lparr>e_qty := r\<rparr>)
         (side_view (orders me) b q (is_buy (orders me agg)))
       else side_view (orders me) b q (is_buy (orders me agg))) \<and>
    side_view (orders (set_orders h me1)) b2 q' (\<not> is_buy (orders me agg)) =
      side_view (orders me1) b1 q1 (\<not> is_buy (orders me agg)) \<and>
    (agg \<in> set fl' \<union> live b2 q' \<longleftrightarrow> is_valid_price b (price (orders me agg)))"
proof -
  note S1 = sweptD(1) [OF W] and E = sweptD [OF W]
  have agg: "orders me1 agg = (orders me agg)\<lparr>quantity := r\<rparr>"
    by (rule E(6))
  have vp: "is_valid_price b1 (price (orders me1 agg)) = is_valid_price b (price (orders me agg))"
    using same_gridD(3) [OF E(2)] by (simp add: agg)
  have ent: "entry_of (orders me1) agg = (entry_of (orders me) agg)\<lparr>e_qty := r\<rparr>"
    by (simp add: entry_of_def agg)
  have sub: "set fl \<subseteq> set fl1"
    using E(3,4) sweepingD(7) [OF S] by blast
  have cnt: "filter is_trade reps = reps" "filter (\<lambda>r. er_kind r = Reject) reps = []"
    using trade by (auto simp: filter_empty_conv is_trade_def filter_id_conv)
  have same: "orders (set_orders h me1) = h" "out_ok (set_orders h me1) = out_ok me1" "sent (set_orders h me1) = sent me1"
    "books (set_orders h me1) = books me1" "inbound (set_orders h me1) = inbound me1"
    "orders_processed (set_orders h me1) = orders_processed me1" "fills_executed (set_orders h me1) = fills_executed me1"
    "orders_rejected (set_orders h me1) = orders_rejected me1" "clock (set_orders h me1) = clock me1"
    "clock_calls (set_orders h me1) = clock_calls me1" "Capacity (pool (set_orders h me1)) = Capacity (pool me1)"
    by (simp_all add: set_orders_def orders_def out_ok_def sent_def)
  show ?thesis
  proof (cases "is_valid_price b (price (orders me agg))")
    case True
    obtain q' where Q: "settled (set_orders h me1) b2 q' fl1" "same_grid b1 b2" "live b2 q' = insert agg (live b1 q1)"
      "\<And>c. c \<notin> insert agg (live b1 q1) \<Longrightarrow> h c = orders me1 c"
      "side_view h b2 q' (is_buy (orders me agg)) = insert_entry (is_buy (orders me agg)) (entry_of (orders me1) agg)
         (side_view (orders me1) b1 q1 (is_buy (orders me agg)))"
      "side_view h b2 q' (\<not> is_buy (orders me agg)) = side_view (orders me1) b1 q1 (\<not> is_buy (orders me agg))"
      "book_qty_ok (orders me1) b1 q1 \<Longrightarrow> total_qty (side_view h b2 q' (is_buy (orders me agg))) < 2 ^ 32 \<Longrightarrow>
         book_qty_ok h b2 q'"
      "index_complete (orders me1) b1 q1 \<Longrightarrow>
         \<forall>c \<in> live b1 q1. order_id (orders me1 c) \<noteq> order_id (orders me1 agg) \<Longrightarrow> index_complete h b2 q'"
      using rest_order [OF S1 _ _ _ _ add, of "is_buy (orders me agg)"] cap act r True E(8) vp agg
      by (auto simp: is_active_def)
    have "h c = orders me c" if "c \<notin> insert agg (live b q)" for c
      using Q(4) [of c] E(4) E(5) [OF that] that by auto
    moreover have "index_complete h b2 q'" if "index_complete (orders me) b q"
      "\<forall>c \<in> live b q. order_id (orders me c) \<noteq> order_id (orders me agg)"
      using Q(8) [OF E(18) [OF that(1)]] that(2) E(4) by (auto simp: E(19))
    ultimately have "routed me b q fl agg reps (set_orders h me1) b2 q' fl1"
      unfolding routed_def same cnt
      using Q E(3,4,8-17) sub same_grid_trans [OF E(2) Q(2)] by auto
    then show ?thesis
      using True Q(3,5,6) E(7) ent same(1) by auto
  next
    case False
    then have "h = orders me1" "b2 = b1"
      using add add_order_invalid [of b1 "orders me1" agg] vp by auto
    moreover have "routed me b q fl agg reps me1 b1 q1 fl1"
      unfolding routed_def cnt using E sub sweeping_settled S1 by auto
    moreover have "set_orders (orders me1) me1 = me1"
      by (simp add: set_orders_def orders_def)
    moreover have "agg \<notin> set fl1 \<union> live b1 q1"
      using S1 by (simp add: sweeping_settled)
    ultimately show ?thesis
      using False E(7) by auto
  qed
qed

lemma can_send_set_orders [simp]: "can_send k (set_orders h me) = can_send k me"
  by (simp add: can_send_def set_orders_def)

lemma do_sweep_budget:
  assumes "sweeping me b q fl agg" and "s = is_buy (orders me agg)"
  shows "sweep_meets me b q fl agg
    (match_spec ok (order_id (orders me agg)) (quantity (orders me agg)) (side_view (orders me) b q (\<not> s)))
    (do_sweep (sweep_budget agg me) ok agg me b)"
  using assms by (rule do_sweep_meets) (simp add: sweep_budget_def)

text \<open>Sweep, report the residual, release: the tail shared by market and IOC orders.\<close>

lemma sweep_then_drop:
  assumes S: "sweeping me b q fl agg" and s: "s = is_buy (orders me agg)"
    and m: "match_spec ok (order_id (orders me agg)) (quantity (orders me agg))
      (side_view (orders me) b q (\<not> s)) = (reps, r, opp')"
  shows "route_meets me b q fl agg True
    (reps @ residual_ack (order_id (orders me agg)) r, side_view (orders me) b q s, opp')
    (ebind (do_sweep (sweep_budget agg me) ok agg me b) (\<lambda>(me1, b1).
     ebind (if 0 < quantity (orders me1 agg)
            then post_cancel_ack (order_id (orders me1 agg)) (quantity (orders me1 agg)) me1
            else Inr me1) (\<lambda>me2. Inr (pool_release agg me2, b1))))"
proof -
  let ?ack = "residual_ack (order_id (orders me agg)) r"
  let ?P = "\<lambda>(me', b'). \<exists>q' fl'. routed me b q fl agg (reps @ ?ack) me' b' q' fl' \<and>
     side_view (orders me') b' q' s = side_view (orders me) b q s \<and>
     side_view (orders me') b' q' (\<not> s) = opp' \<and> (agg \<in> set fl' \<union> live b' q' \<longleftrightarrow> True)"
  have sw: "sweep_meets me b q fl agg (reps, r, opp') (do_sweep (sweep_budget agg me) ok agg me b)"
    using do_sweep_budget [OF S s, of ok] m by simp
  have trade: "\<forall>x \<in> set reps. is_trade x" "\<forall>x \<in> set ?ack. er_kind x = CancelAck"
    using match_spec_trades [OF m] by (auto simp: residual_ack_def)
  have "run_meets (length reps + (length ?ack + 0)) me ?P fst
    (ebind (do_sweep (sweep_budget agg me) ok agg me b) (\<lambda>(me1, b1).
     ebind (if 0 < quantity (orders me1 agg)
            then post_cancel_ack (order_id (orders me1 agg)) (quantity (orders me1 agg)) me1
            else Inr me1) (\<lambda>me2. Inr (pool_release agg me2, b1))))"
  proof (rule run_meets_bind [OF sw [unfolded sweep_meets_def prod.case]])
    fix x :: "MatchingEngine \<times> OrderBook"
    assume "case x of (me', b') \<Rightarrow> \<exists>q' fl'. swept me b q fl agg reps r me' b' q' fl' \<and>
      side_view (orders me') b' q' (\<not> is_buy (orders me agg)) = opp'"
    then obtain me1 b1 q1 fl1 where x: "x = (me1, b1)" and W: "swept me b q fl agg reps r me1 b1 q1 fl1"
      and opp: "opp' = side_view (orders me1) b1 q1 (\<not> is_buy (orders me agg))"
      by auto
    have agg: "orders me1 agg = (orders me agg)\<lparr>quantity := r\<rparr>" and ok1: "out_ok me1"
      using sweptD(6) [OF W] sweepingD(3) [OF sweptD(1) [OF W]] by auto
    show "run_meets (length ?ack + 0) (fst x) ?P fst (case x of (me1, b1) \<Rightarrow> ebind (if 0 < quantity (orders me1 agg)
            then post_cancel_ack (order_id (orders me1 agg)) (quantity (orders me1 agg)) me1
            else Inr me1) (\<lambda>me2. Inr (pool_release agg me2, b1)))"
      unfolding x prod.case agg fst_conv
    proof (rule run_meets_bind)
      show "run_meets (length ?ack) me1 (posted me1 ?ack) (\<lambda>x. x)
        (if 0 < quantity ((orders me agg)\<lparr>quantity := r\<rparr>)
         then post_cancel_ack (order_id ((orders me agg)\<lparr>quantity := r\<rparr>)) (quantity ((orders me agg)\<lparr>quantity := r\<rparr>)) me1
         else Inr me1)"
        using residual_meets [OF ok1, of "order_id (orders me agg)" r] by (cases "0 < r") simp_all
      fix me2 assume P: "posted me1 ?ack me2"
      show "run_meets 0 me2 ?P fst (Inr (pool_release agg me2, b1))"
        using swept_release [OF S W P trade] sweptD(7) [OF W] opp s
        by (intro run_meets_return) (auto intro!: exI [of _ q1] exI [of _ "agg # fl1"])
    qed
  qed
  then show ?thesis
    by (simp add: route_meets_def s)
qed

lemma match_limit_meets:
  assumes S: "sweeping me b q fl agg" and s: "s = is_buy (orders me agg)"
    and cap: "Capacity (pool me) < 2 ^ 32" and act: "is_active (orders me agg)"
    and e: "e = entry_of (orders me) agg" and v: "v = is_valid_price b (price (orders me agg))"
  shows "route_meets me b q fl agg (slot_kept Limit s v e (side_view (orders me) b q (\<not> s)))
    (order_spec Limit s v av e (side_view (orders me) b q s) (side_view (orders me) b q (\<not> s)))
    (match_limit agg me b)"
proof -
  let ?own = "side_view (orders me) b q s"
  obtain reps r opp' where m: "match_spec (crosses s (price (orders me agg))) (order_id (orders me agg))
      (quantity (orders me agg)) (side_view (orders me) b q (\<not> s)) = (reps, r, opp')"
    by (metis prod.collapse)
  let ?own' = "if r = 0 \<or> \<not> v then ?own else insert_entry s (e\<lparr>e_qty := r\<rparr>) ?own"
  let ?P = "\<lambda>(me', b'). \<exists>q' fl'. routed me b q fl agg reps me' b' q' fl' \<and>
     side_view (orders me') b' q' s = ?own' \<and> side_view (orders me') b' q' (\<not> s) = opp' \<and>
     (agg \<in> set fl' \<union> live b' q' \<longleftrightarrow> v \<or> r = 0)"
  have kept: "slot_kept Limit s v e (side_view (orders me) b q (\<not> s)) \<longleftrightarrow> v \<or> r = 0"
    using m by (simp add: slot_kept_def e)
  have sw: "sweep_meets me b q fl agg (reps, r, opp') (sweep_at_limit agg me b)"
    using do_sweep_budget [OF S s, of "crosses s (price (orders me agg))"] m s
    by (simp add: sweep_at_limit_crosses)
  have trade: "\<forall>x \<in> set reps. is_trade x"
    using match_spec_trades [OF m] by blast
  have "run_meets (length reps + 0) me ?P fst (match_limit agg me b)"
    unfolding match_limit_def
  proof (rule run_meets_bind [OF sw [unfolded sweep_meets_def prod.case]])
    fix x :: "MatchingEngine \<times> OrderBook"
    assume "case x of (me', b') \<Rightarrow> \<exists>q' fl'. swept me b q fl agg reps r me' b' q' fl' \<and>
      side_view (orders me') b' q' (\<not> is_buy (orders me agg)) = opp'"
    then obtain me1 b1 q1 fl1 where x: "x = (me1, b1)" and W: "swept me b q fl agg reps r me1 b1 q1 fl1"
      and opp: "opp' = side_view (orders me1) b1 q1 (\<not> is_buy (orders me agg))"
      by auto
    have agg: "orders me1 agg = (orders me agg)\<lparr>quantity := r\<rparr>"
      by (rule sweptD(6) [OF W])
    have "run_meets 0 me1 ?P fst
        (if 0 < quantity (orders me1 agg)
         then (let (h, b2) = add_order (orders me1) b1 (Some agg) in Inr (set_orders h me1, b2))
         else Inr (pool_release agg me1, b1))"
    proof (cases "r = 0")
      case True
      then show ?thesis
        using swept_release [OF S W posted_refl [OF sweepingD(3) [OF sweptD(1) [OF W]]] trade] sweptD(7) [OF W] opp s
        by (auto simp: agg intro!: run_meets_return exI [of _ q1] exI [of _ "agg # fl1"])
    next
      case False
      obtain h b2 where add: "add_order (orders me1) b1 (Some agg) = (h, b2)"
        by fastforce
      obtain q' fl' where "routed me b q fl agg reps (set_orders h me1) b2 q' fl'"
        "side_view (orders (set_orders h me1)) b2 q' s =
          (if v then insert_entry s (e\<lparr>e_qty := r\<rparr>) ?own else ?own)"
        "side_view (orders (set_orders h me1)) b2 q' (\<not> s) = opp'"
        "agg \<in> set fl' \<union> live b2 q' \<longleftrightarrow> v"
        using limit_rests [OF S W False add cap act trade] unfolding opp s e v by blast
      then have "?P (set_orders h me1, b2)"
        unfolding prod.case using False by (intro exI [of _ q'] exI [of _ fl']) simp
      then have "run_meets 0 me1 ?P fst (Inr (set_orders h me1, b2))"
        by (rule run_meets_return) simp
      moreover have "0 < quantity (orders me1 agg)"
        using False by (simp add: agg word_neq_0_conv [symmetric])
      ultimately show ?thesis
        by (simp only: add Let_def prod.case if_True)
    qed
    then show "run_meets 0 (fst x) ?P fst (case x of (me1, b1) \<Rightarrow>
        if 0 < quantity (orders me1 agg)
        then (let (h, b2) = add_order (orders me1) b1 (Some agg) in Inr (set_orders h me1, b2))
        else Inr (pool_release agg me1, b1))"
      by (simp add: x)
  qed
  moreover have "order_spec Limit s v av e ?own (side_view (orders me) b q (\<not> s)) = (reps, ?own', opp')"
    using m by (simp add: e)
  ultimately show ?thesis
    by (simp only: route_meets_def prod.case s [symmetric] add_0_right kept)
qed

lemma match_market_meets:
  assumes S: "sweeping me b q fl agg" and s: "s = is_buy (orders me agg)" and e: "e = entry_of (orders me) agg"
  shows "route_meets me b q fl agg True
    (order_spec Market s v av e (side_view (orders me) b q s) (side_view (orders me) b q (\<not> s)))
    (match_market agg me b)"
proof -
  obtain reps r opp' where m: "match_spec (\<lambda>_. True) (order_id (orders me agg))
      (quantity (orders me agg)) (side_view (orders me) b q (\<not> s)) = (reps, r, opp')"
    by (metis prod.collapse)
  show ?thesis
    using sweep_then_drop [OF S s m] m by (simp add: match_market_def e)
qed

lemma match_ioc_meets:
  assumes S: "sweeping me b q fl agg" and s: "s = is_buy (orders me agg)" and e: "e = entry_of (orders me) agg"
  shows "route_meets me b q fl agg True
    (order_spec IOC s v av e (side_view (orders me) b q s) (side_view (orders me) b q (\<not> s)))
    (match_ioc agg me b)"
proof -
  obtain reps r opp' where m: "match_spec (crosses s (price (orders me agg))) (order_id (orders me agg))
      (quantity (orders me agg)) (side_view (orders me) b q (\<not> s)) = (reps, r, opp')"
    by (metis prod.collapse)
  show ?thesis
    using sweep_then_drop [OF S s m] m by (simp add: match_ioc_def sweep_at_limit_crosses e s)
qed

text \<open>Rejecting an acquired order: the report, the release, the counter.\<close>

lemma reject_meets:
  assumes S: "sweeping me b q fl agg" and s: "s = is_buy (orders me agg)"
  shows "route_meets me b q fl agg True
    ([report Reject oid 0 0 0 oq], side_view (orders me) b q s, side_view (orders me) b q (\<not> s))
    (ebind (post_reject oid oq me) (\<lambda>me1.
       Inr ((pool_release agg me1)\<lparr>orders_rejected := orders_rejected me1 + 1\<rparr>, b)))"
proof -
  let ?R = "report Reject oid 0 0 0 oq"
  let ?P = "\<lambda>(me', b'). \<exists>q' fl'. routed me b q fl agg [?R] me' b' q' fl' \<and>
     side_view (orders me') b' q' s = side_view (orders me) b q s \<and>
     side_view (orders me') b' q' (\<not> s) = side_view (orders me) b q (\<not> s) \<and>
     (agg \<in> set fl' \<union> live b' q' \<longleftrightarrow> True)"
  have "run_meets (1 + 0) me ?P fst (ebind (post ?R me) (\<lambda>me1.
      Inr ((pool_release agg me1)\<lparr>orders_rejected := orders_rejected me1 + 1\<rparr>, b)))"
  proof (rule run_meets_bind [OF run_meets_post [OF sweepingD(3) [OF S]]])
    fix me1 assume P: "posted me [?R] me1"
    let ?me = "(pool_release agg me1)\<lparr>orders_rejected := orders_rejected me1 + 1\<rparr>"
    note F = posted_fields [OF P] and D = sweepingD [OF S]
    have ord: "orders ?me = (orders me)(agg := (orders me agg)\<lparr>nxt := freelist_head (pool me), prv := None\<rparr>)"
      using F(1) by (simp add: pool_release_def orders_def)
    note O = outside_frame [OF D(2,5), of "(orders me agg)\<lparr>nxt := freelist_head (pool me), prv := None\<rparr>", folded ord]
    have "pool_repr (pool ?me) (agg # fl)"
      using release_repr [OF D(1,4,6)] F(1) by (simp add: pool_release_def)
    then have "settled ?me b q (agg # fl)"
      using O(1) F(9,1) D by (auto simp: settled_def pool_release_def out_ok_def)
    moreover have "orders ?me c = orders me c" if "c \<notin> insert agg (live b q)" for c
      using that by (simp add: ord)
    moreover have "sent ?me = sent me1" "Capacity (pool ?me) = Capacity (pool me1)"
      "books ?me = books me1" "inbound ?me = inbound me1" "orders_processed ?me = orders_processed me1"
      "fills_executed ?me = fills_executed me1" "clock ?me = clock me1" "clock_calls ?me = clock_calls me1"
      "orders_rejected ?me = orders_rejected me1 + 1"
      by (simp_all add: pool_release_def sent_def)
    ultimately have "routed me b q fl agg [?R] ?me b q (agg # fl)"
      unfolding routed_def using F O by (auto simp: is_trade_def)
    then have "?P (?me, b)"
      unfolding prod.case using O(2) by (intro exI [of _ q] exI [of _ "agg # fl"]) simp
    then show "run_meets 0 me1 ?P fst (Inr (?me, b))"
      by (rule run_meets_return) (simp add: can_send_def pool_release_def)
  qed
  then show ?thesis
    by (simp add: route_meets_def s post_eqs)
qed

lemma match_fok_meets:
  assumes S: "sweeping me b q fl agg" and s: "s = is_buy (orders me agg)" and e: "e = entry_of (orders me) agg"
    and av: "av = available_quantity_at_or_better b (side (orders me agg)) (price (orders me agg))"
  shows "route_meets me b q fl agg True
    (order_spec FOK s v av e (side_view (orders me) b q s) (side_view (orders me) b q (\<not> s)))
    (match_fok agg me b)"
proof (cases "av < quantity (orders me agg)")
  case True
  then show ?thesis
    using reject_meets [OF S s] by (simp add: match_fok_def e av Let_def)
next
  case False
  obtain reps r opp' where m: "match_spec (crosses s (price (orders me agg))) (order_id (orders me agg))
      (quantity (orders me agg)) (side_view (orders me) b q (\<not> s)) = (reps, r, opp')"
    by (metis prod.collapse)
  let ?P = "\<lambda>(me', b'). \<exists>q' fl'. routed me b q fl agg reps me' b' q' fl' \<and>
     side_view (orders me') b' q' s = side_view (orders me) b q s \<and>
     side_view (orders me') b' q' (\<not> s) = opp' \<and> (agg \<in> set fl' \<union> live b' q' \<longleftrightarrow> True)"
  have sw: "sweep_meets me b q fl agg (reps, r, opp') (sweep_at_limit agg me b)"
    using do_sweep_budget [OF S s, of "crosses s (price (orders me agg))"] m s
    by (simp add: sweep_at_limit_crosses)
  have trade: "\<forall>x \<in> set reps. is_trade x"
    using match_spec_trades [OF m] by blast
  have "run_meets (length reps + 0) me ?P fst
      (ebind (sweep_at_limit agg me b) (\<lambda>(me1, b1). Inr (pool_release agg me1, b1)))"
  proof (rule run_meets_bind [OF sw [unfolded sweep_meets_def prod.case]])
    fix x :: "MatchingEngine \<times> OrderBook"
    assume "case x of (me', b') \<Rightarrow> \<exists>q' fl'. swept me b q fl agg reps r me' b' q' fl' \<and>
      side_view (orders me') b' q' (\<not> is_buy (orders me agg)) = opp'"
    then obtain me1 b1 q1 fl1 where x: "x = (me1, b1)" and W: "swept me b q fl agg reps r me1 b1 q1 fl1"
      and opp: "opp' = side_view (orders me1) b1 q1 (\<not> is_buy (orders me agg))"
      by auto
    show "run_meets 0 (fst x) ?P fst (case x of (me1, b1) \<Rightarrow> Inr (pool_release agg me1, b1))"
      using swept_release [OF S W posted_refl [OF sweepingD(3) [OF sweptD(1) [OF W]]] trade] sweptD(7) [OF W] opp s
      by (auto simp: x intro!: run_meets_return exI [of _ q1] exI [of _ "agg # fl1"])
  qed
  then show ?thesis
    using False m by (simp add: route_meets_def match_fok_def e av s Let_def)
qed

text \<open>\<open>route\<close> implements \<open>order_spec\<close>.\<close>

lemma route_refines:
  assumes "sweeping me b q fl agg" and "s = is_buy (orders me agg)"
    and "Capacity (pool me) < 2 ^ 32" and "is_active (orders me agg)"
    and "e = entry_of (orders me) agg" and "v = is_valid_price b (price (orders me agg))"
    and "av = available_quantity_at_or_better b (side (orders me agg)) (price (orders me agg))"
  shows "route_meets me b q fl agg (slot_kept (otype (orders me agg)) s v e (side_view (orders me) b q (\<not> s)))
    (order_spec (otype (orders me agg)) s v av e (side_view (orders me) b q s) (side_view (orders me) b q (\<not> s)))
    (route agg me b)"
  using assms match_limit_meets [OF assms(1-6)] match_market_meets [OF assms(1,2,5)]
    match_ioc_meets [OF assms(1,2,5)] match_fok_meets [OF assms(1,2,5,7)] reject_meets [OF assms(1,2)]
  by (cases "otype (orders me agg)") (simp_all add: route_def slot_kept_def)

end
