(* ===== verification/Engine_Inv.thy ===== *)
theory Engine_Inv
  imports Engine_Route
begin

section \<open>The engine's invariant and its handlers\<close>

text \<open>
  \<open>engine_repr me Q fl\<close>: the pool's free list is \<open>fl\<close>, every book is represented by its
  queues \<open>Q iid\<close>, and no slot is in two places. What a client can observe is read off the
  engine by \<open>view_of\<close> (the two priority lists of an instrument), \<open>qty_exact\<close> (its level
  aggregates are the true sums) and \<open>index_full\<close> (every resting order is in its index).
  The handlers are described by these and by the reports they send.
\<close>

definition engine_repr :: "MatchingEngine \<Rightarrow> (InstrumentId \<Rightarrow> queues) \<Rightarrow> addr list \<Rightarrow> bool" where
  "engine_repr me Q fl \<longleftrightarrow>
     pool_repr (pool me) fl \<and> Capacity (pool me) < 2 ^ 32 \<and> out_ok me \<and>
     spsc_ok kPipelineQueueCapacity (inbound me) \<and>
     (\<forall>iid b. books me iid = Some b \<longrightarrow> settled me b (Q iid) fl) \<and>
     (\<forall>i j bi bj. books me i = Some bi \<longrightarrow> books me j = Some bj \<longrightarrow> i \<noteq> j \<longrightarrow>
        live bi (Q i) \<inter> live bj (Q j) = {})"

definition engine_ok :: "MatchingEngine \<Rightarrow> bool" where
  "engine_ok me \<longleftrightarrow> (\<exists>Q fl. engine_repr me Q fl)"

definition view_of :: "MatchingEngine \<Rightarrow> InstrumentId \<Rightarrow> bool \<Rightarrow> Entry list" where
  "view_of me iid s =
     (case books me iid of None \<Rightarrow> []
      | Some b \<Rightarrow> side_view (orders me) b (book_queues (orders me) b) s)"

definition qty_exact :: "MatchingEngine \<Rightarrow> InstrumentId \<Rightarrow> bool" where
  "qty_exact me iid \<longleftrightarrow>
     (case books me iid of None \<Rightarrow> True
      | Some b \<Rightarrow> book_qty_ok (orders me) b (book_queues (orders me) b))"

definition index_full :: "MatchingEngine \<Rightarrow> InstrumentId \<Rightarrow> bool" where
  "index_full me iid \<longleftrightarrow>
     (case books me iid of None \<Rightarrow> True
      | Some b \<Rightarrow> index_complete (orders me) b (book_queues (orders me) b))"

text \<open>The slots that rest in some book, and the engine in which no slot is lost.\<close>

definition resting :: "MatchingEngine \<Rightarrow> addr set" where
  "resting me = (\<Union>iid. \<Union>s. e_slot ` set (view_of me iid s))"

definition no_leak :: "MatchingEngine \<Rightarrow> bool" where
  "no_leak me \<longleftrightarrow> set (free_list (pool me)) \<union> resting me = {..<Capacity (pool me)}"

lemma engine_reprD:
  assumes "engine_repr me Q fl"
  shows "pool_repr (pool me) fl" "Capacity (pool me) < 2 ^ 32" "out_ok me"
    "spsc_ok kPipelineQueueCapacity (inbound me)"
    "books me iid = Some b \<Longrightarrow> settled me b (Q iid) fl"
    "books me i = Some bi \<Longrightarrow> books me j = Some bj \<Longrightarrow> i \<noteq> j \<Longrightarrow> live bi (Q i) \<inter> live bj (Q j) = {}"
  using assms unfolding engine_repr_def by blast+

lemma settledD:
  assumes "settled me b q fl"
  shows "pool_repr (pool me) fl" "book_repr (orders me) b q" "out_ok me"
    "live b q \<inter> set fl = {}" "live b q \<subseteq> {..<Capacity (pool me)}"
  using assms by (auto simp: settled_def)

subsection \<open>Reading the engine\<close>

lemma reads:
  assumes R: "book_repr (orders me) b q" and b: "books me iid = Some b"
  shows "view_of me iid s = side_view (orders me) b q s"
    "qty_exact me iid \<longleftrightarrow> book_qty_ok (orders me) b q"
    "index_full me iid \<longleftrightarrow> index_complete (orders me) b q"
  using same_queues [of b "book_queues (orders me) b" q] book_repr_queues [OF R] b
  by (auto simp: view_of_def side_view_def qty_exact_def index_full_def)

lemma view_slots: "e_slot ` set (side_view h b q True) \<union> e_slot ` set (side_view h b q False) = live b q"
  by (simp add: side_view_def live_prio image_image)

lemma resting_iff:
  assumes "engine_repr me Q fl"
  shows "a \<in> resting me \<longleftrightarrow> (\<exists>iid b. books me iid = Some b \<and> a \<in> live b (Q iid))"
proof -
  have "(\<Union>s. e_slot ` set (view_of me iid s)) =
      (case books me iid of None \<Rightarrow> {} | Some b \<Rightarrow> live b (Q iid))" for iid
  proof (cases "books me iid")
    case (Some b)
    then show ?thesis
      using reads(1) [OF settledD(2) [OF engine_reprD(5) [OF assms Some]] Some] view_slots
      by (simp add: UNIV_bool Un_commute)
  qed (simp add: view_of_def)
  then have "a \<in> resting me \<longleftrightarrow> (\<exists>iid. a \<in> (case books me iid of None \<Rightarrow> {} | Some b \<Rightarrow> live b (Q iid)))"
    by (simp add: resting_def)
  also have "\<dots> \<longleftrightarrow> (\<exists>iid b. books me iid = Some b \<and> a \<in> live b (Q iid))"
    by (intro ex_cong1) (simp split: option.split)
  finally show ?thesis .
qed

lemma no_leak_iff:
  assumes "engine_repr me Q fl"
  shows "no_leak me \<longleftrightarrow> set fl \<union> resting me = {..<Capacity (pool me)}"
  using pool_repr_free_list [OF engine_reprD(1) [OF assms]] by (simp add: no_leak_def)

subsection \<open>Changing one book\<close>

text \<open>An engine whose heap agrees on an instrument's orders reads the same there.\<close>

lemma same_reads:
  assumes bk: "books me' j = books me j"
    and old: "\<And>b. books me j = Some b \<Longrightarrow> book_repr (orders me) b q"
    and new: "\<And>b. books me j = Some b \<Longrightarrow> book_repr (orders me') b q"
    and eq: "\<And>b c. books me j = Some b \<Longrightarrow> c \<in> live b q \<Longrightarrow> orders me' c = orders me c"
  shows "view_of me' j = view_of me j" "qty_exact me' j = qty_exact me j" "index_full me' j = index_full me j"
proof -
  have "view_of me' j = view_of me j \<and> qty_exact me' j = qty_exact me j \<and> index_full me' j = index_full me j"
  proof (cases "books me j")
    case (Some b)
    have eq1: "orders me' c = orders me c" if "c \<in> live b q" for c
      using eq [OF Some that] .
    have "side_view (orders me') b q = side_view (orders me) b q"
      using side_view_frame [OF eq1] by (simp add: fun_eq_iff)
    moreover have "book_qty_ok (orders me') b q = book_qty_ok (orders me) b q"
      using book_qty_ok_frame [of "orders me" b q "orders me'"] book_qty_ok_frame [of "orders me'" b q "orders me"]
        eq1 by auto
    moreover have "index_complete (orders me') b q = index_complete (orders me) b q"
      using eq1 by (simp add: index_complete_def)
    ultimately show ?thesis
      using reads [OF old [OF Some] Some] reads [OF new [OF Some]] Some bk by (simp add: fun_eq_iff)
  qed (simp add: view_of_def qty_exact_def index_full_def bk fun_eq_iff)
  then show "view_of me' j = view_of me j" "qty_exact me' j = qty_exact me j" "index_full me' j = index_full me j"
    by blast+
qed

lemma engine_update:
  assumes E: "engine_repr me Q fl" and b: "books me iid = Some b"
    and bk: "books me' = (books me)(iid := Some b')" and st: "settled me' b' q' fl'"
    and inb: "inbound me' = inbound me" and cap: "Capacity (pool me') = Capacity (pool me)"
    and a: "\<And>j bj. j \<noteq> iid \<Longrightarrow> books me j = Some bj \<Longrightarrow> a \<notin> live bj (Q j)"
    and fr: "\<And>c. c \<notin> insert a (live b (Q iid)) \<Longrightarrow> orders me' c = orders me c"
    and sl: "set fl' \<union> live b' q' \<subseteq> insert a (set fl \<union> live b (Q iid))"
  shows "engine_repr me' (Q(iid := q')) fl'"
    "j \<noteq> iid \<Longrightarrow> view_of me' j = view_of me j"
    "j \<noteq> iid \<Longrightarrow> qty_exact me' j = qty_exact me j"
    "j \<noteq> iid \<Longrightarrow> index_full me' j = index_full me j"
proof -
  have eq: "orders me' c = orders me c" if "j \<noteq> iid" "books me j = Some bj" "c \<in> live bj (Q j)" for j bj c
    using that a [OF that(1,2)] engine_reprD(6) [OF E that(2) b that(1)] by (intro fr) auto
  have oth: "settled me' bj (Q j) fl'" if j: "j \<noteq> iid" "books me j = Some bj" for j bj
  proof -
    note D = settledD [OF engine_reprD(5) [OF E j(2)]]
    have "live bj (Q j) \<inter> set fl' = {}"
      using D(4) a [OF j] engine_reprD(6) [OF E j(2) b j(1)] sl by blast
    then show ?thesis
      using D settledD [OF st] book_repr_frame [OF D(2), of "orders me'"] eq [OF j] cap
      by (simp add: settled_def)
  qed
  have dis: "live b' q' \<inter> live bj (Q j) = {}" if j: "j \<noteq> iid" "books me j = Some bj" for j bj
    using settledD(4) [OF engine_reprD(5) [OF E j(2)]] a [OF j] engine_reprD(6) [OF E j(2) b j(1)] sl by blast
  show "engine_repr me' (Q(iid := q')) fl'"
    unfolding engine_repr_def
  proof (intro conjI allI impI)
    fix j bj
    assume "books me' j = Some bj"
    then show "settled me' bj ((Q(iid := q')) j) fl'"
      using st oth by (auto simp: bk split: if_splits)
  next
    fix i j bi bj
    assume ij: "books me' i = Some bi" "books me' j = Some bj" "i \<noteq> j"
    then show "live bi ((Q(iid := q')) i) \<inter> live bj ((Q(iid := q')) j) = {}"
      using dis [of i bi] dis [of j bj] engine_reprD(6) [OF E, of i bi j bj] by (auto simp: bk split: if_splits)
  qed (use settledD [OF st] engine_reprD(2,4) [OF E] cap inb in simp_all)
  assume j: "j \<noteq> iid"
  show "view_of me' j = view_of me j" "qty_exact me' j = qty_exact me j" "index_full me' j = index_full me j"
    using same_reads [of me' j me "Q j"] j eq [OF j] bk settledD(2) [OF oth [OF j]]
      settledD(2) [OF engine_reprD(5) [OF E]] by auto
qed

text \<open>No slot is lost when the changed book and the free list keep what they had.\<close>

lemma engine_update_leak:
  assumes E: "engine_repr me Q fl" and E': "engine_repr me' (Q(iid := q')) fl'"
    and b: "books me iid = Some b" and bk: "books me' = (books me)(iid := Some b')"
    and cap: "Capacity (pool me') = Capacity (pool me)"
    and keep: "set fl \<union> live b (Q iid) \<subseteq> set fl' \<union> live b' q'" and n: "no_leak me"
  shows "no_leak me'"
  unfolding no_leak_iff [OF E']
proof (intro set_eqI iffI)
  fix c assume "c \<in> set fl' \<union> resting me'"
  then show "c \<in> {..<Capacity (pool me')}"
    using engine_reprD(1) [OF E'] resting_iff [OF E', of c] settledD(5) [OF engine_reprD(5) [OF E']]
    by (auto simp: pool_repr_def)
next
  fix c assume "c \<in> {..<Capacity (pool me')}"
  then have "c \<in> set fl \<union> resting me"
    using n cap by (simp add: no_leak_iff [OF E])
  then consider "c \<in> set fl \<union> live b (Q iid)" | j bj where "j \<noteq> iid" "books me j = Some bj" "c \<in> live bj (Q j)"
    using resting_iff [OF E, of c] b by (metis Un_iff option.inject)
  then show "c \<in> set fl' \<union> resting me'"
  proof cases
    case 1
    then show ?thesis
      using keep resting_iff [OF E', of c] bk by (auto intro!: exI [of _ iid])
  next
    case (2 j bj)
    then show ?thesis
      using resting_iff [OF E', of c] bk by (auto intro!: exI [of _ j])
  qed
qed

subsection \<open>What a handler does\<close>

text \<open>
  \<open>handled iid t reps V me me'\<close>: \<open>me'\<close> is again well-formed, the lists of instrument \<open>iid\<close>
  are now \<open>V\<close>, all other instruments are as before, exactly \<open>reps\<close> was sent, stamped with
  successive clock readings after \<open>t\<close> earlier ones, and the counters count the reports.
\<close>

definition handled ::
  "InstrumentId \<Rightarrow> nat \<Rightarrow> ExecutionReport list \<Rightarrow> (bool \<Rightarrow> Entry list) \<Rightarrow>
   MatchingEngine \<Rightarrow> MatchingEngine \<Rightarrow> bool" where
  "handled iid t reps V me me' \<longleftrightarrow>
     engine_ok me' \<and> view_of me' iid = V \<and>
     (\<forall>j. j \<noteq> iid \<longrightarrow> view_of me' j = view_of me j \<and> qty_exact me' j = qty_exact me j \<and>
        index_full me' j = index_full me j) \<and>
     (\<forall>j. rel_option same_grid (books me j) (books me' j)) \<and>
     inbound me' = inbound me \<and> orders_processed me' = orders_processed me \<and>
     Capacity (pool me') = Capacity (pool me) \<and>
     clock me' = clock me \<and> clock_calls me' = clock_calls me + t + length reps \<and>
     sent me' = sent me @ stamp (clock me) (clock_calls me + t) reps \<and>
     fills_executed me' = fills_executed me + of_nat (length (filter is_trade reps) div 2) \<and>
     orders_rejected me' = orders_rejected me + of_nat (length (filter (\<lambda>r. er_kind r = Reject) reps))"

lemma handledD:
  assumes "handled iid t reps V me me'"
  shows "engine_ok me'" "view_of me' iid = V" "j \<noteq> iid \<Longrightarrow> view_of me' j = view_of me j"
    "j \<noteq> iid \<Longrightarrow> qty_exact me' j = qty_exact me j" "j \<noteq> iid \<Longrightarrow> index_full me' j = index_full me j"
    "rel_option same_grid (books me j) (books me' j)" "inbound me' = inbound me"
    "sent me' = sent me @ stamp (clock me) (clock_calls me + t) reps"
    "Capacity (pool me') = Capacity (pool me)" "clock me' = clock me"
    "clock_calls me' = clock_calls me + t + length reps"
    "fills_executed me' = fills_executed me + of_nat (length (filter is_trade reps) div 2)"
    "orders_rejected me' = orders_rejected me + of_nat (length (filter (\<lambda>r. er_kind r = Reject) reps))"
    "orders_processed me' = orders_processed me"
  using assms unfolding handled_def by blast+

text \<open>The state in which the new order sits in its slot and the book is still untouched.\<close>

definition accept :: "InboundOrderMsg \<Rightarrow> addr \<Rightarrow> OrderPool \<Rightarrow> MatchingEngine \<Rightarrow> MatchingEngine" where
  "accept msg a p me =
     (let (t, me2) = now_ns (me\<lparr>pool := p\<rparr>)
      in set_orders ((orders me2)(a := fill_order msg t (orders me2 a))) me2)"

definition msg_entry :: "InboundOrderMsg \<Rightarrow> addr \<Rightarrow> Entry" where
  "msg_entry msg a = \<lparr>e_slot = a, e_id = im_order_id msg, e_price = im_price msg, e_qty = im_quantity msg\<rparr>"

lemma accept_fields:
  "books (accept msg a p me) = books me" "inbound (accept msg a p me) = inbound me"
  "orders_processed (accept msg a p me) = orders_processed me"
  "fills_executed (accept msg a p me) = fills_executed me"
  "orders_rejected (accept msg a p me) = orders_rejected me" "clock (accept msg a p me) = clock me"
  "clock_calls (accept msg a p me) = Suc (clock_calls me)" "sent (accept msg a p me) = sent me"
  "out_ok (accept msg a p me) = out_ok me" "can_send k (accept msg a p me) = can_send k me"
  "Capacity (pool (accept msg a p me)) = Capacity p"
  "orders (accept msg a p me) =
     (storage p)(a := fill_order msg (clock_read (clock me) (clock_calls me)) (storage p a))"
  by (simp_all add: accept_def now_ns_def set_orders_def orders_def sent_def out_ok_def can_send_def)

lemma accept_order:
  assumes "h = orders (accept msg a p me)"
  shows "order_id (h a) = im_order_id msg" "price (h a) = im_price msg" "quantity (h a) = im_quantity msg"
    "side (h a) = side_of_u8 (im_side msg)" "otype (h a) = order_type_of_u8 (im_type msg)"
    "is_active (h a)" "is_buy (h a) = (side_of_u8 (im_side msg) = Buy)" "entry_of h a = msg_entry msg a"
  by (simp_all add: assms accept_fields fill_order_def is_active_def is_buy_def entry_of_def msg_entry_def)

lemma accept_sweeping:
  assumes E: "engine_repr me Q (a # fl)" and b: "books me iid = Some b"
    and acq: "acquire (pool me) = (Some a, p)"
  shows "sweeping (accept msg a p me) b (Q iid) fl a"
    "side_view (orders (accept msg a p me)) b (Q iid) s = view_of me iid s"
    "\<And>c. c \<noteq> a \<Longrightarrow> orders (accept msg a p me) c = orders me c"
    "Capacity (pool (accept msg a p me)) = Capacity (pool me)"
    "book_qty_ok (orders (accept msg a p me)) b (Q iid) \<longleftrightarrow> qty_exact me iid"
    "index_complete (orders (accept msg a p me)) b (Q iid) \<longleftrightarrow> index_full me iid"
proof -
  note D = settledD [OF engine_reprD(5) [OF E b]]
  let ?me = "accept msg a p me"
  have p: "pool_repr p fl" "storage p = (storage (pool me))(a := reset (storage (pool me) a))"
    "Capacity p = Capacity (pool me)"
    using acquire_some [OF D(1)] acq by (metis prod.inject option.inject)+
  have a: "a \<notin> live b (Q iid)" "a \<notin> set fl" "a < Capacity (pool me)"
    using D(1,4) by (auto simp: pool_repr_def)
  obtain v where ord: "orders ?me = (orders me)(a := v)"
  proof
    show "orders ?me = (orders me)(a := orders ?me a)"
      using p(2) by (simp add: accept_fields(12) orders_def [of me])
  qed
  then show "\<And>c. c \<noteq> a \<Longrightarrow> orders ?me c = orders me c"
    by simp
  show cap: "Capacity (pool ?me) = Capacity (pool me)"
    using p(3) by (simp add: accept_fields)
  note O = outside_frame [OF D(2) a(1), of v, folded ord]
  have "pool ?me = p\<lparr>storage := orders ?me\<rparr>"
    by (simp add: accept_def now_ns_def set_orders_def orders_def)
  moreover have "storage p c = orders ?me c" if "c \<in> set fl" for c
    using that a(2) by (auto simp: accept_fields)
  ultimately have "pool_repr (pool ?me) fl"
    using pool_repr_frame [OF p(1), of "orders ?me"] by simp
  then show "sweeping ?me b (Q iid) fl a"
    using O(1) D(3-5) a cap by (auto simp: sweeping_def accept_fields)
  show "side_view (orders ?me) b (Q iid) s = view_of me iid s"
    using O(2) reads(1) [OF D(2) b] by simp
  have undo: "orders me = (orders ?me)(a := orders me a)"
    by (simp add: ord)
  note O' = outside_frame [OF O(1) a(1), of "orders me a", folded undo]
  show "book_qty_ok (orders ?me) b (Q iid) \<longleftrightarrow> qty_exact me iid"
    using O(3) O'(3) reads(2) [OF D(2) b] by auto
  show "index_complete (orders ?me) b (Q iid) \<longleftrightarrow> index_full me iid"
    using O(4) O'(4) reads(3) [OF D(2) b] by auto
qed

subsection \<open>New orders\<close>

text \<open>What a routed order means for the whole engine once its book is written back.\<close>

lemma routed_handled:
  assumes E: "engine_repr me Q (a # fl)" and b: "books me iid = Some b"
    and acq: "acquire (pool me) = (Some a, p)" and s: "s = (side_of_u8 (im_side msg) = Buy)"
    and R: "routed (accept msg a p me) b (Q iid) fl a reps me4 b' q' fl'"
    and me': "me' = me4\<lparr>books := (books me4)(iid := Some b')\<rparr>"
    and V: "side_view (orders me4) b' q' s = own'" "side_view (orders me4) b' q' (\<not> s) = opp'"
  shows "handled iid 1 reps (\<lambda>x. if x = s then own' else opp') me me'"
    "no_leak me \<Longrightarrow> no_leak me' \<longleftrightarrow> a \<in> set fl' \<union> live b' q'"
    "qty_exact me iid \<Longrightarrow> total_qty own' < 2 ^ 32 \<Longrightarrow> qty_exact me' iid"
    "index_full me iid \<Longrightarrow> \<forall>s. \<forall>e \<in> set (view_of me iid s). e_id e \<noteq> im_order_id msg \<Longrightarrow> index_full me' iid"
    "a \<in> set (free_list (pool me')) \<union> resting me' \<longleftrightarrow> a \<in> set fl' \<union> live b' q'" "set fl \<subseteq> set (free_list (pool me'))"
proof -
  note A = accept_sweeping [OF E b acq, where msg = msg] and F = accept_fields [where msg = msg and a = a and p = p and me = me]
  note R' = R [unfolded routed_def]
  have "settled me4 b' q' fl'"
    using R' by blast
  then have st: "settled me' b' q' fl'"
    by (simp add: me' settled_def orders_def out_ok_def)
  have bk: "books me' = (books me)(iid := Some b')"
    using R' F(1) by (simp add: me')
  have a: "a \<notin> live bj (Q j)" if "j \<noteq> iid" "books me j = Some bj" for j bj
    using settledD(4) [OF engine_reprD(5) [OF E that(2)]] by auto
  have ord: "orders me' = orders me4"
    by (simp add: me' orders_def)
  have fr: "orders me' c = orders me c" if "c \<notin> insert a (live b (Q iid))" for c
    using R' A(3) [of c] that by (simp add: ord)
  have sl: "set fl' \<union> live b' q' \<subseteq> insert a (set (a # fl) \<union> live b (Q iid))"
    using R' by auto
  have cap: "Capacity (pool me') = Capacity (pool me)" and inb: "inbound me' = inbound me"
    using R' A(4) F(2) by (simp_all add: me')
  note U = engine_update [OF E b bk st inb cap a fr sl]
  have bk': "books me' iid = Some b'"
    by (simp add: bk)
  note rd = reads [OF settledD(2) [OF st] bk', unfolded ord]
  have v: "view_of me' iid = (\<lambda>x. if x = s then own' else opp')"
    using rd(1) V by (auto simp: fun_eq_iff)
  have "rel_option same_grid (books me j) (books me' j)" for j
    using R' b by (cases "j = iid") (simp_all add: bk option.rel_refl)
  moreover have "engine_ok me'"
    using U(1) by (auto simp: engine_ok_def)
  moreover have "sent me' = sent me4" "clock me' = clock me4" "clock_calls me' = clock_calls me4"
    "fills_executed me' = fills_executed me4" "orders_rejected me' = orders_rejected me4"
    "orders_processed me' = orders_processed me4"
    by (simp_all add: me' sent_def)
  ultimately show "handled iid 1 reps (\<lambda>x. if x = s then own' else opp') me me'"
    unfolding handled_def using R' F v U(2-4) cap inb by simp
  have free: "free_list (pool me') = fl'"
    by (rule pool_repr_free_list [OF engine_reprD(1) [OF U(1)]])
  show here: "a \<in> set (free_list (pool me')) \<union> resting me' \<longleftrightarrow> a \<in> set fl' \<union> live b' q'"
    using resting_iff [OF U(1), of a] a by (auto simp: bk free split: if_splits)
  show "set fl \<subseteq> set (free_list (pool me'))"
    using R' by (simp add: free)
  show "no_leak me' \<longleftrightarrow> a \<in> set fl' \<union> live b' q'" if "no_leak me"
  proof
    have "a \<in> {..<Capacity (pool me')}"
      using engine_reprD(1) [OF E] by (simp add: cap pool_repr_def)
    moreover assume "no_leak me'"
    ultimately show "a \<in> set fl' \<union> live b' q'"
      using here by (simp add: no_leak_def)
  qed (use engine_update_leak [OF E U(1) b bk cap] R' that in auto)
  have buy: "is_buy (orders (accept msg a p me) a) = s"
    using accept_order(7) [OF refl] s by simp
  show "qty_exact me' iid" if "qty_exact me iid" "total_qty own' < 2 ^ 32"
    using R' that rd(2) A(5) V(1) by (simp add: buy)
  show "index_full me' iid" if i: "index_full me iid"
    and ids: "\<forall>s. \<forall>e \<in> set (view_of me iid s). e_id e \<noteq> im_order_id msg"
  proof -
    have "order_id (orders (accept msg a p me) c) \<noteq> im_order_id msg" if "c \<in> live b (Q iid)" for c
    proof -
      obtain x where "c \<in> set (prio b (Q iid) x)"
        using \<open>c \<in> live b (Q iid)\<close> unfolding live_prio by blast
      then have "entry_of (orders (accept msg a p me)) c \<in> set (view_of me iid x)"
        by (simp add: A(2) [symmetric] side_view_def)
      then show ?thesis
        using ids by fastforce
    qed
    then show ?thesis
      using R' i rd(3) A(6) accept_order(1) [OF refl] by simp
  qed
qed

lemma handle_new_order_meets:
  assumes E: "engine_repr me Q (a # fl)" and iid: "iid = im_instrument_id msg" and b: "books me iid = Some b"
    and ty: "ty = order_type_of_u8 (im_type msg)"
    and s: "s = (side_of_u8 (im_side msg) = Buy)" and v: "v = is_valid_price b (im_price msg)"
    and av: "av = available_quantity_at_or_better b (side_of_u8 (im_side msg)) (im_price msg)"
    and spec: "order_spec ty s v av (msg_entry msg a) (view_of me iid s) (view_of me iid (\<not> s)) =
      (reps, own', opp')"
  shows "run_meets (length reps) me (\<lambda>me'.
      handled iid 1 reps (\<lambda>x. if x = s then own' else opp') me me' \<and>
      (no_leak me \<longrightarrow> (no_leak me' \<longleftrightarrow> slot_kept ty s v (msg_entry msg a) (view_of me iid (\<not> s)))) \<and>
      (qty_exact me iid \<longrightarrow> total_qty own' < 2 ^ 32 \<longrightarrow> qty_exact me' iid) \<and>
      (index_full me iid \<longrightarrow> (\<forall>s. \<forall>e \<in> set (view_of me iid s). e_id e \<noteq> im_order_id msg) \<longrightarrow>
         index_full me' iid) \<and>
      (a \<in> set (free_list (pool me')) \<union> resting me' \<longleftrightarrow> slot_kept ty s v (msg_entry msg a) (view_of me iid (\<not> s))) \<and>
      set fl \<subseteq> set (free_list (pool me')))
    (\<lambda>x. x) (handle_new_order msg me)" (is "run_meets _ _ ?P _ _")
proof -
  obtain p where acq: "acquire (pool me) = (Some a, p)"
    using acquire_some [OF engine_reprD(1) [OF E]] by metis
  let ?me3 = "accept msg a p me"
  note A = accept_sweeping [OF E b acq, where msg = msg] and O = accept_order [OF refl, where msg = msg and a = a and p = p and me = me]
  have run: "handle_new_order msg me = ebind (route a ?me3 b) (\<lambda>(me4, b').
      Inr (me4\<lparr>books := (books me4)(iid := Some b')\<rparr>))"
    using b acq by (simp add: handle_new_order_def book_for_def accept_def now_ns_def Let_def iid)
  have "route_meets ?me3 b (Q iid) fl a (slot_kept ty s v (msg_entry msg a) (view_of me iid (\<not> s))) (reps, own', opp') (route a ?me3 b)"
    using route_refines [OF A(1) refl _ O(6) refl refl refl] engine_reprD(2) [OF E] A(4) spec
    by (simp add: O A(2) s v av ty)
  then have "run_meets (length reps) ?me3 (\<lambda>(me4, b'). \<exists>q' fl'.
      routed ?me3 b (Q iid) fl a reps me4 b' q' fl' \<and>
      side_view (orders me4) b' q' s = own' \<and> side_view (orders me4) b' q' (\<not> s) = opp' \<and>
      (a \<in> set fl' \<union> live b' q' \<longleftrightarrow> slot_kept ty s v (msg_entry msg a) (view_of me iid (\<not> s)))) fst (route a ?me3 b)"
    unfolding route_meets_def prod.case O(7) s .
  then have "run_meets (length reps + 0) ?me3 ?P (\<lambda>x. x) (handle_new_order msg me)"
    unfolding run
  proof (rule run_meets_bind)
    fix x :: "MatchingEngine \<times> OrderBook"
    assume "case x of (me4, b') \<Rightarrow> \<exists>q' fl'. routed ?me3 b (Q iid) fl a reps me4 b' q' fl' \<and>
      side_view (orders me4) b' q' s = own' \<and> side_view (orders me4) b' q' (\<not> s) = opp' \<and>
      (a \<in> set fl' \<union> live b' q' \<longleftrightarrow> slot_kept ty s v (msg_entry msg a) (view_of me iid (\<not> s)))"
    then obtain me4 b' q' fl' where x: "x = (me4, b')" and R: "routed ?me3 b (Q iid) fl a reps me4 b' q' fl'"
      and V: "side_view (orders me4) b' q' s = own'" "side_view (orders me4) b' q' (\<not> s) = opp'"
      and kept: "a \<in> set fl' \<union> live b' q' \<longleftrightarrow> slot_kept ty s v (msg_entry msg a) (view_of me iid (\<not> s))"
      by auto
    note H = routed_handled [OF E b acq s R refl V]
    show "run_meets 0 (fst x) ?P (\<lambda>x. x)
        (case x of (me4, b') \<Rightarrow> Inr (me4\<lparr>books := (books me4)(iid := Some b')\<rparr>))"
      unfolding x prod.case fst_conv
    proof (rule run_meets_return)
      show "?P (me4\<lparr>books := (books me4)(iid := Some b')\<rparr>)"
        using H kept by blast
    qed (simp add: can_send_def)
  qed
  then show ?thesis
    using accept_fields(10) by (auto intro: run_meets_start)
qed

end
