(* ===== verification/Engine_Run.thy ===== *)
theory Engine_Run
  imports Engine_Inv
begin

section \<open>Cancels, rejections, dispatch and polling\<close>

text \<open>
  The remaining handlers, the dispatcher, \<open>submit\<close> and \<open>poll\<close>, and the invariants of
  every engine a run can reach: well-formedness and an uncrossed book.
\<close>

subsection \<open>Engines that differ in their queues and counters only\<close>

lemma engine_same:
  assumes E: "engine_repr me Q fl" and eq: "pool me' = pool me" "books me' = books me"
    and ok: "out_ok me'" "spsc_ok kPipelineQueueCapacity (inbound me')"
  shows "engine_repr me' Q fl" "view_of me' = view_of me" "qty_exact me' = qty_exact me"
    "index_full me' = index_full me" "no_leak me' = no_leak me"
proof -
  have o: "orders me' = orders me"
    by (simp add: orders_def eq)
  show "engine_repr me' Q fl"
    using E ok by (simp add: engine_repr_def settled_def eq o)
  show v: "view_of me' = view_of me" and "qty_exact me' = qty_exact me" "index_full me' = index_full me"
    by (auto simp: view_of_def qty_exact_def index_full_def eq o fun_eq_iff split: option.split)
  show "no_leak me' = no_leak me"
    by (simp add: no_leak_def resting_def v eq)
qed

lemma engine_ok_same:
  assumes "engine_ok me" and "pool me' = pool me" "books me' = books me"
    and "out_ok me'" "spsc_ok kPipelineQueueCapacity (inbound me')"
  shows "engine_ok me'" "view_of me' = view_of me" "qty_exact me' = qty_exact me"
    "index_full me' = index_full me" "no_leak me' = no_leak me"
  using assms engine_same by (metis engine_ok_def)+

lemma engine_okD:
  assumes "engine_ok me"
  shows "out_ok me" "spsc_ok kPipelineQueueCapacity (inbound me)" "pool_ok (pool me)"
  using assms pool_repr_pool_ok by (auto simp: engine_ok_def engine_repr_def)

subsection \<open>Rejections\<close>

text \<open>A message for an unknown instrument, or one that finds the pool exhausted.\<close>

lemma reject_new_meets:
  assumes E: "engine_ok me"
  shows "run_meets 1 me (\<lambda>me'.
      handled iid 0 [report Reject (im_order_id msg) 0 0 0 (im_quantity msg)] (view_of me iid) me me' \<and>
      pool me' = pool me \<and> books me' = books me)
    (\<lambda>x. x) (reject_new msg me)"
proof -
  let ?R = "report Reject (im_order_id msg) 0 0 0 (im_quantity msg)"
  have "run_meets (1 + 0) me (\<lambda>me'. handled iid 0 [?R] (view_of me iid) me me' \<and> pool me' = pool me \<and> books me' = books me)
    (\<lambda>x. x) (ebind (post ?R me) (\<lambda>me1. Inr (me1\<lparr>orders_rejected := orders_rejected me1 + 1\<rparr>)))"
  proof (rule run_meets_bind [OF run_meets_post [OF engine_okD(1) [OF E]]])
    fix me1 assume P: "posted me [?R] me1"
    let ?me = "me1\<lparr>orders_rejected := orders_rejected me1 + 1\<rparr>"
    note F = posted_fields [OF P]
    note S = engine_ok_same [OF E, of ?me]
    have "out_ok ?me" "sent ?me = sent me1"
      using F(9) by (simp_all add: out_ok_def sent_def)
    then have "handled iid 0 [?R] (view_of me iid) me ?me"
      using S F engine_okD(2) [OF E] by (simp add: handled_def is_trade_def option.rel_refl)
    then show "run_meets 0 me1 (\<lambda>me'. handled iid 0 [?R] (view_of me iid) me me' \<and> pool me' = pool me \<and>
        books me' = books me) (\<lambda>x. x) (Inr ?me)"
      using F by (intro run_meets_return) (simp_all add: can_send_def)
  qed
  then show ?thesis
    by (simp add: reject_new_def post_eqs)
qed

subsection \<open>New orders, in terms of what can be read off the engine\<close>

lemma engine_repr_free:
  assumes "engine_ok me"
  obtains Q where "engine_repr me Q (free_list (pool me))"
  using assms pool_repr_free_list by (metis engine_ok_def engine_reprD(1))

lemma free_slots_unused:
  assumes "engine_ok me"
  shows "set (free_list (pool me)) \<inter> resting me = {}" "set (free_list (pool me)) \<subseteq> {..<Capacity (pool me)}"
    "distinct (free_list (pool me))"
proof -
  obtain Q where E: "engine_repr me Q (free_list (pool me))"
    by (rule engine_repr_free [OF assms])
  show "set (free_list (pool me)) \<inter> resting me = {}"
    using resting_iff [OF E] settledD(4) [OF engine_reprD(5) [OF E]] by fastforce
  show "set (free_list (pool me)) \<subseteq> {..<Capacity (pool me)}" "distinct (free_list (pool me))"
    using engine_reprD(1) [OF E] by (auto simp: pool_repr_def)
qed

lemma new_order_meets:
  assumes "engine_ok me" and "iid = im_instrument_id msg" and "books me iid = Some b"
    and fl: "free_list (pool me) = a # fl"
    and "ty = order_type_of_u8 (im_type msg)" and "s = (side_of_u8 (im_side msg) = Buy)"
    and "v = is_valid_price b (im_price msg)"
    and "av = available_quantity_at_or_better b (side_of_u8 (im_side msg)) (im_price msg)"
    and "order_spec ty s v av (msg_entry msg a) (view_of me iid s) (view_of me iid (\<not> s)) =
      (reps, own', opp')"
  shows "run_meets (length reps) me (\<lambda>me'.
      handled iid 1 reps (\<lambda>x. if x = s then own' else opp') me me' \<and>
      (no_leak me \<longrightarrow> (no_leak me' \<longleftrightarrow> slot_kept ty s v (msg_entry msg a) (view_of me iid (\<not> s)))) \<and>
      (qty_exact me iid \<longrightarrow> total_qty own' < 2 ^ 32 \<longrightarrow> qty_exact me' iid) \<and>
      (index_full me iid \<longrightarrow> (\<forall>s. \<forall>e \<in> set (view_of me iid s). e_id e \<noteq> im_order_id msg) \<longrightarrow>
         index_full me' iid) \<and>
      (a \<in> set (free_list (pool me')) \<union> resting me' \<longleftrightarrow> slot_kept ty s v (msg_entry msg a) (view_of me iid (\<not> s))) \<and>
      set fl \<subseteq> set (free_list (pool me')))
    (\<lambda>x. x) (handle_new_order msg me)"
proof -
  obtain Q where "engine_repr me Q (a # fl)"
    using engine_repr_free [OF assms(1)] fl by metis
  then show ?thesis
    using assms by (intro handle_new_order_meets)
qed

subsection \<open>Cancels\<close>

text \<open>
  Cancelling a resting order \<open>a\<close>: it leaves both lists, its slot is free again, and one
  acknowledgement with its remaining quantity is sent.
\<close>

lemma cancel_handled:
  assumes E: "engine_repr me Q fl" and b: "books me iid = Some b" and al: "a \<in> live b (Q iid)"
    and rem: "removes (orders me) b (Q iid) a w h b' q'"
    and V: "\<And>s. side_view h b' q' s = filter (\<lambda>e. e_slot e \<noteq> a) (side_view (orders me) b (Q iid) s)"
    and P: "posted ((set_orders h me)\<lparr>books := (books me)(iid := Some b')\<rparr>) [R] me2"
    and R: "er_kind R = CancelAck" and me': "me' = pool_release a me2"
  shows "handled iid 0 [R] (\<lambda>s. filter (\<lambda>e. e_slot e \<noteq> a) (view_of me iid s)) me me'"
    "no_leak me \<Longrightarrow> no_leak me'" "qty_exact me iid \<Longrightarrow> qty_exact me' iid"
    "index_full me iid \<Longrightarrow> index_full me' iid"
proof -
  note D = settledD [OF engine_reprD(5) [OF E b]] and M = removesD [OF rem] and F = posted_fields [OF P]
  let ?p = "(pool me)\<lparr>storage := h\<rparr>"
  have pool': "pool me' = release ?p a"
    using F(1) by (simp add: me' pool_release_def set_orders_def)
  have ord: "orders me' = h(a := (h a)\<lparr>nxt := freelist_head ?p, prv := None\<rparr>)"
    by (simp add: orders_def pool')
  have na: "a \<notin> live b' q'"
    using M(6) by simp
  note O = outside_frame [OF M(1) na, of "(h a)\<lparr>nxt := freelist_head ?p, prv := None\<rparr>", folded ord]
  have ac: "a < Capacity (pool me)" "a \<notin> set fl"
    using D(4,5) al by auto
  have "h c = storage (pool me) c" if "c \<in> set fl" for c
    using M(5) [of c] that D(4) by (auto simp: orders_def)
  then have "pool_repr ?p fl"
    by (rule pool_repr_frame [OF D(1)])
  then have pr: "pool_repr (pool me') (a # fl)"
    unfolding pool' using ac by (intro release_repr) simp_all
  have cap: "Capacity (pool me') = Capacity (pool me)"
    by (simp add: pool')
  have ok: "out_ok me'" and bk: "books me' = (books me)(iid := Some b')" and inb: "inbound me' = inbound me"
    using F(2,3,9) by (simp_all add: me' pool_release_def out_ok_def set_orders_def)
  have st: "settled me' b' q' (a # fl)"
    unfolding settled_def using pr O(1) ok M(6) D(4,5) cap na by auto
  have fr: "orders me' c = orders me c" if "c \<notin> insert a (live b (Q iid))" for c
    using M(5) [of c] that by (simp add: ord)
  have oth: "a \<notin> live bj (Q j)" if "j \<noteq> iid" "books me j = Some bj" for j bj
    using engine_reprD(6) [OF E that(2) b that(1)] al by auto
  have sl: "set (a # fl) \<union> live b' q' \<subseteq> insert a (set fl \<union> live b (Q iid))"
    using M(6) by auto
  note U = engine_update [OF E b bk st inb cap oth fr sl]
  have bk': "books me' iid = Some b'"
    by (simp add: bk)
  note rd = reads [OF settledD(2) [OF st] bk'] and rd0 = reads [OF D(2) b]
  have "view_of me' iid = (\<lambda>s. filter (\<lambda>e. e_slot e \<noteq> a) (view_of me iid s))"
    by (simp add: fun_eq_iff rd(1) rd0(1) O(2) V)
  moreover have "rel_option same_grid (books me j) (books me' j)" for j
    using M(2) b by (cases "j = iid") (simp_all add: bk option.rel_refl)
  moreover have "engine_ok me'"
    using U(1) by (auto simp: engine_ok_def)
  moreover have "sent me' = sent me2" "sent ((set_orders h me)\<lparr>books := (books me)(iid := Some b')\<rparr>) = sent me"
    by (simp_all add: me' sent_def pool_release_def set_orders_def)
  ultimately show "handled iid 0 [R] (\<lambda>s. filter (\<lambda>e. e_slot e \<noteq> a) (view_of me iid s)) me me'"
    unfolding handled_def using F U(2-4) cap inb R
    by (simp add: me' pool_release_def set_orders_def is_trade_def)
  show "no_leak me'" if "no_leak me"
    using engine_update_leak [OF E U(1) b bk cap _ that] M(6) by auto
  show "qty_exact me iid \<Longrightarrow> qty_exact me' iid"
    using rd(2) rd0(2) O(3) M(8) by blast
  show "index_full me iid \<Longrightarrow> index_full me' iid"
    using rd(3) rd0(3) O(4) removes_complete [OF rem al] by blast
qed

lemma handle_cancel_meets:
  assumes E: "engine_repr me Q fl" and iid: "iid = im_instrument_id msg" and b: "books me iid = Some b"
    and a: "find_order b (im_order_id msg) = Some a"
  shows "run_meets 1 me (\<lambda>me'.
      handled iid 0 [report CancelAck (im_order_id msg) 0 0 0 (quantity (orders me a))]
        (\<lambda>s. filter (\<lambda>e. e_slot e \<noteq> a) (view_of me iid s)) me me' \<and>
      (no_leak me \<longrightarrow> no_leak me') \<and> (qty_exact me iid \<longrightarrow> qty_exact me' iid) \<and>
      (index_full me iid \<longrightarrow> index_full me' iid))
    (\<lambda>x. x) (handle_cancel msg me)" (is "run_meets _ _ ?P _ _")
proof -
  note D = settledD [OF engine_reprD(5) [OF E b]]
  have al: "a \<in> live b (Q iid)" "order_id (orders me a) = im_order_id msg"
    using book_reprD(4) [OF D(2)] a by (auto simp: index_ok_def find_order_def)
  obtain h b' where out: "cancel_order_ptr (orders me) b (Some a) = (h, b')"
    by fastforce
  obtain s i ys zs where q: "Q iid s i = ys @ a # zs" "i < num_levels b"
    and rem: "removes (orders me) b (Q iid) a (unlink ((orders me a)\<lparr>status := Cancelled\<rparr>)) h b'
      (updq (Q iid) s i (ys @ zs))"
    using cancel_order_ptr_removes [OF D(2) al(1) out] by metis
  let ?q = "updq (Q iid) s i (ys @ zs)"
  note V = removes_view [OF D(2) q(2,1) rem] and M = removesD [OF rem]
  let ?me1 = "(set_orders h me)\<lparr>books := (books me)(iid := Some b')\<rparr>"
  let ?R = "report CancelAck (im_order_id msg) 0 0 0 (quantity (orders me a))"
  have "order_id (h a) = im_order_id msg"
    using M(3) al(2) by (simp add: unlink_def)
  then have run: "handle_cancel msg me = ebind (post ?R ?me1) (\<lambda>me2. Inr (pool_release a me2))"
    using b a out by (simp add: handle_cancel_def book_for_def iid post_eqs Let_def)
  have ok1: "out_ok ?me1"
    using D(3) by (simp add: out_ok_def set_orders_def)
  have "run_meets (1 + 0) ?me1 ?P (\<lambda>x. x) (handle_cancel msg me)"
    unfolding run
  proof (rule run_meets_bind [OF run_meets_post [OF ok1]])
    fix me2 assume P: "posted ?me1 [?R] me2"
    have "?P (pool_release a me2)"
      using cancel_handled [OF E b al(1) rem V P _ refl] by auto
    then show "run_meets 0 me2 ?P (\<lambda>x. x) (Inr (pool_release a me2))"
      by (rule run_meets_return) simp
  qed
  then show ?thesis
    by (auto simp: can_send_def set_orders_def intro: run_meets_start)
qed

text \<open>A cancel that finds nothing changes nothing.\<close>

lemma handle_cancel_unknown:
  "books me (im_instrument_id msg) = None \<Longrightarrow> handle_cancel msg me = Inr me"
  "books me (im_instrument_id msg) = Some b \<Longrightarrow> find_order b (im_order_id msg) = None \<Longrightarrow>
   handle_cancel msg me = Inr me"
  by (simp_all add: handle_cancel_def book_for_def)

subsection \<open>Uncrossed books\<close>

text \<open>Every bid is below every ask.\<close>

definition uncrossed :: "(bool \<Rightarrow> Entry list) \<Rightarrow> bool" where
  "uncrossed V \<longleftrightarrow> (\<forall>x \<in> set (V True). \<forall>y \<in> set (V False). e_price x < e_price y)"

lemma uncrossed_iff:
  "uncrossed V \<longleftrightarrow> (\<forall>x \<in> set (V s). \<forall>y \<in> set (V (\<not> s)). better (\<not> s) (e_price x) (e_price y))"
  by (cases s) (auto simp: uncrossed_def better_def)

lemma uncrossed_subset:
  assumes "uncrossed V" and "\<And>s. e_price ` set (V' s) \<subseteq> e_price ` set (V s)"
  shows "uncrossed V'"
  unfolding uncrossed_def
proof (intro ballI)
  fix x y assume "x \<in> set (V' True)" "y \<in> set (V' False)"
  then have "e_price x \<in> e_price ` set (V True)" "e_price y \<in> e_price ` set (V False)"
    using assms(2) by blast+
  then show "e_price x < e_price y"
    using assms(1) unfolding uncrossed_def by auto
qed

lemma match_spec_prices:
  "match_spec ok aid r es = (reps, r', es') \<Longrightarrow> e_price ` set es' \<subseteq> e_price ` set es"
proof (induction es arbitrary: r reps)
  case (Cons e es)
  from Cons.prems show ?case
  proof (cases rule: match_spec_cases)
    case (full reps1)
    then show ?thesis
      using Cons.IH [OF full(4)] by auto
  qed auto
qed simp

lemma set_insert_entry: "set (insert_entry s e es) = insert e (set es)"
proof -
  have "set es = set (takeWhile P es) \<union> set (dropWhile P es)" for P
    by (metis set_append takeWhile_dropWhile_id)
  then show ?thesis
    by (auto simp: insert_entry_def)
qed

lemma order_spec_other:
  assumes "order_spec ty s v av e own opp = (reps, own', opp')" and "ty \<noteq> Limit"
  shows "own' = own" "e_price ` set opp' \<subseteq> e_price ` set opp"
  using assms by (cases ty; auto split: prod.splits if_splits dest: match_spec_prices)+

text \<open>No order type can cross the book.\<close>

lemma order_spec_uncrossed:
  assumes spec: "order_spec ty s v av e own opp = (reps, own', opp')"
    and un: "uncrossed (\<lambda>x. if x = s then own else opp)" and srt: "price_sorted (\<not> s) opp"
  shows "uncrossed (\<lambda>x. if x = s then own' else opp')"
proof -
  have less: "uncrossed (\<lambda>x. if x = s then own else es)" if "e_price ` set es \<subseteq> e_price ` set opp" for es
    using that by (intro uncrossed_subset [OF un]) auto
  show ?thesis
  proof (cases "ty = Limit")
    case False
    then show ?thesis
      using less [OF order_spec_other(2) [OF spec]] order_spec_other(1) [OF spec] by metis
  next
    case Limit: True
    obtain r where m: "match_spec (crosses s (e_price e)) (e_id e) (e_qty e) opp = (reps, r, opp')"
      and own: "own' = (if r = 0 \<or> \<not> v then own else insert_entry s (e\<lparr>e_qty := r\<rparr>) own)"
      using spec Limit by (auto split: prod.splits)
    note U = less [OF match_spec_prices [OF m]]
    show ?thesis
    proof (cases "r = 0 \<or> \<not> v")
      case True
      then have eq: "own' = own"
        by (simp add: own)
      show ?thesis
        unfolding eq by (rule U)
    next
      case False
      have "better (\<not> s) (e_price e) (e_price y)" if "y \<in> set opp'" for y
        using match_spec_none_cross [OF m srt _ that] False by (auto simp: crosses_def better_def)
      then show ?thesis
        using U False unfolding uncrossed_iff [where s = s] by (simp add: own set_insert_entry)
    qed
  qed
qed

subsection \<open>Dispatch\<close>

lemma can_send_le: "n \<le> m \<Longrightarrow> can_send m me \<Longrightarrow> can_send n me"
  by (auto simp: can_send_def can_post_def)

lemma run_meets_le: "run_meets n me P eng x \<Longrightarrow> n \<le> m \<Longrightarrow> run_meets m me P eng x"
  unfolding run_meets_def by (meson add_le_mono1 can_send_le)

text \<open>Bounds on the number of reports one message can cause.\<close>

lemma match_spec_length: "match_spec ok aid r es = (reps, r', es') \<Longrightarrow> length reps \<le> 2 * length es"
proof (induction es arbitrary: r reps)
  case (Cons e es)
  from Cons.prems show ?case
  proof (cases rule: match_spec_cases)
    case (full reps1)
    then show ?thesis
      using Cons.IH [OF full(4)] by simp
  qed simp_all
qed simp

lemma order_spec_length:
  "order_spec ty s v av e own opp = (reps, own', opp') \<Longrightarrow> length reps \<le> 2 * length opp + 1"
  by (cases ty)
     (auto simp: residual_ack_def split: prod.splits if_splits dest!: match_spec_length)

lemma view_length:
  assumes E: "engine_repr me Q fl"
  shows "length (view_of me iid s) \<le> Capacity (pool me)"
proof (cases "books me iid")
  case None
  then show ?thesis
    by (simp add: view_of_def)
next
  case (Some b)
  note D = settledD [OF engine_reprD(5) [OF E Some]]
  have "set (prio b (Q iid) s) \<subseteq> {..<Capacity (pool me)}"
    using D(5) prio_live by blast
  then have "card (set (prio b (Q iid) s)) \<le> Capacity (pool me)"
    using card_mono [of "{..<Capacity (pool me)}"] by simp
  then show ?thesis
    using distinct_prio [OF D(2), of s] reads(1) [OF D(2) Some, of s]
    by (simp add: side_view_def distinct_card)
qed

lemma view_sorted:
  assumes E: "engine_repr me Q fl"
  shows "price_sorted s (view_of me iid s)"
proof (cases "books me iid")
  case None
  then show ?thesis
    by (simp add: view_of_def price_sorted_def)
next
  case (Some b)
  then show ?thesis
    using settledD(2) [OF engine_reprD(5) [OF E Some]] reads(1) side_view_sorted by metis
qed

definition engine_inv :: "MatchingEngine \<Rightarrow> bool" where
  "engine_inv me \<longleftrightarrow> engine_ok me \<and> (\<forall>iid. uncrossed (view_of me iid))"

definition max_reports :: "MatchingEngine \<Rightarrow> nat" where
  "max_reports me = 2 * Capacity (pool me) + 1"

lemma max_reports_ge: "1 \<le> max_reports me"
  by (simp add: max_reports_def)

text \<open>What dispatching keeps: the invariant, the pool's size and the inbound queue.\<close>

definition dispatched :: "MatchingEngine \<Rightarrow> MatchingEngine \<Rightarrow> bool" where
  "dispatched me me' \<longleftrightarrow>
     engine_inv me' \<and> Capacity (pool me') = Capacity (pool me) \<and> inbound me' = inbound me \<and>
     orders_processed me' = orders_processed me"

lemma dispatched_handled:
  assumes "engine_inv me" and "handled iid t reps V me me'" and "uncrossed V"
  shows "dispatched me me'"
proof -
  have "uncrossed (view_of me' j)" for j
    using assms handledD(2,3) [OF assms(2)] by (cases "j = iid") (simp_all add: engine_inv_def)
  then show ?thesis
    using handledD [OF assms(2)] by (simp add: dispatched_def engine_inv_def)
qed

lemma handle_new_order_dispatched:
  assumes inv: "engine_inv me"
  shows "run_meets (max_reports me) me (dispatched me) (\<lambda>x. x) (handle_new_order msg me)"
proof -
  let ?iid = "im_instrument_id msg"
  obtain Q fl where E: "engine_repr me Q fl"
    using inv by (auto simp: engine_inv_def engine_ok_def)
  have un: "uncrossed (view_of me ?iid)" and ok: "engine_ok me"
    using inv by (auto simp: engine_inv_def)
  have rej: "run_meets (max_reports me) me (dispatched me) (\<lambda>x. x) (reject_new msg me)"
    by (rule run_meets_le [OF run_meets_mono [OF reject_new_meets [OF ok, of ?iid msg]]])
       (use dispatched_handled [OF inv _ un] max_reports_def in auto)
  show ?thesis
  proof (cases "books me ?iid")
    case None
    then show ?thesis
      using rej by (simp add: handle_new_order_def book_for_def)
  next
    case b: (Some b)
    show ?thesis
    proof (cases fl)
      case Nil
      then have "acquire (pool me) = (None, pool me)"
        using acquire_none engine_reprD(1) [OF E] by simp
      then show ?thesis
        using rej b by (simp add: handle_new_order_def book_for_def)
    next
      case (Cons a fl1)
      define s where "s = (side_of_u8 (im_side msg) = Buy)"
      let ?spec = "order_spec (order_type_of_u8 (im_type msg)) s (is_valid_price b (im_price msg))
        (available_quantity_at_or_better b (side_of_u8 (im_side msg)) (im_price msg))
        (msg_entry msg a) (view_of me ?iid s) (view_of me ?iid (\<not> s))"
      obtain reps own' opp' where sp: "?spec = (reps, own', opp')"
        by (metis prod.collapse)
      have "(\<lambda>x. if x = s then view_of me ?iid s else view_of me ?iid (\<not> s)) = view_of me ?iid"
        by (auto simp: fun_eq_iff)
      then have un': "uncrossed (\<lambda>x. if x = s then own' else opp')"
        using order_spec_uncrossed [OF sp] un view_sorted [OF E] by simp
      have len: "length reps \<le> max_reports me"
        using order_spec_length [OF sp] view_length [OF E, of ?iid "\<not> s"] by (simp add: max_reports_def)
      have "run_meets (length reps) me (dispatched me) (\<lambda>x. x) (handle_new_order msg me)"
        by (rule run_meets_mono [OF handle_new_order_meets [OF E [unfolded Cons] refl b refl s_def refl refl sp]])
           (rule dispatched_handled [OF inv _ un'], erule conjunct1)
      then show ?thesis
        using len by (rule run_meets_le)
    qed
  qed
qed

lemma dispatched_refl: "engine_inv me \<Longrightarrow> dispatched me me"
  by (simp add: dispatched_def)

lemma run_meets_skip: "engine_inv me \<Longrightarrow> run_meets n me (dispatched me) (\<lambda>x. x) (Inr me)"
  by (rule run_meets_le [OF run_meets_return]) (auto simp: dispatched_refl)

lemma handle_cancel_dispatched:
  assumes inv: "engine_inv me"
  shows "run_meets (max_reports me) me (dispatched me) (\<lambda>x. x) (handle_cancel msg me)"
proof -
  let ?iid = "im_instrument_id msg"
  obtain Q fl where E: "engine_repr me Q fl"
    using inv by (auto simp: engine_inv_def engine_ok_def)
  have un: "uncrossed (view_of me ?iid)"
    using inv by (simp add: engine_inv_def)
  consider "handle_cancel msg me = Inr me"
    | b a where "books me ?iid = Some b" "find_order b (im_order_id msg) = Some a"
    using handle_cancel_unknown by (metis option.exhaust)
  then show ?thesis
  proof cases
    case 1
    then show ?thesis
      using run_meets_skip [OF inv] by simp
  next
    case (2 b a)
    have un': "uncrossed (\<lambda>s. filter (\<lambda>e. e_slot e \<noteq> a) (view_of me ?iid s))"
      by (rule uncrossed_subset [OF un]) auto
    have "run_meets 1 me (dispatched me) (\<lambda>x. x) (handle_cancel msg me)"
      by (rule run_meets_mono [OF handle_cancel_meets [OF E refl 2]])
         (rule dispatched_handled [OF inv _ un'], erule conjunct1)
    then show ?thesis
      using max_reports_ge by (rule run_meets_le)
  qed
qed

lemma dispatch_dispatched:
  "engine_inv me \<Longrightarrow> run_meets (max_reports me) me (dispatched me) (\<lambda>x. x) (dispatch msg me)"
  using handle_new_order_dispatched handle_cancel_dispatched run_meets_skip
  by (cases "im_kind msg") (simp_all add: dispatch_def)

lemma dispatched_trans: "dispatched me me1 \<Longrightarrow> dispatched me1 me2 \<Longrightarrow> dispatched me me2"
  by (simp add: dispatched_def)

lemma dispatch_all_dispatched:
  assumes "engine_inv me"
  shows "run_meets (length ms * max_reports me) me (dispatched me) (\<lambda>x. x) (dispatch_all ms me)"
  using assms
proof (induction ms arbitrary: me)
  case Nil
  then show ?case
    using run_meets_skip by simp
next
  case (Cons m ms)
  have "run_meets (max_reports me + length ms * max_reports me) me (dispatched me) (\<lambda>x. x)
      (ebind (dispatch m me) (dispatch_all ms))"
  proof (rule run_meets_bind [OF dispatch_dispatched [OF Cons.prems]])
    fix me1 assume d: "dispatched me me1"
    then have "engine_inv me1" and eq: "max_reports me1 = max_reports me"
      by (simp_all add: dispatched_def max_reports_def)
    from Cons.IH [OF this(1)] show "run_meets (length ms * max_reports me) me1 (dispatched me) (\<lambda>x. x) (dispatch_all ms me1)"
      unfolding eq by (rule run_meets_mono) (rule dispatched_trans [OF d])
  qed
  then show ?case
    by simp
qed

subsection \<open>Submit and poll\<close>

lemma engine_inv_same:
  assumes "engine_inv me" and "pool me' = pool me" "books me' = books me"
    and "out_ok me'" "spsc_ok kPipelineQueueCapacity (inbound me')"
  shows "engine_inv me'" "view_of me' = view_of me"
  using assms engine_ok_same [of me me'] by (auto simp: engine_inv_def)

lemma engine_invD:
  assumes "engine_inv me"
  shows "out_ok me" "spsc_ok kPipelineQueueCapacity (inbound me)"
  using assms engine_okD by (auto simp: engine_inv_def)

lemma submit_meets:
  assumes inv: "engine_inv me"
  shows "run_meets (max_reports me) me
    (\<lambda>me'. engine_inv me' \<and> inbound me' = inbound me \<and> orders_processed me' = orders_processed me + 1)
    (\<lambda>x. x) (submit msg me)"
proof -
  have "run_meets (max_reports me + 0) me
    (\<lambda>me'. engine_inv me' \<and> inbound me' = inbound me \<and> orders_processed me' = orders_processed me + 1)
    (\<lambda>x. x) (submit msg me)"
    unfolding submit_def
  proof (rule run_meets_bind [OF dispatch_dispatched [OF inv]], rule run_meets_return)
    fix me1 assume d: "dispatched me me1"
    let ?me = "me1\<lparr>orders_processed := orders_processed me1 + 1\<rparr>"
    have "engine_inv ?me"
      using d engine_invD [of me1] by (intro engine_inv_same(1) [of me1 ?me]) (simp_all add: dispatched_def out_ok_def)
    then show "engine_inv ?me \<and> inbound ?me = inbound me \<and> orders_processed ?me = orders_processed me + 1"
      using d by (simp add: dispatched_def)
  qed (simp add: can_send_def)
  then show ?thesis
    by simp
qed

text \<open>
  \<open>poll\<close> takes the oldest messages, at most 64 of them, and dispatches them in order; the
  rest stays queued.
\<close>

lemma engine_poll_pops:
  assumes "spsc_ok kPipelineQueueCapacity (inbound me)"
  obtains q where "spsc_ok kPipelineQueueCapacity q"
    "contents kPipelineQueueCapacity q = drop (min n 64) (contents kPipelineQueueCapacity (inbound me))"
    "engine_poll n me =
       ebind (dispatch_all (take (min n 64) (contents kPipelineQueueCapacity (inbound me))) (me\<lparr>inbound := q\<rparr>))
         (\<lambda>me1. Inr (min (min n 64) (length (contents kPipelineQueueCapacity (inbound me))),
            me1\<lparr>orders_processed := orders_processed me1 +
              of_nat (min (min n 64) (length (contents kPipelineQueueCapacity (inbound me))))\<rparr>))"
proof -
  obtain batch q where bq: "try_pop_batch kPipelineQueueCapacity (inbound me) (min n 64) = (batch, q)"
    by fastforce
  note r = sq.pop_upto_result [OF assms, of "min n 64" batch q]
  have "pop_upto (try_pop kPipelineQueueCapacity) (min n 64) (inbound me) = (batch, q)"
    using bq try_pop_batch_pop_upto [OF assms] by simp
  note r = sq.pop_upto_result [OF assms this]
  show thesis
  proof (rule that)
    show "spsc_ok kPipelineQueueCapacity q"
      "contents kPipelineQueueCapacity q = drop (min n 64) (contents kPipelineQueueCapacity (inbound me))"
      using r by simp_all
    show "engine_poll n me =
       ebind (dispatch_all (take (min n 64) (contents kPipelineQueueCapacity (inbound me))) (me\<lparr>inbound := q\<rparr>))
         (\<lambda>me1. Inr (min (min n 64) (length (contents kPipelineQueueCapacity (inbound me))),
            me1\<lparr>orders_processed := orders_processed me1 +
              of_nat (min (min n 64) (length (contents kPipelineQueueCapacity (inbound me))))\<rparr>))"
      using r bq by (simp add: engine_poll_def min.commute del: length_contents)
  qed
qed

lemma drop_min_length: "drop (min m (length xs)) xs = drop m xs"
  by (cases "m \<le> length xs") (simp_all add: min_def)

lemma engine_poll_meets:
  assumes inv: "engine_inv me"
    and k: "k = min (min n 64) (length (contents kPipelineQueueCapacity (inbound me)))"
  shows "run_meets (64 * max_reports me) me
    (\<lambda>(j, me'). j = k \<and> engine_inv me' \<and> orders_processed me' = orders_processed me + of_nat k \<and>
       contents kPipelineQueueCapacity (inbound me') = drop k (contents kPipelineQueueCapacity (inbound me)))
    snd (engine_poll n me)"
proof -
  let ?cs = "contents kPipelineQueueCapacity (inbound me)"
  let ?P = "\<lambda>(j, me'). j = k \<and> engine_inv me' \<and> orders_processed me' = orders_processed me + of_nat k \<and>
     contents kPipelineQueueCapacity (inbound me') = drop k ?cs"
  obtain q where q: "spsc_ok kPipelineQueueCapacity q" "contents kPipelineQueueCapacity q = drop (min n 64) ?cs"
    and run: "engine_poll n me = ebind (dispatch_all (take (min n 64) ?cs) (me\<lparr>inbound := q\<rparr>))
      (\<lambda>me1. Inr (k, me1\<lparr>orders_processed := orders_processed me1 + of_nat k\<rparr>))"
    using engine_poll_pops [OF engine_invD(2) [OF inv], of n] unfolding k by blast
  let ?me0 = "me\<lparr>inbound := q\<rparr>"
  have inv0: "engine_inv ?me0"
    using q(1) engine_invD(1) [OF inv] by (intro engine_inv_same(1) [OF inv]) (simp_all add: out_ok_def)
  have "drop (min n 64) ?cs = drop k ?cs"
    unfolding k by (rule drop_min_length [symmetric])
  then have cs: "contents kPipelineQueueCapacity q = drop k ?cs"
    using q(2) by simp
  have "length (take (min n 64) ?cs) * max_reports ?me0 \<le> 64 * max_reports me"
    by (intro mult_le_mono) (simp_all add: max_reports_def)
  then have "run_meets (64 * max_reports me) ?me0 (dispatched ?me0) (\<lambda>x. x) (dispatch_all (take (min n 64) ?cs) ?me0)"
    by (rule run_meets_le [OF dispatch_all_dispatched [OF inv0]])
  then have "run_meets (64 * max_reports me + 0) ?me0 ?P snd (engine_poll n me)"
    unfolding run
  proof (rule run_meets_bind [OF _ run_meets_return])
    fix me1 assume d: "dispatched ?me0 me1"
    let ?me = "me1\<lparr>orders_processed := orders_processed me1 + of_nat k\<rparr>"
    have "engine_inv ?me"
      using d engine_invD [of me1] by (intro engine_inv_same(1) [of me1 ?me]) (simp_all add: dispatched_def out_ok_def)
    then show "?P (k, ?me)"
      using d cs by (simp add: dispatched_def)
  qed (simp add: can_send_def)
  moreover have "can_send j ?me0 = can_send j me" for j
    by (simp add: can_send_def)
  ultimately show ?thesis
    unfolding add_0_right by (rule run_meets_start)
qed

subsection \<open>With a silent consumer\<close>

text \<open>While nobody drains the outbound queue, the engine takes nothing out of it.\<close>

definition quiet :: "MatchingEngine \<Rightarrow> MatchingEngine \<Rightarrow> bool" where
  "quiet me me' \<longleftrightarrow> (pauses me = [] \<longrightarrow> pauses me' = [] \<and> snd (outbound me') = snd (outbound me))"

lemma quiet_trans: "quiet me me1 \<Longrightarrow> quiet me1 me2 \<Longrightarrow> quiet me me2"
  by (simp add: quiet_def)

lemma quiet_same [simp]:
  "quiet me me" "quiet me (pool_release a me') = quiet me me'" "quiet me (set_orders h me') = quiet me me'"
  "quiet (set_orders h me) me' = quiet me me'"
  "quiet me (me'\<lparr>orders_rejected := n\<rparr>) = quiet me me'" "quiet me (me'\<lparr>orders_processed := n\<rparr>) = quiet me me'"
  "quiet (me\<lparr>fills_executed := n\<rparr>) me' = quiet me me'" "quiet me (me'\<lparr>books := b\<rparr>) = quiet me me'"
  "quiet (me\<lparr>books := b\<rparr>) me' = quiet me me'" "quiet (me\<lparr>pool := p\<rparr>) me' = quiet me me'"
  "quiet (me\<lparr>clock_calls := c\<rparr>) me' = quiet me me'" "quiet (me\<lparr>inbound := q\<rparr>) me' = quiet me me'"
  by (simp_all add: quiet_def pool_release_def set_orders_def)

lemma post_quiet: "post r me = Inr me' \<Longrightarrow> quiet me me'"
  unfolding post_def push_out_def now_ns_def quiet_def ebind_Inr_iff
  using spin_push_silent [of kPipelineQueueCapacity _ "outbound me"] by auto

lemma do_sweep_quiet: "do_sweep n ok agg me b = Inr (me', b') \<Longrightarrow> quiet me me'"
proof (induction n arbitrary: me b)
  case 0
  then show ?case by simp
next
  case (Suc n)
  let ?h = "orders me"
  show ?case
  proof (cases "do_sweep (Suc n) ok agg me b = Inr (me, b)")
    case True
    then show ?thesis
      using Suc.prems by simp
  next
    case False
    then obtain best rest where b: "lvl_head best = Some rest" "quantity (?h agg) \<noteq> 0" "ok (lvl_price best)"
      "(if is_buy (?h agg) then best_ask b else best_bid b) = Some best"
      using Suc.prems by (auto simp: Let_def split: if_splits option.splits)
    obtain d h2 b1 where f: "fill_resting_order (?h(agg := (?h agg)\<lparr>quantity := quantity (?h agg) -
        min (quantity (?h rest)) (quantity (?h agg))\<rparr>)) b (Some rest)
        (min (quantity (?h rest)) (quantity (?h agg))) = (d, h2, b1)"
      by (metis prod.collapse)
    obtain r1 r2 me2 me3 where "post r1 ((set_orders h2 me)\<lparr>fills_executed := fills_executed me + 1\<rparr>) = Inr me2"
      "post r2 me2 = Inr me3" "do_sweep n ok agg (if d then pool_release rest me3 else me3) b1 = Inr (me', b')"
      using Suc.prems b f by (auto simp: Let_def post_eqs ebind_Inr_iff)
    then have "quiet me me2" "quiet me2 me3" "quiet (if d then pool_release rest me3 else me3) me'"
      using post_quiet Suc.IH by fastforce+
    moreover have "quiet me3 (if d then pool_release rest me3 else me3)"
      by simp
    ultimately show ?thesis
      using quiet_trans by blast
  qed
qed

lemma sweep_at_limit_quiet: "sweep_at_limit agg me b = Inr (me', b') \<Longrightarrow> quiet me me'"
  by (auto simp: sweep_at_limit_def Let_def split: if_splits dest: do_sweep_quiet)

lemma route_quiet: "route a me b = Inr (me', b') \<Longrightarrow> quiet me me'"
  by (cases "otype (orders me a)")
     (auto simp: route_def match_limit_def match_market_def match_ioc_def match_fok_def Let_def post_eqs ebind_Inr_iff
        split: prod.splits if_splits
        dest!: sweep_at_limit_quiet do_sweep_quiet post_quiet intro: quiet_trans)

lemma dispatch_quiet: "dispatch msg me = Inr me' \<Longrightarrow> quiet me me'"
  by (auto simp: dispatch_def handle_new_order_def handle_cancel_def reject_new_def now_ns_def Let_def post_eqs ebind_Inr_iff
      split: InboundKind.splits option.splits prod.splits dest!: route_quiet post_quiet intro: quiet_trans)

lemma dispatch_all_quiet: "dispatch_all ms me = Inr me' \<Longrightarrow> quiet me me'"
  by (induction ms arbitrary: me) (auto simp: ebind_Inr_iff dest!: dispatch_quiet intro: quiet_trans)

lemma engine_poll_quiet: "engine_poll n me = Inr (k, me') \<Longrightarrow> quiet me me'"
  by (auto simp: engine_poll_def ebind_Inr_iff Let_def split: prod.splits dest!: dispatch_all_quiet)

subsection \<open>Building and resetting an engine\<close>

lemma MatchingEngine_over_inv:
  assumes "pool_ok p" and "Capacity p < 2 ^ 32" and "spsc_ok kPipelineQueueCapacity inb"
    and "spsc_ok kPipelineQueueCapacity (fst outb)"
  shows "engine_inv (MatchingEngine_over p inb outb clk ps)"
proof -
  have "engine_repr (MatchingEngine_over p inb outb clk ps) (\<lambda>_ _ _. []) (free_list p)"
    using assms pool_ok_repr by (simp add: engine_repr_def MatchingEngine_over_def out_ok_def)
  moreover have "view_of (MatchingEngine_over p inb outb clk ps) iid = (\<lambda>_. [])" for iid
    by (simp add: view_of_def MatchingEngine_over_def fun_eq_iff)
  ultimately show ?thesis
    by (auto simp: engine_inv_def engine_ok_def uncrossed_def)
qed

lemma add_instrument_inv:
  assumes inv: "engine_inv me" and geo: "valid_geometry mn mx t"
  shows "engine_inv (add_instrument me iid mn mx t)"
    "books me iid = None \<Longrightarrow> view_of (add_instrument me iid mn mx t) = (view_of me)(iid := (\<lambda>_. []))"
proof -
  let ?b = "OrderBook_new iid mn mx t"
  let ?me = "me\<lparr>books := (books me)(iid := Some ?b)\<rparr>"
  obtain Q fl where E: "engine_repr me Q fl"
    using inv by (auto simp: engine_inv_def engine_ok_def)
  have "engine_repr ?me (Q(iid := (\<lambda>_ _. []))) fl \<and> view_of ?me = (view_of me)(iid := (\<lambda>_. []))"
    if None: "books me iid = None"
  proof
    have o: "orders ?me = orders me"
      by (simp add: orders_def)
    have R: "book_repr (orders me) ?b (\<lambda>_ _. [])"
      using geo by (rule OrderBook_new_repr)
    have lv: "live ?b (\<lambda>_ _. []) = {}"
      by (simp add: live_def)
    have set: "settled ?me b q fl \<longleftrightarrow> settled me b q fl" for b q
      by (simp add: settled_def o out_ok_def)
    have "settled ?me ?b (\<lambda>_ _. []) fl"
      unfolding set using R lv engine_reprD(1,3) [OF E] by (simp add: settled_def)
    then show "engine_repr ?me (Q(iid := (\<lambda>_ _. []))) fl"
      unfolding engine_repr_def using engine_reprD [OF E] lv by (auto simp: set out_ok_def split: if_splits)
    have "view_of ?me iid s = []" for s
      using reads(1) [of ?me ?b "\<lambda>_ _. []" iid s] R by (simp add: o side_view_def prio_def)
    moreover have "view_of ?me j = view_of me j" if "j \<noteq> iid" for j
      using that unfolding view_of_def [abs_def] o by simp
    ultimately show "view_of ?me = (view_of me)(iid := (\<lambda>_. []))"
      by (auto simp: fun_eq_iff)
  qed
  then show "engine_inv (add_instrument me iid mn mx t)"
    "books me iid = None \<Longrightarrow> view_of (add_instrument me iid mn mx t) = (view_of me)(iid := (\<lambda>_. []))"
    using inv by (auto simp: add_instrument_def engine_inv_def engine_ok_def uncrossed_def split: option.split)
qed

text \<open>After \<open>reset_state\<close> every book is empty and every slot is free.\<close>

lemma reset_state_inv:
  assumes inv: "engine_inv me"
  shows "engine_inv (reset_state me)" "view_of (reset_state me) iid s = []" "no_leak (reset_state me)"
    "free_list (pool (reset_state me)) = [0..<Capacity (pool me)]"
proof -
  let ?me = "reset_state me"
  obtain Q fl where E: "engine_repr me Q fl"
    using inv by (auto simp: engine_inv_def engine_ok_def)
  have lt: "Capacity (pool me) < 2 ^ 64"
    using engine_reprD(1) [OF E] by (simp add: pool_repr_def)
  have cap: "Capacity (pool ?me) = Capacity (pool me)"
    by (simp add: reset_state_def pool_reset_def build_freelist_def split: prod.splits)
  have pr: "pool_repr (pool ?me) [0..<Capacity (pool me)]"
    using build_freelist_repr [OF lt] by (simp add: reset_state_def pool_reset_def)
  have bk: "books ?me i = map_option book_clear (books me i)" for i
    by (simp add: reset_state_def)
  have R: "book_repr (orders ?me) (book_clear b) (\<lambda>_ _. [])" if "books me i = Some b" for i b
    using book_clear_repr(1) book_reprD(1) [OF settledD(2) [OF engine_reprD(5) [OF E that]]] by blast
  have lv: "live b (\<lambda>_ _. []) = {}" for b
    by (simp add: live_def)
  have "out_ok ?me" "inbound ?me = inbound me"
    using engine_reprD(3) [OF E] by (simp_all add: out_ok_def reset_state_def)
  then have E': "engine_repr ?me (\<lambda>_ _ _. []) [0..<Capacity (pool me)]"
    unfolding engine_repr_def using pr cap R engine_reprD(2,4) [OF E] lv
    by (auto simp: settled_def bk)
  show v: "view_of ?me iid s = []" for iid s
    using reads(1) [OF settledD(2) [OF engine_reprD(5) [OF E']]]
    by (cases "books ?me iid") (auto simp: view_of_def side_view_def prio_def)
  show "free_list (pool ?me) = [0..<Capacity (pool me)]"
    by (rule pool_repr_free_list [OF pr])
  then show "no_leak ?me"
    by (auto simp: no_leak_def resting_def v cap)
  show "engine_inv ?me"
    using E' v by (auto simp: engine_inv_def engine_ok_def uncrossed_def)
qed

subsection \<open>Every reachable engine\<close>

text \<open>
  What can happen to an engine: its own operations, and the other threads acting on the two
  queues it shares.
\<close>

inductive engine_step :: "MatchingEngine \<Rightarrow> MatchingEngine \<Rightarrow> bool" where
  step_submit: "submit msg me = Inr me' \<Longrightarrow> engine_step me me'"
| step_poll: "engine_poll n me = Inr (k, me') \<Longrightarrow> engine_step me me'"
| step_add: "valid_geometry mn mx t \<Longrightarrow> engine_step me (add_instrument me iid mn mx t)"
| step_reset: "engine_step me (reset_state me)"
| step_inbound: "try_push kPipelineQueueCapacity (inbound me) msg = (r, q) \<Longrightarrow>
    engine_step me (me\<lparr>inbound := q\<rparr>)"
| step_outbound: "engine_step me (me\<lparr>outbound := consume kPipelineQueueCapacity n (outbound me)\<rparr>)"
| step_sched: "engine_step me (me\<lparr>pauses := ps\<rparr>)"

definition engine_init :: "MatchingEngine \<Rightarrow> bool" where
  "engine_init me \<longleftrightarrow>
     (\<exists>p inb outb clk ps. pool_ok p \<and> Capacity p < 2 ^ 32 \<and> spsc_ok kPipelineQueueCapacity inb \<and>
        spsc_ok kPipelineQueueCapacity (fst outb) \<and> me = MatchingEngine_over p inb outb clk ps)"

lemma engine_step_inv:
  assumes "engine_inv me" and "engine_step me me'"
  shows "engine_inv me'"
  using assms(2,1)
proof cases
  case (step_submit msg)
  then show ?thesis
    using run_meetsD(1) [OF submit_meets [OF assms(1)]] by blast
next
  case (step_poll n k)
  then show ?thesis
    using run_meetsD(1) [OF engine_poll_meets [OF assms(1) refl]] by fastforce
next
  case (step_inbound msg r q)
  then show ?thesis
    using engine_inv_same(1) [OF assms(1), of me'] engine_invD [OF assms(1)]
      sq.push_result [OF engine_invD(2) [OF assms(1)]] by (simp add: out_ok_def)
next
  case (step_outbound n)
  then show ?thesis
    using engine_inv_same(1) [OF assms(1), of me'] engine_invD [OF assms(1)]
      consume_result(1) [of kPipelineQueueCapacity "outbound me" n] by (simp add: out_ok_def)
next
  case (step_sched ps)
  then show ?thesis
    using engine_inv_same(1) [OF assms(1), of me'] engine_invD [OF assms(1)] by (simp add: out_ok_def)
qed (use assms(1) add_instrument_inv(1) reset_state_inv(1) in auto)

interpretation eng: safety_machine engine_init engine_step engine_inv
proof unfold_locales
  show "engine_inv s" if "engine_init s" for s
    using that MatchingEngine_over_inv by (auto simp: engine_init_def)
  show "engine_inv t" if "engine_inv s" "engine_step s t" for s t
    using that by (rule engine_step_inv)
qed

subsection \<open>Outcomes of the order types\<close>

lemma view_sorted_ok: "engine_ok me \<Longrightarrow> price_sorted s (view_of me iid s)"
  using view_sorted by (auto simp: engine_ok_def)

text \<open>The feasibility check of a fill-or-kill order reads the true crossing volume.\<close>

lemma engine_available_exact:
  assumes "engine_ok me" and b: "books me iid = Some b" and q: "qty_exact me iid"
    and s: "s = (sd = Buy)" and l: "limit_exact b s p"
    and fits: "crossing_qty s p (view_of me iid (\<not> s)) < 2 ^ 32"
  shows "unat (available_quantity_at_or_better b sd p) = crossing_qty s p (view_of me iid (\<not> s))"
proof -
  obtain Q fl where E: "engine_repr me Q fl"
    using assms(1) by (auto simp: engine_ok_def)
  note R = settledD(2) [OF engine_reprD(5) [OF E b]]
  show ?thesis
    using available_exact [OF R _ s l] reads [OF R b] q fits by simp
qed

definition fok_outcome ::
  "bool \<Rightarrow> Entry \<Rightarrow> Entry list \<Rightarrow> Entry list \<Rightarrow> ExecutionReport list \<Rightarrow> Entry list \<Rightarrow> Entry list \<Rightarrow> bool" where
  "fok_outcome s e own opp reps own' opp' \<longleftrightarrow>
     own' = own \<and>
     (if crossing_qty s (e_price e) opp < unat (e_qty e)
      then reps = [report Reject (e_id e) 0 0 0 (e_qty e)] \<and> opp' = opp
      else (\<forall>r \<in> set reps. is_trade r \<and> crosses s (e_price e) (er_exec_price r)) \<and>
        total_qty opp = total_qty opp' + unat (e_qty e))"

lemma order_spec_fok:
  assumes sp: "order_spec FOK s v av e own opp = (reps, own', opp')"
    and av: "unat av = crossing_qty s (e_price e) opp" and srt: "price_sorted (\<not> s) opp"
  shows "fok_outcome s e own opp reps own' opp'"
proof (cases "av < e_qty e")
  case True
  then show ?thesis
    using sp av by (auto simp: fok_outcome_def word_less_nat_alt)
next
  case False
  obtain r where m: "match_spec (crosses s (e_price e)) (e_id e) (e_qty e) opp = (reps, r, opp')" and "own' = own"
    using sp False by (auto split: prod.splits)
  moreover have "unat r = 0"
    using match_spec_left [OF m srt] av False by (simp add: word_less_nat_alt)
  ultimately show ?thesis
    using match_spec_trades [OF m] match_spec_conserves [OF m] av False
    by (auto simp: fok_outcome_def word_less_nat_alt)
qed

end
