(* ===== verification/Engine_Outcome.thy ===== *)
theory Engine_Outcome
  imports Engine_Run
begin

section \<open>Outcomes a client observes\<close>

text \<open>
  Facts that turn the contracts of \<open>Engine_Run\<close> into statements about single orders: where a
  resting order is inserted, which order a cancel finds, how much an order traded, and
  which messages can lose a pool slot.
\<close>

subsection \<open>The index and the resting orders\<close>

lemma view_find:
  assumes "engine_ok me" and b: "books me iid = Some b" and "index_full me iid" and e: "e \<in> set (view_of me iid s)"
  shows "find_order b (e_id e) = Some (e_slot e)" "quantity (orders me (e_slot e)) = e_qty e"
proof -
  obtain Q fl where E: "engine_repr me Q fl"
    using assms(1) by (auto simp: engine_ok_def)
  note R = settledD(2) [OF engine_reprD(5) [OF E b]]
  obtain c where c: "c \<in> set (prio b (Q iid) s)" "e = entry_of (orders me) c"
    using e reads(1) [OF R b, of s] by (auto simp: side_view_def)
  then have "c \<in> live b (Q iid)"
    using prio_live by blast
  then show "find_order b (e_id e) = Some (e_slot e)" "quantity (orders me (e_slot e)) = e_qty e"
    using index_completeD [of "orders me" b "Q iid" c] reads(3) [OF R b] assms(3) c(2)
    by (simp_all add: find_order_def)
qed

lemma find_view:
  assumes "engine_ok me" and b: "books me iid = Some b" and f: "find_order b i = Some a"
  shows "\<exists>s. \<exists>e \<in> set (view_of me iid s). e_id e = i \<and> e_slot e = a"
proof -
  obtain Q fl where E: "engine_repr me Q fl"
    using assms(1) by (auto simp: engine_ok_def)
  note R = settledD(2) [OF engine_reprD(5) [OF E b]]
  have "a \<in> live b (Q iid)" "order_id (orders me a) = i"
    using book_reprD(4) [OF R] f by (auto simp: index_ok_def find_order_def)
  then obtain s where "a \<in> set (prio b (Q iid) s)"
    by (auto simp: live_prio)
  then show ?thesis
    using reads(1) [OF R b, of s] \<open>order_id (orders me a) = i\<close>
    by (intro exI [of _ s] bexI [of _ "entry_of (orders me) a"]) (simp_all add: side_view_def)
qed

subsection \<open>Traded quantity\<close>

lemma traded_residual [simp]: "traded i (residual_ack j r) = 0"
  by (simp add: traded_def residual_ack_def is_trade_def)

lemma traded_reject [simp]: "traded i [report Reject j c p x l] = 0"
  by (simp add: traded_def is_trade_def)

text \<open>What an order's own reports say it traded is what the opposite side lost.\<close>

lemma order_spec_traded:
  assumes "order_spec ty s v av e own opp = (reps, own', opp')" and "\<forall>x \<in> set opp. e_id x \<noteq> e_id e"
  shows "total_qty opp = total_qty opp' + traded (e_id e) reps \<and> traded (e_id e) reps \<le> unat (e_qty e)"
proof -
  have M: "total_qty opp = total_qty es' + traded (e_id e) rs \<and> traded (e_id e) rs \<le> unat (e_qty e)"
    if "match_spec ok (e_id e) (e_qty e) opp = (rs, r, es')" for ok rs r es'
    using match_spec_traded [OF that assms(2)] match_spec_conserves [OF that] by simp
  show ?thesis
    using assms(1) by (cases ty) (auto split: prod.splits if_splits dest!: M)
qed

text \<open>Whatever the ids are, the two reports of each trade name its quantity, so all of them add up to twice what was traded.\<close>

definition volume :: "ExecutionReport list \<Rightarrow> nat" where
  "volume rs = sum_list (map (\<lambda>r. unat (er_exec_quantity r)) (filter is_trade rs))"

lemma volume_simps [simp]:
  "volume [] = 0" "volume (rs @ ss) = volume rs + volume ss"
  "volume (pair_reports aid r e) = 2 * unat (min (e_qty e) r)" "volume (residual_ack aid r) = 0"
  by (auto simp: volume_def pair_reports_def residual_ack_def Let_def is_trade_def)

lemma match_spec_volume:
  "match_spec ok aid r es = (reps, r', es') \<Longrightarrow> volume reps = 2 * (unat r - unat r')"
proof (induction es arbitrary: r reps)
  case (Cons e es)
  from Cons.prems show ?case
  proof (cases rule: match_spec_cases)
    case (full reps1)
    have "r' \<le> r - e_qty e"
      by (rule match_spec_conserves(1) [OF full(4)])
    then show ?thesis
      using Cons.IH [OF full(4)] full(3,5) by (simp add: unat_sub word_le_nat_alt min_absorb1)
  qed (simp_all add: min_absorb2)
qed simp

lemma order_spec_volume:
  assumes "order_spec ty s v av e own opp = (reps, own', opp')"
  shows "2 * total_qty opp = 2 * total_qty opp' + volume reps \<and> volume reps \<le> 2 * unat (e_qty e)"
proof -
  have M: "2 * total_qty opp = 2 * total_qty es' + volume rs \<and> volume rs \<le> 2 * unat (e_qty e)"
    if "match_spec ok (e_id e) (e_qty e) opp = (rs, r, es')" for ok rs r es'
    using match_spec_volume [OF that] match_spec_conserves(2) [OF that] by simp
  have "volume [report Reject oid 0 0 0 n] = 0" for oid n
    by (simp add: volume_def is_trade_def)
  then show ?thesis
    using assms by (cases ty) (auto split: prod.splits if_splits dest!: M)
qed

text \<open>The uncrossed volume of the own side grows by at most what did not trade.\<close>

lemma total_qty_insert: "total_qty (insert_entry s e es) = total_qty es + unat (e_qty e)"
proof -
  have "total_qty (us @ vs) = total_qty us + total_qty vs" for us vs
    by (simp add: total_qty_def)
  then have "total_qty es = total_qty (takeWhile P es) + total_qty (dropWhile P es)" for P
    by (metis takeWhile_dropWhile_id)
  from this [of "\<lambda>x. \<not> better s (e_price e) (e_price x)"] show ?thesis
    by (simp add: insert_entry_def total_qty_def)
qed

subsection \<open>Dispatch and pool slots\<close>

text \<open>Messages whose limit price, if they rest, is a level of their book.\<close>

definition on_grid :: "InboundOrderMsg \<Rightarrow> MatchingEngine \<Rightarrow> bool" where
  "on_grid msg me \<longleftrightarrow>
     (im_kind msg = NewOrder \<longrightarrow> order_type_of_u8 (im_type msg) = Limit \<longrightarrow>
      (case books me (im_instrument_id msg) of None \<Rightarrow> True | Some b \<Rightarrow> is_valid_price b (im_price msg)))"

lemma new_order_no_leak:
  assumes ok: "engine_ok me" and n: "no_leak me" and g: "on_grid msg me" and k: "im_kind msg = NewOrder"
    and run: "handle_new_order msg me = Inr me'"
  shows "no_leak me'"
proof -
  let ?iid = "im_instrument_id msg"
  have rej: "no_leak me'" if "reject_new msg me = Inr me'"
  proof -
    have H: "handled ?iid 0 [report Reject (im_order_id msg) 0 0 0 (im_quantity msg)] (view_of me ?iid) me me'"
      and same: "pool me' = pool me"
      using run_meetsD(1) [OF reject_new_meets [OF ok, of ?iid msg] that] by auto
    have "view_of me' j = view_of me j" for j
      using handledD(2,3) [OF H] by (cases "j = ?iid") auto
    then show ?thesis
      using n same by (simp add: no_leak_def resting_def)
  qed
  show ?thesis
  proof (cases "books me ?iid")
    case None
    then show ?thesis
      using run rej by (simp add: handle_new_order_def book_for_def)
  next
    case b: (Some b)
    show ?thesis
    proof (cases "free_list (pool me)")
      case Nil
      obtain Q where "engine_repr me Q []"
        using engine_repr_free [OF ok] Nil by metis
      then have "acquire (pool me) = (None, pool me)"
        using acquire_none engine_reprD(1) by blast
      then show ?thesis
        using run rej b by (simp add: handle_new_order_def book_for_def)
    next
      case (Cons a fl)
      let ?s = "side_of_u8 (im_side msg) = Buy"
      obtain reps own' opp' where sp: "order_spec (order_type_of_u8 (im_type msg)) ?s (is_valid_price b (im_price msg))
          (available_quantity_at_or_better b (side_of_u8 (im_side msg)) (im_price msg)) (msg_entry msg a)
          (view_of me ?iid ?s) (view_of me ?iid (\<not> ?s)) = (reps, own', opp')"
        by (metis prod.collapse)
      show ?thesis
        using run_meetsD(1) [OF new_order_meets [OF ok refl b Cons refl refl refl refl sp] run] n g k b
        by (auto simp: slot_kept_def on_grid_def)
    qed
  qed
qed

lemma cancel_no_leak:
  assumes ok: "engine_ok me" and n: "no_leak me" and run: "handle_cancel msg me = Inr me'"
  shows "no_leak me'"
proof -
  let ?iid = "im_instrument_id msg"
  obtain Q fl where E: "engine_repr me Q fl"
    using ok by (auto simp: engine_ok_def)
  consider "handle_cancel msg me = Inr me"
    | b a where "books me ?iid = Some b" "find_order b (im_order_id msg) = Some a"
    using handle_cancel_unknown by (metis option.exhaust)
  then show ?thesis
  proof cases
    case 1
    then show ?thesis
      using run n by simp
  next
    case (2 b a)
    then show ?thesis
      using run_meetsD(1) [OF handle_cancel_meets [OF E refl 2] run] n by blast
  qed
qed

lemma dispatch_no_leak:
  assumes "engine_ok me" "no_leak me" "on_grid msg me" "dispatch msg me = Inr me'"
  shows "no_leak me'"
  using assms new_order_no_leak [of me msg me'] cancel_no_leak [of me msg me']
  by (cases "im_kind msg") (simp_all add: dispatch_def)

end
