(* ===== verification/Examples.thy ===== *)
theory Examples
  imports Engine_Outcome
begin

section \<open>Concrete engines\<close>

text \<open>
  Small engines on which the properties are exercised: a pool of four slots, one instrument
  (number 7) with prices 100 to 110, a clock that ticks once per reading, and an outbound
  queue nobody drains. \<open>ex_engine\<close> is empty; \<open>ex_bid\<close> is the engine after a buy limit
  order of 10 at 105 has been handled.
\<close>

definition blank_order :: Order where
  "blank_order = \<lparr>order_id = 0, price = 0, timestamp_ns = 0, quantity = 0, orig_quantity = 0,
     instrument_id = 0, side = Buy, otype = Limit, status = New, pad0 = 0, nxt = None, prv = None,
     client_id = 0, reserved = 0\<rparr>"

definition ex_raw_pool :: OrderPool where
  "ex_raw_pool = \<lparr>storage = (\<lambda>_. blank_order), freelist_head = None, free_count = 0,
     bytes_allocated = 512, huge_pages_active = False, Capacity = 4\<rparr>"

definition ex_pool :: OrderPool where
  "ex_pool = build_freelist ex_raw_pool"

definition ex_msg :: InboundOrderMsg where
  "ex_msg = \<lparr>im_kind = NewOrder, im_order_id = 1, im_price = 105, im_quantity = 10,
     im_instrument_id = 7, im_client_id = 0, im_side = 0, im_type = 0\<rparr>"

definition ex_start :: MatchingEngine where
  "ex_start = MatchingEngine_over ex_pool (SPSCQueue_new (\<lambda>_. ex_msg))
     (SPSCQueue_new (\<lambda>_. report Fill 0 0 0 0 0), []) (\<lambda>n. (1, of_nat n)) []"

definition ex_engine :: MatchingEngine where
  "ex_engine = add_instrument ex_start 7 100 110 1"

definition ex_book :: OrderBook where
  "ex_book = OrderBook_new 7 100 110 1"

definition ex_bid :: MatchingEngine where
  "ex_bid = (case handle_new_order ex_msg ex_engine of Inr me \<Rightarrow> me | Inl _ \<Rightarrow> ex_engine)"

lemma ex_geometry: "valid_geometry 100 110 1"
  by (simp add: valid_geometry_def)

lemma ex_pool_ok: "pool_repr ex_pool [0, 1, 2, 3]" "pool_ok ex_pool" "Capacity ex_pool = 4"
proof -
  have "[0..<4] = [0, 1, 2, 3::nat]"
    by (simp add: upt_rec)
  then show 1: "pool_repr ex_pool [0, 1, 2, 3]"
    using build_freelist_repr [of ex_raw_pool] by (simp add: ex_pool_def ex_raw_pool_def)
  then show "pool_ok ex_pool"
    by (rule pool_repr_pool_ok)
  show "Capacity ex_pool = 4"
    by (simp add: ex_pool_def ex_raw_pool_def build_freelist_def split: prod.splits)
qed

lemma ex_queue_ok: "spsc_ok kPipelineQueueCapacity (SPSCQueue_new f)"
  "contents kPipelineQueueCapacity (SPSCQueue_new f) = []"
  using spsc_new_ok [OF kPipelineQueueCapacity_single_bit, of f] by simp_all

lemma ex_start_init: "engine_init ex_start"
  unfolding engine_init_def ex_start_def
  by (rule exI [of _ ex_pool], rule exI [of _ "SPSCQueue_new (\<lambda>_. ex_msg)"],
      rule exI [of _ "(SPSCQueue_new (\<lambda>_. report Fill 0 0 0 0 0), [])"],
      rule exI [of _ "\<lambda>n. (1, of_nat n)"], rule exI [of _ "[]"])
     (simp add: ex_pool_ok ex_queue_ok)

lemma ex_engine_step: "engine_step ex_start ex_engine"
  unfolding ex_engine_def by (rule step_add [OF ex_geometry])

lemma ex_engine_fields:
  "books ex_engine = (\<lambda>_. None)(7 := Some ex_book)" "pool ex_engine = ex_pool"
  "outbound ex_engine = (SPSCQueue_new (\<lambda>_. report Fill 0 0 0 0 0), [])" "pauses ex_engine = []"
  "clock_calls ex_engine = 0" "clock ex_engine = (\<lambda>n. (1, of_nat n))"
  by (simp_all add: ex_engine_def ex_start_def add_instrument_def MatchingEngine_over_def ex_book_def)

lemma ex_engine_inv: "engine_inv ex_engine" "engine_ok ex_engine"
proof -
  show "engine_inv ex_engine"
    using eng.init_inv [OF ex_start_init] ex_engine_step by (rule eng.step_inv)
  then show "engine_ok ex_engine"
    by (simp add: engine_inv_def)
qed

lemma ex_engine_view: "view_of ex_engine 7 = (\<lambda>_. [])"
proof -
  have "books ex_start 7 = None"
    by (simp add: ex_start_def MatchingEngine_over_def)
  then show ?thesis
    using add_instrument_inv(2) [OF eng.init_inv [OF ex_start_init] ex_geometry] by (simp add: ex_engine_def)
qed

lemma ex_book_repr: "book_repr h ex_book (\<lambda>_ _. [])"
  unfolding ex_book_def using ex_geometry by (rule OrderBook_new_repr)

lemma ex_engine_free: "free_list (pool ex_engine) = [0, 1, 2, 3]"
  using pool_repr_free_list [OF ex_pool_ok(1)] by (simp add: ex_engine_fields)

lemma ex_engine_exact: "qty_exact ex_engine 7" "index_full ex_engine 7" "no_leak ex_engine"
proof -
  have b: "books ex_engine 7 = Some ex_book"
    by (simp add: ex_engine_fields)
  note rd = reads [OF ex_book_repr b]
  show "qty_exact ex_engine 7"
    using rd(2) OrderBook_new_qty by (simp add: ex_book_def)
  show "index_full ex_engine 7"
    using rd(3) by (simp add: index_complete_def live_def)
  have "view_of ex_engine iid s = []" for iid s
    using ex_engine_view by (cases "iid = 7") (simp_all add: view_of_def ex_engine_fields)
  then show "no_leak ex_engine"
    unfolding no_leak_def ex_engine_free
    by (auto simp: resting_def ex_engine_fields ex_pool_ok)
qed

lemma ex_engine_can_send: "can_send 60000 ex_engine"
  by (simp add: can_send_def can_post_def ex_engine_fields ex_queue_ok del: length_contents)
     (simp add: kPipelineQueueCapacity_def)

subsection \<open>One resting bid\<close>

lemma ex_valid: "is_valid_price ex_book 105"
  by (simp add: is_valid_price_def ex_book_def OrderBook_new_fields smod_nonneg)

definition ex_entry :: Entry where
  "ex_entry = \<lparr>e_slot = 0, e_id = 1, e_price = 105, e_qty = 10\<rparr>"

lemma ex_bid_meets:
  "handle_new_order ex_msg ex_engine = Inr ex_bid"
  "handled 7 1 [] (\<lambda>x. if x then [ex_entry] else []) ex_engine ex_bid"
  "no_leak ex_bid" "qty_exact ex_bid 7" "index_full ex_bid 7" "can_send 60000 ex_bid"
proof -
  obtain Q where "engine_repr ex_engine Q (free_list (pool ex_engine))"
    using ex_engine_inv(2) by (rule engine_repr_free)
  then have E: "engine_repr ex_engine Q (0 # [1, 2, 3])"
    by (simp add: ex_engine_free)
  have m: "im_instrument_id ex_msg = 7" "im_price ex_msg = 105" "order_type_of_u8 (im_type ex_msg) = Limit"
    "side_of_u8 (im_side ex_msg) = Buy" "msg_entry ex_msg 0 = ex_entry" "im_order_id ex_msg = 1" "e_qty ex_entry = 10"
    by (simp_all add: ex_msg_def order_type_of_u8_def side_of_u8_def msg_entry_def ex_entry_def)
  have b: "books ex_engine 7 = Some ex_book"
    by (simp add: slot_kept_def ex_engine_fields)
  have own: "insert_entry True (ex_entry\<lparr>e_qty := 10\<rparr>) [] = [ex_entry]"
    by (simp add: slot_kept_def insert_entry_def ex_entry_def)
  note M = handle_new_order_meets [OF E _ b refl refl refl refl, of ex_msg "[]" "[ex_entry]" "[]"]
  have R: "run_meets 0 ex_engine (\<lambda>me'. handled 7 1 [] (\<lambda>x. if x then [ex_entry] else []) ex_engine me' \<and>
      no_leak me' \<and> qty_exact me' 7 \<and> index_full me' 7) (\<lambda>x. x) (handle_new_order ex_msg ex_engine)"
    by (rule run_meets_mono [OF M [simplified slot_kept_def m ex_engine_view own ex_engine_exact ex_valid, simplified]])
       (simp_all add: m own insert_entry_def ex_entry_def)
  then obtain me where me: "handle_new_order ex_msg ex_engine = Inr me" "can_send 60000 me"
    using run_meetsD(3) [OF R, of 60000] ex_engine_can_send by auto
  show "handle_new_order ex_msg ex_engine = Inr ex_bid"
    by (simp add: ex_bid_def me(1))
  then show "handled 7 1 [] (\<lambda>x. if x then [ex_entry] else []) ex_engine ex_bid"
    "no_leak ex_bid" "qty_exact ex_bid 7" "index_full ex_bid 7" "can_send 60000 ex_bid"
    using run_meetsD(1) [OF R] me by auto
qed

lemma ex_bid_inv: "engine_ok ex_bid" "engine_inv ex_bid" "view_of ex_bid 7 = (\<lambda>x. if x then [ex_entry] else [])"
  "sent ex_bid = []" "clock_calls ex_bid = 1" "engine_step\<^sup>*\<^sup>* ex_start (ex_bid\<lparr>orders_processed := 1\<rparr>)"
proof -
  note H = handledD [OF ex_bid_meets(2)]
  show ok: "engine_ok ex_bid" and v: "view_of ex_bid 7 = (\<lambda>x. if x then [ex_entry] else [])"
    using H(1,2) by auto
  show "sent ex_bid = []" "clock_calls ex_bid = 1"
    using H(8,11) ex_queue_ok by (simp_all add: sent_def stream_def ex_engine_fields)
  have "uncrossed (view_of ex_bid j)" for j
    using H(3) [of j] v ex_engine_inv(1) by (cases "j = 7") (simp_all add: engine_inv_def, simp add: uncrossed_def)
  then show "engine_inv ex_bid"
    using ok by (simp add: engine_inv_def)
  have "orders_processed ex_bid = 0"
    using H(14) by (simp add: ex_engine_def ex_start_def add_instrument_def MatchingEngine_over_def)
  then have "submit ex_msg ex_engine = Inr (ex_bid\<lparr>orders_processed := 1\<rparr>)"
    using ex_bid_meets(1) by (simp add: submit_def dispatch_def ex_msg_def)
  then have "engine_step ex_engine (ex_bid\<lparr>orders_processed := 1\<rparr>)"
    by (rule step_submit)
  then show "engine_step\<^sup>*\<^sup>* ex_start (ex_bid\<lparr>orders_processed := 1\<rparr>)"
    using ex_engine_step by (meson r_into_rtranclp rtranclp.rtrancl_into_rtrancl)
qed

lemma ex_bid_clock: "Suc (clock_calls ex_bid) = 2"
  by (simp add: ex_bid_inv(5))

lemma ex_bid_book: obtains b where "books ex_bid 7 = Some b" "same_grid ex_book b"
  using handledD(6) [OF ex_bid_meets(2), of 7] by (auto simp: ex_engine_fields option_rel_Some1)

lemma ex_bid_free: obtains a fl where "free_list (pool ex_bid) = a # fl"
proof -
  have v: "view_of ex_bid j = (if j = 7 then (\<lambda>x. if x then [ex_entry] else []) else (\<lambda>_. []))" for j
    using handledD(2) [OF ex_bid_meets(2)] handledD(3) [OF ex_bid_meets(2), of j]
    by (auto simp: view_of_def [of ex_engine] ex_engine_fields fun_eq_iff)
  have "resting ex_bid \<subseteq> {0}"
    by (auto simp: resting_def v ex_entry_def split: if_splits)
  moreover have "Capacity (pool ex_bid) = 4"
    using handledD(9) [OF ex_bid_meets(2)] by (simp add: ex_engine_fields ex_pool_ok)
  then have "1 \<in> set (free_list (pool ex_bid)) \<union> resting ex_bid"
    using ex_bid_meets(3) by (simp add: no_leak_def)
  ultimately have "free_list (pool ex_bid) \<noteq> []"
    by auto
  then show thesis
    using that by (cases "free_list (pool ex_bid)") auto
qed

text \<open>Messages sent to \<open>ex_bid\<close>: a seller of quantity \<open>n\<close> at 104 of each order type.\<close>

definition ex_sell :: "u8 \<Rightarrow> u32 \<Rightarrow> InboundOrderMsg" where
  "ex_sell ty n = ex_msg\<lparr>im_order_id := 2, im_price := 104, im_quantity := n, im_side := 1, im_type := ty\<rparr>"

lemma ex_sell_fields:
  "im_kind (ex_sell ty n) = NewOrder" "im_instrument_id (ex_sell ty n) = 7" "im_price (ex_sell ty n) = 104"
  "im_quantity (ex_sell ty n) = n" "im_order_id (ex_sell ty n) = 2" "side_of_u8 (im_side (ex_sell ty n)) = Sell"
  "im_type (ex_sell ty n) = ty"
  "msg_entry (ex_sell ty n) a = \<lparr>e_slot = a, e_id = 2, e_price = 104, e_qty = n\<rparr>"
  by (simp_all add: ex_sell_def ex_msg_def side_of_u8_def msg_entry_def)

lemma ex_types: "order_type_of_u8 0 = Limit" "order_type_of_u8 1 = Market" "order_type_of_u8 2 = IOC"
  "order_type_of_u8 3 = FOK" "order_type_of_u8 9 = OrderType_raw 9"
  by (simp_all add: order_type_of_u8_def)

text \<open>A cancel of the bid, a cancel of an unknown order, a bid outside the price range.\<close>

definition ex_cancel :: "OrderId \<Rightarrow> InboundOrderMsg" where
  "ex_cancel i = ex_msg\<lparr>im_kind := Cancel, im_order_id := i\<rparr>"

definition ex_offgrid :: InboundOrderMsg where
  "ex_offgrid = ex_msg\<lparr>im_order_id := 3, im_price := 200\<rparr>"

lemma ex_cancel_fields:
  "im_kind (ex_cancel i) = Cancel" "im_instrument_id (ex_cancel i) = 7" "im_order_id (ex_cancel i) = i"
  by (simp_all add: ex_cancel_def ex_msg_def)

lemma ex_offgrid_fields:
  "im_kind ex_offgrid = NewOrder" "im_instrument_id ex_offgrid = 7" "im_price ex_offgrid = 200"
  "im_quantity ex_offgrid = 10" "im_type ex_offgrid = 0" "side_of_u8 (im_side ex_offgrid) = Buy"
  by (simp_all add: ex_offgrid_def ex_msg_def side_of_u8_def)

text \<open>Every message sent to \<open>ex_bid\<close> is answered.\<close>

lemma ex_bid_new: obtains me' where "handle_new_order msg ex_bid = Inr me'"
proof -
  have "Capacity (pool ex_bid) = 4"
    using handledD(9) [OF ex_bid_meets(2)] by (simp add: ex_engine_fields ex_pool_ok)
  then have "can_send (max_reports ex_bid + 0) ex_bid"
    using can_send_le [OF _ ex_bid_meets(6)] by (simp add: max_reports_def)
  then show thesis
    using run_meetsD(3) [OF handle_new_order_dispatched [OF ex_bid_inv(2)], of 0 msg] that by blast
qed

lemma ex_bid_cancel: obtains me' where "handle_cancel msg ex_bid = Inr me'"
proof -
  have "Capacity (pool ex_bid) = 4"
    using handledD(9) [OF ex_bid_meets(2)] by (simp add: ex_engine_fields ex_pool_ok)
  then have "can_send (max_reports ex_bid + 0) ex_bid"
    using can_send_le [OF _ ex_bid_meets(6)] by (simp add: max_reports_def)
  then show thesis
    using run_meetsD(3) [OF handle_cancel_dispatched [OF ex_bid_inv(2)], of 0 msg] that by blast
qed

lemma ex_bid_valid:
  assumes "books ex_bid 7 = Some b"
  shows "is_valid_price b 104" "\<not> is_valid_price b 200"
proof -
  have "same_grid ex_book b"
    using assms ex_bid_book by (metis option.inject)
  then show "is_valid_price b 104" "\<not> is_valid_price b 200"
    by (simp_all add: same_gridD(3) ex_book_def is_valid_price_def OrderBook_new_fields smod_nonneg)
qed

text \<open>The seller of 4 at 104 about to sweep the bid.\<close>

lemma ex_sweep:
  obtains me b q fl a where "sweeping me b q fl a" "\<not> is_buy (orders me a)" "order_id (orders me a) = 2"
    "side_view (orders me) b q True = [ex_entry]" "quantity (orders me a) = 4" "can_send 50000 me"
proof -
  obtain b where b: "books ex_bid 7 = Some b"
    by (rule ex_bid_book)
  obtain a fl where fl: "free_list (pool ex_bid) = a # fl"
    by (rule ex_bid_free)
  obtain Q where E: "engine_repr ex_bid Q (a # fl)"
    using engine_repr_free [OF ex_bid_inv(1)] fl by metis
  obtain p where p: "acquire (pool ex_bid) = (Some a, p)"
    using acquire_some [OF engine_reprD(1) [OF E]] by metis
  let ?me = "accept (ex_sell 2 4) a p ex_bid"
  note A = accept_sweeping [OF E b p, where msg = "ex_sell 2 4"]
    and O = accept_order [OF refl, where msg = "ex_sell 2 4" and a = a and p = p and me = ex_bid]
  have "can_send 50000 ?me"
    using can_send_le [OF _ ex_bid_meets(6), of 50000] by (simp add: accept_fields)
  then show thesis
    using that [OF A(1)] A(2) [of True] O(1,3,7) by (simp add: ex_sell_fields ex_bid_inv(3))
qed

end
