(* ===== verification/Spsc_Concurrent.thy ===== *)
theory Spsc_Concurrent
  imports Spsc_Queue
begin

section \<open>The ring buffer under two threads\<close>

text \<open>
  \<open>try_push\<close> and \<open>try_pop\<close> (\<open>src/src/spsc/spsc_queue.hpp\<close>) split at their memory
  accesses: the check of the other side's index, the access to the array slot, the
  release store of the own index. A producer and a consumer interleave these steps
  freely. An acquire load may return an older value of the other side's index, but never
  one older than the thread has already seen: \<open>pview\<close> and \<open>cview\<close> are the numbers of
  completed pops and pushes the producer and the consumer have observed. \<open>pushed\<close> and
  \<open>popped\<close> are the items whose \<open>try_push\<close> / \<open>try_pop\<close> has published its index; the
  indices themselves stay 64-bit words that wrap.
\<close>

datatype 'a producer_pc = PIdle | PWrite 'a | PPublish 'a
datatype 'a consumer_pc = CIdle | CRead | CPublish 'a

record 'a spsc_state =
  ring :: "'a SPSCQueue"
  ppc :: "'a producer_pc"
  cpc :: "'a consumer_pc"
  pview :: nat
  cview :: nat
  pushed :: "'a list"
  popped :: "'a list"

definition spsc_init :: "u64 \<Rightarrow> 'a spsc_state \<Rightarrow> bool" where
  "spsc_init N s \<longleftrightarrow>
     has_single_bit N \<and> write_idx (ring s) = 0 \<and> read_idx (ring s) = 0 \<and>
     ppc s = PIdle \<and> cpc s = CIdle \<and> pview s = 0 \<and> cview s = 0 \<and> pushed s = [] \<and> popped s = []"

inductive spsc_step :: "u64 \<Rightarrow> 'a spsc_state \<Rightarrow> 'a spsc_state \<Rightarrow> bool" for N :: u64 where
  push_refused:
    "ppc s = PIdle \<Longrightarrow> pview s \<le> j \<Longrightarrow> j \<le> length (popped s) \<Longrightarrow>
     write_idx (ring s) - of_nat j = N \<Longrightarrow>
     spsc_step N s (s\<lparr>pview := j\<rparr>)"
| push_admitted:
    "ppc s = PIdle \<Longrightarrow> pview s \<le> j \<Longrightarrow> j \<le> length (popped s) \<Longrightarrow>
     write_idx (ring s) - of_nat j \<noteq> N \<Longrightarrow>
     spsc_step N s (s\<lparr>pview := j, ppc := PWrite x\<rparr>)"
| push_write:
    "ppc s = PWrite x \<Longrightarrow>
     spsc_step N s (s\<lparr>ring := (ring s)\<lparr>buffer :=
         (buffer (ring s))(slot N (write_idx (ring s)) := x)\<rparr>, ppc := PPublish x\<rparr>)"
| push_publish:
    "ppc s = PPublish x \<Longrightarrow>
     spsc_step N s (s\<lparr>ring := (ring s)\<lparr>write_idx := write_idx (ring s) + 1\<rparr>,
         ppc := PIdle, pushed := pushed s @ [x]\<rparr>)"
| pop_refused:
    "cpc s = CIdle \<Longrightarrow> cview s \<le> j \<Longrightarrow> j \<le> length (pushed s) \<Longrightarrow>
     read_idx (ring s) = of_nat j \<Longrightarrow>
     spsc_step N s (s\<lparr>cview := j\<rparr>)"
| pop_admitted:
    "cpc s = CIdle \<Longrightarrow> cview s \<le> j \<Longrightarrow> j \<le> length (pushed s) \<Longrightarrow>
     read_idx (ring s) \<noteq> of_nat j \<Longrightarrow>
     spsc_step N s (s\<lparr>cview := j, cpc := CRead\<rparr>)"
| pop_read:
    "cpc s = CRead \<Longrightarrow>
     spsc_step N s (s\<lparr>cpc := CPublish (buffer (ring s) (slot N (read_idx (ring s))))\<rparr>)"
| pop_publish:
    "cpc s = CPublish v \<Longrightarrow>
     spsc_step N s (s\<lparr>ring := (ring s)\<lparr>read_idx := read_idx (ring s) + 1\<rparr>,
         cpc := CIdle, popped := popped s @ [v]\<rparr>)"

text \<open>
  The array slot of item \<open>i\<close> (counted from the first push), and the invariant: the
  indices are the counts, each side's view of the other is behind it, the admitted
  operations have the room or the item they were admitted for, and the array holds every
  item that has been written and not yet popped.
\<close>

definition item_slot :: "u64 \<Rightarrow> nat \<Rightarrow> nat" where
  "item_slot N i = slot N (of_nat i)"

definition written :: "'a spsc_state \<Rightarrow> 'a list" where
  "written s = (case ppc s of PPublish x \<Rightarrow> pushed s @ [x] | _ \<Rightarrow> pushed s)"

definition spsc_inv :: "u64 \<Rightarrow> 'a spsc_state \<Rightarrow> bool" where
  "spsc_inv N s \<longleftrightarrow>
     has_single_bit N \<and>
     write_idx (ring s) = of_nat (length (pushed s)) \<and>
     read_idx (ring s) = of_nat (length (popped s)) \<and>
     pview s \<le> length (popped s) \<and>
     length (popped s) \<le> cview s \<and> cview s \<le> length (pushed s) \<and>
     length (pushed s) \<le> pview s + unat N \<and>
     (ppc s \<noteq> PIdle \<longrightarrow> length (pushed s) < pview s + unat N) \<and>
     (cpc s \<noteq> CIdle \<longrightarrow> length (popped s) < cview s) \<and>
     (\<forall>v. cpc s = CPublish v \<longrightarrow> v = pushed s ! length (popped s)) \<and>
     popped s = take (length (popped s)) (pushed s) \<and>
     (\<forall>i. length (popped s) \<le> i \<longrightarrow> i < length (written s) \<longrightarrow>
        buffer (ring s) (item_slot N i) = written s ! i)"

lemma written_frame [simp, field_frame]:
  "written (s\<lparr>cview := j\<rparr>) = written s"
  "written (s\<lparr>pview := j\<rparr>) = written s"
  "written (s\<lparr>cpc := c\<rparr>) = written s"
  "written (s\<lparr>popped := xs\<rparr>) = written s"
  "written (s\<lparr>ring := r\<rparr>) = written s"
  by (simp_all add: written_def cong: producer_pc.case_cong)

lemma item_slot_distinct:
  "has_single_bit N \<Longrightarrow> i < j \<Longrightarrow> j - i < unat N \<Longrightarrow> item_slot N i \<noteq> item_slot N j"
  using slot_distinct [of N i j 0] by (simp add: item_slot_def)

lemma of_nat_u64_eq_iff:
  assumes "i \<le> j" and "j - i \<le> unat (N :: u64)"
  shows "(of_nat i :: u64) = of_nat j \<longleftrightarrow> i = j"
proof
  assume eq: "(of_nat i :: u64) = of_nat j"
  have "of_nat (j - i) = (of_nat j - of_nat i :: u64)"
    using assms(1) by (simp add: of_nat_diff)
  then have "unat (of_nat (j - i) :: u64) = 0"
    using eq by simp
  moreover have "j - i < 2 ^ LENGTH(64)"
    using assms(2) unsigned_less [of N] by (rule le_less_trans)
  ultimately have "j - i = 0"
    by (simp only: unat_of_nat_small)
  then show "i = j"
    using assms(1) by simp
qed simp

lemma of_nat_diff_eq_iff:
  assumes "i \<le> j" and "j - i \<le> unat (N :: u64)"
  shows "(of_nat j - of_nat i :: u64) = N \<longleftrightarrow> j = i + unat N"
proof -
  have eq: "of_nat j - of_nat i = (of_nat (j - i) :: u64)"
    using assms(1) by (simp add: of_nat_diff)
  have "j - i < 2 ^ LENGTH(64)"
    using assms(2) unsigned_less [of N] by (rule le_less_trans)
  then have "unat (of_nat (j - i) :: u64) = j - i"
    by (rule unat_of_nat_small)
  then have "(of_nat (j - i) :: u64) = N \<longleftrightarrow> j - i = unat N"
    by (metis word_unat_eq_iff)
  then show ?thesis
    unfolding eq using assms(1) by auto
qed

lemma spsc_init_inv: "spsc_init N s \<Longrightarrow> spsc_inv N s"
  by (simp add: spsc_init_def spsc_inv_def written_def)

lemma spsc_step_inv:
  assumes "spsc_inv N s" and "spsc_step N s t"
  shows "spsc_inv N t"
  using assms(2)
proof cases
  case (push_refused j)
  then show ?thesis
    using assms(1) by (auto simp: spsc_inv_def)
next
  case (push_admitted j x)
  have "length (pushed s) - j \<le> unat N" "j \<le> length (pushed s)"
    using push_admitted assms(1) by (auto simp: spsc_inv_def)
  then have "length (pushed s) \<noteq> j + unat N"
    using push_admitted of_nat_diff_eq_iff [of j "length (pushed s)" N] assms(1)
    by (auto simp: spsc_inv_def)
  then show ?thesis
    using push_admitted assms(1) by (auto simp: spsc_inv_def written_def)
next
  case (push_write x)
  let ?n = "length (pushed s)"
  have sl: "slot N (write_idx (ring s)) = item_slot N ?n"
    using assms(1) by (simp add: spsc_inv_def item_slot_def)
  have other: "item_slot N i \<noteq> item_slot N ?n" if "length (popped s) \<le> i" "i < ?n" for i
    using that assms(1) push_write by (intro item_slot_distinct) (auto simp: spsc_inv_def)
  show ?thesis
    using push_write assms(1) other
    by (auto simp: spsc_inv_def written_def sl nth_append less_Suc_eq)
next
  case (push_publish x)
  then show ?thesis
    using assms(1) by (auto simp: spsc_inv_def written_def nth_append)
next
  case (pop_refused j)
  then show ?thesis
    using assms(1) by (auto simp: spsc_inv_def)
next
  case (pop_admitted j)
  have "length (popped s) \<le> j" "j - length (popped s) \<le> unat N"
    using pop_admitted assms(1) by (auto simp: spsc_inv_def)
  then have "length (popped s) \<noteq> j"
    using pop_admitted assms(1) by (auto simp: spsc_inv_def)
  then show ?thesis
    using pop_admitted assms(1) by (auto simp: spsc_inv_def)
next
  case pop_read
  have "slot N (read_idx (ring s)) = item_slot N (length (popped s))"
    using assms(1) by (simp add: spsc_inv_def item_slot_def)
  moreover have "written s ! length (popped s) = pushed s ! length (popped s)"
    "length (popped s) < length (written s)"
    using assms(1) pop_read
    by (auto simp: spsc_inv_def written_def nth_append split: producer_pc.splits)
  ultimately show ?thesis
    using pop_read assms(1) by (auto simp: spsc_inv_def)
next
  case (pop_publish v)
  then have "popped s @ [v] = take (Suc (length (popped s))) (pushed s)"
    using assms(1) by (auto simp: spsc_inv_def take_Suc_conv_app_nth)
  then show ?thesis
    using pop_publish assms(1) by (auto simp: spsc_inv_def)
qed

interpretation conc: safety_machine "spsc_init N" "spsc_step N" "spsc_inv N" for N :: u64
  by unfold_locales (auto intro: spsc_init_inv spsc_step_inv)

section \<open>Properties of the concurrent queue\<close>

text \<open>One producer and one consumer, however their memory accesses interleave, and however
  stale the indices they read: what has been popped is a prefix of what has been pushed,
  at most the capacity is in flight, the indices are the counts modulo 2^64, and the two
  threads never access one array slot at the same time.\<close>

theorem spsc_concurrent_safety:
  assumes "spsc_init N s0" and "(spsc_step N)\<^sup>*\<^sup>* s0 s"
  shows "(\<exists>rest. pushed s = popped s @ rest \<and> length rest \<le> unat N) \<and>
    write_idx (ring s) = of_nat (length (pushed s)) \<and> read_idx (ring s) = of_nat (length (popped s)) \<and>
    (\<forall>x. ppc s = PWrite x \<longrightarrow> cpc s = CRead \<longrightarrow>
       slot N (write_idx (ring s)) \<noteq> slot N (read_idx (ring s)))"
proof -
  have inv: "spsc_inv N s"
    by (rule conc.reachable_inv [OF assms])
  then have pre: "popped s = take (length (popped s)) (pushed s)" and sb: "has_single_bit N"
    and bnd: "length (pushed s) \<le> pview s + unat N" "pview s \<le> length (popped s)"
    and idx: "write_idx (ring s) = of_nat (length (pushed s))" "read_idx (ring s) = of_nat (length (popped s))"
    by (simp_all add: spsc_inv_def)
  have "pushed s = popped s @ drop (length (popped s)) (pushed s)"
    using pre by (metis append_take_drop_id)
  moreover have "length (drop (length (popped s)) (pushed s)) \<le> unat N"
    using bnd by simp
  moreover have "slot N (write_idx (ring s)) \<noteq> slot N (read_idx (ring s))"
    if "ppc s = PWrite x" "cpc s = CRead" for x
  proof -
    have "length (popped s) < length (pushed s)" "length (pushed s) - length (popped s) < unat N"
      using inv that by (auto simp: spsc_inv_def)
    then show ?thesis
      using item_slot_distinct [OF sb, of "length (popped s)" "length (pushed s)"]
      by (auto simp: item_slot_def idx)
  qed
  ultimately show ?thesis
    using idx by blast
qed

theorem spsc_concurrent_safety_witness:
  "\<exists>s0 s. spsc_init 1 s0 \<and> (spsc_step 1)\<^sup>*\<^sup>* s0 s \<and> ppc s = PWrite (8 :: nat) \<and>
     (\<exists>rest. pushed s = popped s @ rest \<and> length rest \<le> unat (1 :: u64))"
proof -
  let ?s0 = "\<lparr>ring = SPSCQueue_new (\<lambda>_. 0), ppc = PIdle, cpc = CIdle, pview = 0, cview = 0,
    pushed = [], popped = []\<rparr> :: nat spsc_state"
  have i: "spsc_init 1 ?s0"
    by (simp add: spsc_init_def SPSCQueue_new_def has_single_bit_def upt_rec)
  have "spsc_step 1 ?s0 (?s0\<lparr>pview := 0, ppc := PWrite 8\<rparr>)"
    by (rule push_admitted) (simp_all add: SPSCQueue_new_def)
  then have st: "(spsc_step 1)\<^sup>*\<^sup>* ?s0 (?s0\<lparr>pview := 0, ppc := PWrite 8\<rparr>)"
    by blast
  show ?thesis
    using i st spsc_concurrent_safety [OF i st] by (intro exI [of _ ?s0] exI [of _ "?s0\<lparr>pview := 0, ppc := PWrite 8\<rparr>"]) auto
qed

end
