(* ===== verification/Spsc_Memory.thy ===== *)
theory Spsc_Memory
  imports Spsc_Concurrent "HOL-Library.Sublist"
begin

section \<open>The ring buffer in a release/acquire memory\<close>

text \<open>
  \<open>Spsc_Concurrent\<close> lets the threads read stale indices, but shares one array between them. Here
  the memory is that of the C++ standard, as far as \<open>src/src/spsc/spsc_queue.hpp\<close> uses it. An
  atomic index is the list of the stores made to it, its modification order; a load returns any
  of them that is not older than what the thread has read before. The slots are ordinary memory: two
  accesses to one slot by different threads, one of them a write, are a data race, and undefined
  behaviour, unless one happens before the other.

  What happens before is kept in clocks. Each thread counts its own accesses. A release store
  carries the clock of its thread, an acquire load that reads it raises what the thread knows of
  the other side (\<open>p_knows\<close>, \<open>c_knows\<close>) to that clock; a relaxed access carries or learns nothing.
  Every slot remembers the clocks of its last write and of its last read. \<open>raced\<close> is set by an
  access that conflicts with one its thread does not know of, so a program that keeps it clear has
  no data race.

  Producer calls are \<open>try_push\<close> and \<open>try_push_batch\<close>, consumer calls \<open>try_pop\<close> and
  \<open>try_pop_batch\<close>, in any order, split at every access. The memory orders of their accesses are a
  parameter; \<open>code_orders\<close> are those of the source. \<open>pushed\<close> and \<open>popped\<close> are the items of the calls that
  have stored their index, \<open>m_count\<close> their number at the time of the store; they are not in the program.
\<close>

datatype memory_order = Relaxed | Acquire | Release

record access_orders =
  push_load :: memory_order
  push_store :: memory_order
  pop_load :: memory_order
  pop_store :: memory_order

definition code_orders :: access_orders where
  "code_orders = \<lparr>push_load = Acquire, push_store = Release, pop_load = Acquire, pop_store = Release\<rparr>"

record store =
  m_val :: u64
  m_clk :: nat
  m_count :: nat

datatype 'a push_call = TryPush 'a | TryPushBatch "'a list"
datatype pop_call = TryPop | TryPopBatch nat

text \<open>A call that is under way: the index it started from, what it has done and what it still has to do.\<close>

datatype 'a push_pc = PushIdle | Pushing u64 "'a list" "'a list"
datatype 'a pop_pc = PopIdle | Popping u64 "'a list" nat

record 'a ra_state =
  w_stores :: "store list"
  r_stores :: "store list"
  slots :: "nat \<Rightarrow> 'a"
  wrote_at :: "nat \<Rightarrow> nat"
  read_at :: "nat \<Rightarrow> nat"
  p_clock :: nat
  c_clock :: nat
  p_knows :: nat
  c_knows :: nat
  p_seen :: nat
  c_seen :: nat
  p_pc :: "'a push_pc"
  c_pc :: "'a pop_pc"
  raced :: bool
  ra_pushed :: "'a list"
  ra_popped :: "'a list"

text \<open>The items a push admits, and the number of items a pop takes, given the two indices it has loaded.\<close>

definition try_push_admits :: "u64 \<Rightarrow> u64 \<Rightarrow> u64 \<Rightarrow> 'a \<Rightarrow> 'a list" where
  "try_push_admits N w r x = (if w - r = N then [] else [x])"

definition try_push_batch_admits :: "u64 \<Rightarrow> u64 \<Rightarrow> u64 \<Rightarrow> 'a list \<Rightarrow> 'a list" where
  "try_push_batch_admits N w r items =
     (let available = N - (w - r);
          n = (if length items < unat available then length items else unat available)
      in take n items)"

definition try_pop_admits :: "u64 \<Rightarrow> u64 \<Rightarrow> nat" where
  "try_pop_admits r w = (if r = w then 0 else 1)"

definition try_pop_batch_admits :: "u64 \<Rightarrow> u64 \<Rightarrow> nat \<Rightarrow> nat" where
  "try_pop_batch_admits r w max_count =
     (let available = w - r in if max_count < unat available then max_count else unat available)"

fun push_admits :: "u64 \<Rightarrow> u64 \<Rightarrow> u64 \<Rightarrow> 'a push_call \<Rightarrow> 'a list" where
  "push_admits N w r (TryPush x) = try_push_admits N w r x"
| "push_admits N w r (TryPushBatch items) = try_push_batch_admits N w r items"

fun pop_admits :: "u64 \<Rightarrow> u64 \<Rightarrow> pop_call \<Rightarrow> nat" where
  "pop_admits r w TryPop = try_pop_admits r w"
| "pop_admits r w (TryPopBatch max_count) = try_pop_batch_admits r w max_count"

lemmas admits = try_push_admits_def try_push_batch_admits_def try_pop_admits_def try_pop_batch_admits_def
declare admits [simp]

definition carried :: "memory_order \<Rightarrow> nat \<Rightarrow> nat" where
  "carried ord clk = (if ord = Release then clk else 0)"

definition learned :: "memory_order \<Rightarrow> nat \<Rightarrow> store \<Rightarrow> nat" where
  "learned ord known m = (if ord = Acquire then max known (m_clk m) else known)"

definition first_store :: store where
  "first_store = \<lparr>m_val = 0, m_clk = 0, m_count = 0\<rparr>"

definition ra_init :: "u64 \<Rightarrow> 'a ra_state \<Rightarrow> bool" where
  "ra_init N s \<longleftrightarrow> has_single_bit N \<and> w_stores s = [first_store] \<and> r_stores s = [first_store] \<and>
     wrote_at s = (\<lambda>_. 0) \<and> read_at s = (\<lambda>_. 0) \<and> p_clock s = 0 \<and> c_clock s = 0 \<and> p_knows s = 0 \<and> c_knows s = 0 \<and>
     p_seen s = 0 \<and> c_seen s = 0 \<and> p_pc s = PushIdle \<and> c_pc s = PopIdle \<and> \<not> raced s \<and> ra_pushed s = [] \<and> ra_popped s = []"

text \<open>
  A move of a thread: a call, with the store its load of the other index returns, or the next access of
  the call that is under way. The relaxed load of the own index returns the last own store.
\<close>

datatype 'a move = StartPush "'a push_call" nat | StartPop pop_call nat | Producer | Consumer

fun ra_move :: "access_orders \<Rightarrow> u64 \<Rightarrow> 'a move \<Rightarrow> 'a ra_state \<Rightarrow> 'a ra_state option" where
  "ra_move ord N (StartPush call j) s =
     (if p_pc s = PushIdle \<and> p_seen s \<le> j \<and> j < length (r_stores s)
      then let w = m_val (last (w_stores s)); items = push_admits N w (m_val (r_stores s ! j)) call
        in Some (s\<lparr>p_seen := j, p_knows := learned (push_load ord) (p_knows s) (r_stores s ! j),
             p_pc := if items = [] then PushIdle else Pushing w [] items\<rparr>)
      else None)"
| "ra_move ord N (StartPop call j) s =
     (if c_pc s = PopIdle \<and> c_seen s \<le> j \<and> j < length (w_stores s)
      then let r = m_val (last (r_stores s)); n = pop_admits r (m_val (w_stores s ! j)) call
        in Some (s\<lparr>c_seen := j, c_knows := learned (pop_load ord) (c_knows s) (w_stores s ! j),
             c_pc := if n = 0 then PopIdle else Popping r [] n\<rparr>)
      else None)"
| "ra_move ord N Producer s =
     (case p_pc s of
        PushIdle \<Rightarrow> None
      | Pushing w ds (x # xs) \<Rightarrow>
          (let k = slot N (w + of_nat (length ds))
           in Some (s\<lparr>slots := (slots s)(k := x), p_clock := Suc (p_clock s), wrote_at := (wrote_at s)(k := Suc (p_clock s)),
                raced := (raced s \<or> p_knows s < read_at s k), p_pc := Pushing w (ds @ [x]) xs\<rparr>))
      | Pushing w ds [] \<Rightarrow>
          Some (s\<lparr>p_clock := Suc (p_clock s),
            w_stores := w_stores s @ [\<lparr>m_val = w + of_nat (length ds), m_clk = carried (push_store ord) (Suc (p_clock s)),
              m_count = length (ra_pushed s @ ds)\<rparr>],
            ra_pushed := ra_pushed s @ ds, p_pc := PushIdle\<rparr>))"
| "ra_move ord N Consumer s =
     (case c_pc s of
        PopIdle \<Rightarrow> None
      | Popping r ds (Suc n) \<Rightarrow>
          (let k = slot N (r + of_nat (length ds))
           in Some (s\<lparr>c_clock := Suc (c_clock s), read_at := (read_at s)(k := Suc (c_clock s)),
                raced := (raced s \<or> c_knows s < wrote_at s k), c_pc := Popping r (ds @ [slots s k]) n\<rparr>))
      | Popping r ds 0 \<Rightarrow>
          Some (s\<lparr>c_clock := Suc (c_clock s),
            r_stores := r_stores s @ [\<lparr>m_val = r + of_nat (length ds), m_clk = carried (pop_store ord) (Suc (c_clock s)),
              m_count = length (ra_popped s @ ds)\<rparr>],
            ra_popped := ra_popped s @ ds, c_pc := PopIdle\<rparr>))"

inductive ra_step :: "access_orders \<Rightarrow> u64 \<Rightarrow> 'a ra_state \<Rightarrow> 'a ra_state \<Rightarrow> bool" for ord :: access_orders and N :: u64 where
  "ra_move ord N m s = Some t \<Longrightarrow> ra_step ord N s t"

subsection \<open>The invariant\<close>

fun p_done :: "'a push_pc \<Rightarrow> 'a list" where
  "p_done PushIdle = []"
| "p_done (Pushing w ds xs) = ds"

fun p_left :: "'a push_pc \<Rightarrow> nat" where
  "p_left PushIdle = 0"
| "p_left (Pushing w ds xs) = length xs"

fun c_done :: "'a pop_pc \<Rightarrow> 'a list" where
  "c_done PopIdle = []"
| "c_done (Popping r ds n) = ds"

fun c_left :: "'a pop_pc \<Rightarrow> nat" where
  "c_left PopIdle = 0"
| "c_left (Popping r ds n) = n"

definition ra_written :: "'a ra_state \<Rightarrow> 'a list" where
  "ra_written s = ra_pushed s @ p_done (p_pc s)"

definition ra_taken :: "'a ra_state \<Rightarrow> 'a list" where
  "ra_taken s = ra_popped s @ c_done (c_pc s)"

definition log_ok :: "store list \<Rightarrow> nat \<Rightarrow> bool" where
  "log_ok ms n \<longleftrightarrow> ms \<noteq> [] \<and> sorted (map m_count ms) \<and> m_count (last ms) = n \<and> (\<forall>m \<in> set ms. m_val m = of_nat (m_count m))"

text \<open>
  Accesses to a slot that a store does not cover by its clock belong to items that come after
  those it counts.
\<close>

definition covers :: "u64 \<Rightarrow> store list \<Rightarrow> (nat \<Rightarrow> nat) \<Rightarrow> nat \<Rightarrow> bool" where
  "covers N ms acc n \<longleftrightarrow> (\<forall>m \<in> set ms. \<forall>k. m_clk m < acc k \<longrightarrow> (\<exists>i. m_count m \<le> i \<and> i < n \<and> item_slot N i = k))"

definition push_ok :: "u64 \<Rightarrow> 'a ra_state \<Rightarrow> bool" where
  "push_ok N s \<longleftrightarrow>
     log_ok (w_stores s) (length (ra_pushed s)) \<and> p_seen s < length (r_stores s) \<and>
     m_clk (r_stores s ! p_seen s) \<le> p_knows s \<and> (\<forall>k. wrote_at s k \<le> p_clock s) \<and>
     covers N (w_stores s) (wrote_at s) (length (ra_written s)) \<and>
     length (ra_written s) + p_left (p_pc s) \<le> m_count (r_stores s ! p_seen s) + unat N \<and>
     (\<forall>w ds xs. p_pc s = Pushing w ds xs \<longrightarrow> w = of_nat (length (ra_pushed s)))"

definition pop_ok :: "u64 \<Rightarrow> 'a ra_state \<Rightarrow> bool" where
  "pop_ok N s \<longleftrightarrow>
     log_ok (r_stores s) (length (ra_popped s)) \<and> c_seen s < length (w_stores s) \<and>
     m_clk (w_stores s ! c_seen s) \<le> c_knows s \<and> (\<forall>k. read_at s k \<le> c_clock s) \<and>
     covers N (r_stores s) (read_at s) (length (ra_taken s)) \<and>
     length (ra_taken s) + c_left (c_pc s) \<le> m_count (w_stores s ! c_seen s) \<and>
     (\<forall>r ds n. c_pc s = Popping r ds n \<longrightarrow> r = of_nat (length (ra_popped s)))"

definition data_ok :: "u64 \<Rightarrow> 'a ra_state \<Rightarrow> bool" where
  "data_ok N s \<longleftrightarrow> prefix (ra_taken s) (ra_pushed s) \<and>
     (\<forall>i. length (ra_popped s) \<le> i \<longrightarrow> i < length (ra_written s) \<longrightarrow> slots s (item_slot N i) = ra_written s ! i)"

definition ra_inv :: "u64 \<Rightarrow> 'a ra_state \<Rightarrow> bool" where
  "ra_inv N s \<longleftrightarrow> has_single_bit N \<and> \<not> raced s \<and> push_ok N s \<and> pop_ok N s \<and> data_ok N s"

lemma log_okD:
  assumes "log_ok ms n"
  shows "ms \<noteq> []" "m_count (last ms) = n" "m_val (last ms) = of_nat n"
    "j < length ms \<Longrightarrow> m_count (ms ! j) \<le> n" "j < length ms \<Longrightarrow> m_val (ms ! j) = of_nat (m_count (ms ! j))"
    "i \<le> j \<Longrightarrow> j < length ms \<Longrightarrow> m_count (ms ! i) \<le> m_count (ms ! j)"
proof -
  show ms: "ms \<noteq> []" and l: "m_count (last ms) = n" and "m_val (last ms) = of_nat n"
    and "j < length ms \<Longrightarrow> m_val (ms ! j) = of_nat (m_count (ms ! j))"
    using assms by (auto simp: log_ok_def)
  show mono: "m_count (ms ! i) \<le> m_count (ms ! j)" if "i \<le> j" "j < length ms" for i j
    using assms sorted_nth_mono [of "map m_count ms" i j] that by (simp add: log_ok_def)
  show "m_count (ms ! j) \<le> n" if "j < length ms"
    using mono [of j "length ms - 1"] that ms l by (simp add: last_conv_nth)
qed

lemma log_ok_store:
  assumes "log_ok ms n" and "m_count m = n + d" and "m_val m = of_nat (n + d)"
  shows "log_ok (ms @ [m]) (n + d)"
proof -
  have "m_count x \<le> n" if "x \<in> set ms" for x
    using that log_okD(4) [OF assms(1)] by (metis in_set_conv_nth)
  then show ?thesis
    using assms by (fastforce simp: log_ok_def sorted_append)
qed

lemma covers_store:
  "covers N ms acc n \<Longrightarrow> (\<And>k. acc k \<le> m_clk m) \<Longrightarrow> covers N (ms @ [m]) acc n"
  unfolding covers_def by (metis Un_iff empty_iff list.set(1,2) insert_iff leD set_append)

lemma covers_access:
  assumes "covers N ms acc n" and "log_ok ms b" and "b \<le> n"
  shows "covers N ms (acc(item_slot N n := c)) (Suc n)"
  unfolding covers_def
proof (intro ballI allI impI)
  fix m k assume m: "m \<in> set ms" and c: "m_clk m < (acc(item_slot N n := c)) k"
  have "m_count m \<le> n"
    using m log_okD(4) [OF assms(2)] assms(3) by (metis in_set_conv_nth order_trans)
  then show "\<exists>i. m_count m \<le> i \<and> i < Suc n \<and> item_slot N i = k"
    using assms(1) m c by (cases "k = item_slot N n") (auto simp: covers_def less_Suc_eq)
qed

lemma unat_lt2p_64: "unat (w :: u64) < 2 ^ 64"
  using unsigned_less [of w, where ?'a = nat] by simp

lemma push_admits_room:
  assumes "v \<le> p" and "p \<le> v + unat N"
  shows "p + length (push_admits N (of_nat p) (of_nat v) call) \<le> v + unat N"
proof -
  have d: "of_nat p - of_nat v = (of_nat (p - v) :: u64)" "p - v < 2 ^ 64"
    using assms unat_lt2p_64 [of N] by (auto simp: of_nat_diff)
  then have u: "unat (of_nat p - of_nat v :: u64) = p - v"
    by (simp add: unat_of_nat_small)
  show ?thesis
  proof (cases call)
    case (TryPush x)
    then show ?thesis
      using of_nat_diff_eq_iff [of v p N] assms by auto
  next
    case (TryPushBatch items)
    have "unat (N - (of_nat p - of_nat v)) = unat N - (p - v)"
      using assms u by (subst unat_sub) (auto simp: word_le_nat_alt)
    then show ?thesis
      using TryPushBatch assms by (auto simp: Let_def)
  qed
qed

lemma pop_admits_there:
  assumes "p \<le> v" and "v \<le> p + unat (N :: u64)"
  shows "p + pop_admits (of_nat p) (of_nat v) call \<le> v"
proof -
  have d: "of_nat v - of_nat p = (of_nat (v - p) :: u64)" "v - p < 2 ^ 64"
    using assms unat_lt2p_64 [of N] by (auto simp: of_nat_diff)
  then have "unat (of_nat v - of_nat p :: u64) = v - p"
    by (simp add: unat_of_nat_small)
  moreover have "(of_nat p :: u64) = of_nat v \<longleftrightarrow> p = v"
    using of_nat_u64_eq_iff [of p v N] assms by auto
  ultimately show ?thesis
    using assms by (cases call) (auto simp: Let_def)
qed

subsection \<open>Every step keeps it\<close>

lemmas ra_defs = ra_inv_def push_ok_def pop_ok_def data_ok_def ra_written_def ra_taken_def

text \<open>The counts in order: what the producer has seen popped, popped, taken, what the consumer has seen pushed, pushed.\<close>

lemma ra_counts:
  assumes "ra_inv N s"
  shows "m_count (r_stores s ! p_seen s) \<le> length (ra_popped s)"
    "length (ra_taken s) + c_left (c_pc s) \<le> m_count (w_stores s ! c_seen s)"
    "m_count (w_stores s ! c_seen s) \<le> length (ra_pushed s)"
    "length (ra_written s) + p_left (p_pc s) \<le> m_count (r_stores s ! p_seen s) + unat N"
  using assms log_okD(4) [of "r_stores s" "length (ra_popped s)" "p_seen s"]
    log_okD(4) [of "w_stores s" "length (ra_pushed s)" "c_seen s"]
  by (simp_all add: ra_inv_def push_ok_def pop_ok_def)

lemma push_start_inv:
  assumes I: "ra_inv N s" and ord: "push_load ord = Acquire" and pc: "p_pc s = PushIdle"
    and w: "w = m_val (last (w_stores s))" and j: "p_seen s \<le> j" "j < length (r_stores s)"
    and items: "items = push_admits N w (m_val (r_stores s ! j)) call"
  shows "ra_inv N (s\<lparr>p_seen := j, p_knows := learned (push_load ord) (p_knows s) (r_stores s ! j),
       p_pc := if items = [] then PushIdle else Pushing w [] items\<rparr>)"
proof -
  let ?v = "m_count (r_stores s ! j)" and ?p = "length (ra_pushed s)"
  have R: "log_ok (r_stores s) (length (ra_popped s))" and W: "log_ok (w_stores s) ?p"
    using I by (simp_all add: ra_defs)
  note C = ra_counts [OF I]
  have v: "m_count (r_stores s ! p_seen s) \<le> ?v" "?v \<le> length (ra_popped s)"
    using log_okD(4,6) [OF R] j by auto
  have wv: "w = of_nat ?p" "m_val (r_stores s ! j) = of_nat ?v"
    using log_okD(3) [OF W] log_okD(5) [OF R j(2)] w by auto
  have "?v \<le> ?p" "?p \<le> ?v + unat N"
    using C v pc by (auto simp: ra_taken_def ra_written_def)
  then have "?p + length items \<le> ?v + unat N"
    unfolding items wv by (rule push_admits_room)
  then show ?thesis
    using I pc j(2) wv(1) ord by (auto simp: ra_defs learned_def)
qed

lemma push_slot_inv:
  assumes I: "ra_inv N s" and pc: "p_pc s = Pushing w ds (x # xs)" and k: "k = slot N (w + of_nat (length ds))"
  shows "ra_inv N (s\<lparr>slots := (slots s)(k := x), p_clock := Suc (p_clock s), wrote_at := (wrote_at s)(k := Suc (p_clock s)),
       raced := (raced s \<or> p_knows s < read_at s k), p_pc := Pushing w (ds @ [x]) xs\<rparr>)"
proof -
  let ?n = "length (ra_written s)" and ?v = "m_count (r_stores s ! p_seen s)"
  have sb: "has_single_bit N" and W: "log_ok (w_stores s) (length (ra_pushed s))" "w = of_nat (length (ra_pushed s))"
    and cov: "covers N (w_stores s) (wrote_at s) ?n" "covers N (r_stores s) (read_at s) (length (ra_taken s))"
    and kn: "m_clk (r_stores s ! p_seen s) \<le> p_knows s" "p_seen s < length (r_stores s)"
    using I pc by (simp_all add: ra_inv_def push_ok_def pop_ok_def)
  have ki: "k = item_slot N ?n"
    using W(2) pc by (simp add: k item_slot_def ra_written_def)
  note C = ra_counts [OF I]
  have n: "?n < ?v + unat N" "length (ra_pushed s) \<le> ?n"
    using C pc by (simp_all add: ra_written_def)
  have other: "item_slot N i \<noteq> k" if "?v \<le> i" "i < ?n" for i
    unfolding ki using that n by (intro item_slot_distinct [OF sb]) auto
  have nr: "\<not> p_knows s < read_at s k"
  proof
    assume "p_knows s < read_at s k"
    then have "m_clk (r_stores s ! p_seen s) < read_at s k"
      using kn(1) by simp
    then obtain i where "?v \<le> i" "i < length (ra_taken s)" "item_slot N i = k"
      using cov(2) nth_mem [OF kn(2)] unfolding covers_def by blast
    then show False
      using other C n by auto
  qed
  have "covers N (w_stores s) ((wrote_at s)(k := Suc (p_clock s))) (Suc ?n)"
    unfolding ki by (rule covers_access [OF cov(1) W(1) n(2)])
  moreover have "((slots s)(k := x)) (item_slot N i) = (ra_written s @ [x]) ! i"
    if "length (ra_popped s) \<le> i" "i < Suc ?n" for i
    using that other [of i] C(1) I ki by (cases "i = ?n") (auto simp: ra_inv_def data_ok_def nth_append)
  ultimately show ?thesis
    using I pc nr by (auto simp: ra_defs le_Suc_eq)
qed

lemma push_end_inv:
  assumes I: "ra_inv N s" and ord: "push_store ord = Release" and pc: "p_pc s = Pushing w ds []"
  shows "ra_inv N (s\<lparr>p_clock := Suc (p_clock s),
       w_stores := w_stores s @ [\<lparr>m_val = w + of_nat (length ds), m_clk = carried (push_store ord) (Suc (p_clock s)),
         m_count = length (ra_pushed s @ ds)\<rparr>],
       ra_pushed := ra_pushed s @ ds, p_pc := PushIdle\<rparr>)"
proof -
  let ?m = "\<lparr>m_val = w + of_nat (length ds), m_clk = carried (push_store ord) (Suc (p_clock s)), m_count = length (ra_pushed s @ ds)\<rparr>"
  have W: "log_ok (w_stores s) (length (ra_pushed s))" "w = of_nat (length (ra_pushed s))"
    "covers N (w_stores s) (wrote_at s) (length (ra_written s))" "\<And>k. wrote_at s k \<le> p_clock s"
    and cs: "c_seen s < length (w_stores s)"
    using I pc by (simp_all add: ra_inv_def push_ok_def pop_ok_def)
  have "log_ok (w_stores s @ [?m]) (length (ra_pushed s) + length ds)"
    using W(2) by (intro log_ok_store [OF W(1)]) simp_all
  moreover have "covers N (w_stores s @ [?m]) (wrote_at s) (length (ra_written s))"
    using W(4) by (intro covers_store [OF W(3)]) (simp add: carried_def ord le_SucI)
  moreover have "(w_stores s @ [?m]) ! c_seen s = w_stores s ! c_seen s"
    using cs by (simp add: nth_append)
  ultimately show ?thesis
    using I pc cs by (auto simp: ra_defs prefix_def le_SucI)
qed

lemma pop_start_inv:
  assumes I: "ra_inv N s" and ord: "pop_load ord = Acquire" and pc: "c_pc s = PopIdle"
    and r: "r = m_val (last (r_stores s))" and j: "c_seen s \<le> j" "j < length (w_stores s)"
    and n: "n = pop_admits r (m_val (w_stores s ! j)) call"
  shows "ra_inv N (s\<lparr>c_seen := j, c_knows := learned (pop_load ord) (c_knows s) (w_stores s ! j),
       c_pc := if n = 0 then PopIdle else Popping r [] n\<rparr>)"
proof -
  let ?v = "m_count (w_stores s ! j)" and ?p = "length (ra_popped s)"
  have W: "log_ok (w_stores s) (length (ra_pushed s))" and R: "log_ok (r_stores s) ?p"
    using I by (simp_all add: ra_defs)
  note C = ra_counts [OF I]
  have v: "m_count (w_stores s ! c_seen s) \<le> ?v" "?v \<le> length (ra_pushed s)"
    using log_okD(4,6) [OF W] j by auto
  have rv: "r = of_nat ?p" "m_val (w_stores s ! j) = of_nat ?v"
    using log_okD(3) [OF R] log_okD(5) [OF W j(2)] r by auto
  have "?p \<le> ?v" "?v \<le> ?p + unat N"
    using C v pc by (auto simp: ra_taken_def ra_written_def)
  then have "?p + n \<le> ?v"
    unfolding n rv by (rule pop_admits_there)
  then show ?thesis
    using I pc j(2) rv(1) ord by (auto simp: ra_defs learned_def)
qed

lemma pop_slot_inv:
  assumes I: "ra_inv N s" and pc: "c_pc s = Popping r ds (Suc n)" and k: "k = slot N (r + of_nat (length ds))"
  shows "ra_inv N (s\<lparr>c_clock := Suc (c_clock s), read_at := (read_at s)(k := Suc (c_clock s)),
       raced := (raced s \<or> c_knows s < wrote_at s k), c_pc := Popping r (ds @ [slots s k]) n\<rparr>)"
proof -
  let ?n = "length (ra_taken s)" and ?v = "m_count (w_stores s ! c_seen s)"
  have sb: "has_single_bit N" and R: "log_ok (r_stores s) (length (ra_popped s))" "r = of_nat (length (ra_popped s))"
    and cov: "covers N (r_stores s) (read_at s) ?n" "covers N (w_stores s) (wrote_at s) (length (ra_written s))"
    and kn: "m_clk (w_stores s ! c_seen s) \<le> c_knows s" "c_seen s < length (w_stores s)" and data: "data_ok N s"
    using I pc by (simp_all add: ra_inv_def push_ok_def pop_ok_def)
  have ki: "k = item_slot N ?n"
    using R(2) pc by (simp add: k item_slot_def ra_taken_def)
  note C = ra_counts [OF I]
  have n: "?n < ?v" "length (ra_popped s) \<le> ?n" "?n < length (ra_pushed s)"
    using C pc by (simp_all add: ra_taken_def)
  have nr: "\<not> c_knows s < wrote_at s k"
  proof
    assume "c_knows s < wrote_at s k"
    then have "m_clk (w_stores s ! c_seen s) < wrote_at s k"
      using kn(1) by simp
    then obtain i where i: "?v \<le> i" "i < length (ra_written s)" "item_slot N i = k"
      using cov(2) nth_mem [OF kn(2)] unfolding covers_def by blast
    have "?n < i" "i - ?n < unat N"
      using i n C by auto
    then show False
      using item_slot_distinct [OF sb] i(3) ki by metis
  qed
  have "slots s k = ra_pushed s ! ?n"
    using data n unfolding data_ok_def ki by (auto simp: ra_written_def nth_append)
  then have "prefix (ra_taken s @ [slots s k]) (ra_pushed s)"
    using data n(3) by (auto simp: data_ok_def prefix_def nth_append neq_Nil_conv)
  moreover have "covers N (r_stores s) ((read_at s)(k := Suc (c_clock s))) (Suc ?n)"
    unfolding ki by (rule covers_access [OF cov(1) R(1) n(2)])
  ultimately show ?thesis
    using I pc nr by (auto simp: ra_defs le_Suc_eq)
qed

lemma pop_end_inv:
  assumes I: "ra_inv N s" and ord: "pop_store ord = Release" and pc: "c_pc s = Popping r ds 0"
  shows "ra_inv N (s\<lparr>c_clock := Suc (c_clock s),
       r_stores := r_stores s @ [\<lparr>m_val = r + of_nat (length ds), m_clk = carried (pop_store ord) (Suc (c_clock s)),
         m_count = length (ra_popped s @ ds)\<rparr>],
       ra_popped := ra_popped s @ ds, c_pc := PopIdle\<rparr>)"
proof -
  let ?m = "\<lparr>m_val = r + of_nat (length ds), m_clk = carried (pop_store ord) (Suc (c_clock s)), m_count = length (ra_popped s @ ds)\<rparr>"
  have R: "log_ok (r_stores s) (length (ra_popped s))" "r = of_nat (length (ra_popped s))"
    "covers N (r_stores s) (read_at s) (length (ra_taken s))" "\<And>k. read_at s k \<le> c_clock s"
    and ps: "p_seen s < length (r_stores s)"
    using I pc by (simp_all add: ra_inv_def push_ok_def pop_ok_def)
  have "log_ok (r_stores s @ [?m]) (length (ra_popped s) + length ds)"
    using R(2) by (intro log_ok_store [OF R(1)]) simp_all
  moreover have "covers N (r_stores s @ [?m]) (read_at s) (length (ra_taken s))"
    using R(4) by (intro covers_store [OF R(3)]) (simp add: carried_def ord le_SucI)
  moreover have "(r_stores s @ [?m]) ! p_seen s = r_stores s ! p_seen s"
    using ps by (simp add: nth_append)
  ultimately show ?thesis
    using I pc ps by (auto simp: ra_defs le_SucI)
qed

lemma ra_step_inv:
  assumes "ra_inv N s" and "ra_step code_orders N s t"
  shows "ra_inv N t"
proof -
  have o: "push_load code_orders = Acquire" "push_store code_orders = Release"
    "pop_load code_orders = Acquire" "pop_store code_orders = Release"
    by (simp_all add: code_orders_def)
  obtain m where m: "ra_move code_orders N m s = Some t"
    using assms(2) by (auto elim: ra_step.cases)
  show ?thesis
  proof (cases m)
    case (StartPush call j)
    then show ?thesis
      using m push_start_inv [OF assms(1) o(1) _ refl _ _ refl, of j call] by (auto simp: Let_def split: if_splits)
  next
    case (StartPop call j)
    then show ?thesis
      using m pop_start_inv [OF assms(1) o(3) _ refl _ _ refl, of j call] by (auto simp: Let_def split: if_splits)
  next
    case Producer
    then show ?thesis
      using m push_slot_inv [OF assms(1) _ refl] push_end_inv [OF assms(1) o(2)]
      by (auto simp: Let_def split: push_pc.splits list.splits)
  next
    case Consumer
    then show ?thesis
      using m pop_slot_inv [OF assms(1) _ refl] pop_end_inv [OF assms(1) o(4)]
      by (auto simp: Let_def split: pop_pc.splits nat.splits)
  qed
qed

lemma ra_init_inv: "ra_init N s \<Longrightarrow> ra_inv N s"
  by (simp add: ra_init_def ra_defs log_ok_def covers_def first_store_def)

interpretation ram: safety_machine "ra_init N" "ra_step code_orders N" "ra_inv N" for N :: u64
  by unfold_locales (auto intro: ra_init_inv ra_step_inv)

subsection \<open>Calls that are not interrupted\<close>

text \<open>Running a schedule.\<close>

fun ra_moves :: "access_orders \<Rightarrow> u64 \<Rightarrow> 'a move list \<Rightarrow> 'a ra_state \<Rightarrow> 'a ra_state option" where
  "ra_moves ord N [] s = Some s"
| "ra_moves ord N (m # ms) s = (case ra_move ord N m s of None \<Rightarrow> None | Some t \<Rightarrow> ra_moves ord N ms t)"

lemma ra_moves_steps: "ra_moves ord N ms s = Some t \<Longrightarrow> (ra_step ord N)\<^sup>*\<^sup>* s t"
  by (induction ms arbitrary: s) (auto split: option.splits intro: ra_step.intros converse_rtranclp_into_rtranclp)

text \<open>
  A call that runs alone, and loads the last store of the other index, does to the queue what the
  function of \<open>Spsc_Queue\<close> does.
\<close>

definition ra_queue :: "'a ra_state \<Rightarrow> 'a SPSCQueue" where
  "ra_queue s = \<lparr>write_idx = m_val (last (w_stores s)), read_idx = m_val (last (r_stores s)), buffer = slots s\<rparr>"

lemma ra_moves_append: "ra_moves ord N ms s = Some t \<Longrightarrow> ra_moves ord N (ms @ ns) s = ra_moves ord N ns t"
  by (induction ms arbitrary: s) (auto split: option.splits)

lemma ra_moves_Cons: "ra_move ord N m s = Some t \<Longrightarrow> ra_moves ord N (m # ms) s = ra_moves ord N ms t"
  by simp

lemma push_rest_alone:
  "p_pc s = Pushing w ds xs \<Longrightarrow>
   \<exists>t. ra_moves ord N (replicate (Suc (length xs)) Producer) s = Some t \<and> p_pc t = PushIdle \<and>
     ra_pushed t = ra_pushed s @ ds @ xs \<and> ra_popped t = ra_popped s \<and>
     ra_queue t = (ra_queue s)\<lparr>buffer := push_loop N (w + of_nat (length ds)) xs (slots s),
       write_idx := w + of_nat (length (ds @ xs))\<rparr>"
proof (induction xs arbitrary: s ds)
  case (Cons x xs)
  let ?k = "slot N (w + of_nat (length ds))"
  obtain s1 where m: "ra_move ord N Producer s = Some s1" and s1: "p_pc s1 = Pushing w (ds @ [x]) xs" "ra_pushed s1 = ra_pushed s"
    "ra_popped s1 = ra_popped s" "slots s1 = (slots s)(?k := x)" "w_stores s1 = w_stores s" "r_stores s1 = r_stores s"
    using Cons.prems by (simp add: Let_def)
  have q: "ra_queue s1 = (ra_queue s)\<lparr>buffer := (slots s)(?k := x)\<rparr>"
    by (simp add: ra_queue_def s1)
  have r: "replicate (Suc (length (x # xs))) Producer = Producer # replicate (Suc (length xs)) Producer"
    by simp
  from Cons.IH [OF s1(1)] show ?case
    unfolding r ra_moves_Cons [OF m] q s1(2-4) by (simp add: ac_simps fun_upd_def del: ra_moves.simps)
qed (simp add: ra_queue_def)

lemma pop_rest_alone:
  "c_pc s = Popping r ds n \<Longrightarrow>
   \<exists>t. ra_moves ord N (replicate (Suc n) Consumer) s = Some t \<and> c_pc t = PopIdle \<and>
     ra_pushed t = ra_pushed s \<and> ra_popped t = ra_popped s @ ds @ pop_loop N (r + of_nat (length ds)) n (slots s) \<and>
     ra_queue t = (ra_queue s)\<lparr>read_idx := r + of_nat (length ds + n)\<rparr>"
proof (induction n arbitrary: s ds)
  case 0
  then show ?case
    by (simp add: ra_queue_def)
next
  case (Suc n)
  let ?k = "slot N (r + of_nat (length ds))"
  obtain s1 where m: "ra_move ord N Consumer s = Some s1" and s1: "c_pc s1 = Popping r (ds @ [slots s ?k]) n" "ra_pushed s1 = ra_pushed s"
    "ra_popped s1 = ra_popped s" "slots s1 = slots s" "w_stores s1 = w_stores s" "r_stores s1 = r_stores s"
    using Suc.prems by (simp add: Let_def)
  have q: "ra_queue s1 = ra_queue s"
    by (simp add: ra_queue_def s1)
  have "replicate (Suc (Suc n)) Consumer = Consumer # replicate (Suc n) Consumer" for n
    by simp
  with Suc.IH [OF s1(1)] show ?case
    unfolding ra_moves_Cons [OF m] q s1(2-4) by (simp add: ra_moves_Cons [OF m] ac_simps del: ra_moves.simps)
qed

lemma push_alone:
  assumes "p_pc s = PushIdle" and "r_stores s \<noteq> []" and "p_seen s < length (r_stores s)"
    and items: "push_admits N (write_idx (ra_queue s)) (read_idx (ra_queue s)) call = items"
  shows "\<exists>t. (ra_step ord N)\<^sup>*\<^sup>* s t \<and> p_pc t = PushIdle \<and> ra_pushed t = ra_pushed s @ items \<and>
    ra_queue t = (ra_queue s)\<lparr>buffer := push_loop N (write_idx (ra_queue s)) items (slots s),
      write_idx := write_idx (ra_queue s) + of_nat (length items)\<rparr>"
proof -
  let ?j = "length (r_stores s) - 1" and ?w = "m_val (last (w_stores s))"
  have l: "r_stores s ! ?j = last (r_stores s)"
    using assms(2) by (simp add: last_conv_nth)
  have b: "p_seen s \<le> ?j" "?j < length (r_stores s)"
    using assms(3) by auto
  obtain s1 where m: "ra_move ord N (StartPush call ?j) s = Some s1"
    and s1: "p_pc s1 = (if items = [] then PushIdle else Pushing ?w [] items)" "ra_pushed s1 = ra_pushed s" "slots s1 = slots s"
      "ra_queue s1 = ra_queue s"
    using assms(1) items b by (simp add: Let_def l ra_queue_def del: One_nat_def)
  show ?thesis
  proof (cases "items = []")
    case True
    then show ?thesis
      using s1 ra_step.intros [OF m] by (intro exI [of _ s1]) (simp add: ra_queue_def)
  next
    case False
    then have "p_pc s1 = Pushing ?w [] items"
      by (simp add: s1)
    from push_rest_alone [OF this, of ord N] obtain t where
      t: "ra_moves ord N (replicate (Suc (length items)) Producer) s1 = Some t" "p_pc t = PushIdle" "ra_pushed t = ra_pushed s @ items"
      "ra_queue t = (ra_queue s)\<lparr>buffer := push_loop N ?w items (slots s), write_idx := ?w + of_nat (length items)\<rparr>"
      by (auto simp: s1 simp del: replicate.simps)
    have "(ra_step ord N)\<^sup>*\<^sup>* s t"
      using ra_step.intros [OF m] ra_moves_steps [OF t(1)] by (rule converse_rtranclp_into_rtranclp)
    then show ?thesis
      using t by (auto simp: ra_queue_def)
  qed
qed

lemma pop_alone:
  assumes "c_pc s = PopIdle" and "w_stores s \<noteq> []" and "c_seen s < length (w_stores s)"
    and n: "pop_admits (read_idx (ra_queue s)) (write_idx (ra_queue s)) call = n"
  shows "\<exists>t. (ra_step ord N)\<^sup>*\<^sup>* s t \<and> c_pc t = PopIdle \<and>
    ra_popped t = ra_popped s @ pop_loop N (read_idx (ra_queue s)) n (slots s) \<and>
    ra_queue t = (ra_queue s)\<lparr>read_idx := read_idx (ra_queue s) + of_nat n\<rparr>"
proof -
  let ?j = "length (w_stores s) - 1" and ?r = "m_val (last (r_stores s))"
  have l: "w_stores s ! ?j = last (w_stores s)"
    using assms(2) by (simp add: last_conv_nth)
  have b: "c_seen s \<le> ?j" "?j < length (w_stores s)"
    using assms(3) by auto
  obtain s1 where m: "ra_move ord N (StartPop call ?j) s = Some s1"
    and s1: "c_pc s1 = (if n = 0 then PopIdle else Popping ?r [] n)" "ra_popped s1 = ra_popped s" "slots s1 = slots s"
      "ra_queue s1 = ra_queue s"
    using assms(1) n b by (simp add: Let_def l ra_queue_def del: One_nat_def)
  show ?thesis
  proof (cases "n = 0")
    case True
    then show ?thesis
      using s1 ra_step.intros [OF m] by (intro exI [of _ s1]) (simp add: ra_queue_def)
  next
    case False
    then have "c_pc s1 = Popping ?r [] n"
      by (simp add: s1)
    from pop_rest_alone [OF this, of ord N] obtain t where
      t: "ra_moves ord N (replicate (Suc n) Consumer) s1 = Some t" "c_pc t = PopIdle"
      "ra_popped t = ra_popped s @ pop_loop N ?r n (slots s)" "ra_queue t = (ra_queue s)\<lparr>read_idx := ?r + of_nat n\<rparr>"
      by (auto simp: s1 simp del: replicate.simps)
    have "(ra_step ord N)\<^sup>*\<^sup>* s t"
      using ra_step.intros [OF m] ra_moves_steps [OF t(1)] by (rule converse_rtranclp_into_rtranclp)
    then show ?thesis
      using t by (auto simp: ra_queue_def)
  qed
qed

lemma push_admits_functions:
  "(ra_queue s)\<lparr>buffer := push_loop N (write_idx (ra_queue s)) (push_admits N (write_idx (ra_queue s)) (read_idx (ra_queue s)) (TryPush x)) (slots s),
     write_idx := write_idx (ra_queue s) + of_nat (length (push_admits N (write_idx (ra_queue s)) (read_idx (ra_queue s)) (TryPush x)))\<rparr> =
   snd (try_push N (ra_queue s) x)"
  "(ra_queue s)\<lparr>buffer := push_loop N (write_idx (ra_queue s)) (push_admits N (write_idx (ra_queue s)) (read_idx (ra_queue s)) (TryPushBatch xs)) (slots s),
     write_idx := write_idx (ra_queue s) + of_nat (length (push_admits N (write_idx (ra_queue s)) (read_idx (ra_queue s)) (TryPushBatch xs)))\<rparr> =
   snd (try_push_batch N (ra_queue s) xs)"
  by (simp_all add: try_push_def try_push_batch_def Let_def ra_queue_def min_def)

lemma pop_admits_functions:
  "(ra_queue s)\<lparr>read_idx := read_idx (ra_queue s) + of_nat (pop_admits (read_idx (ra_queue s)) (write_idx (ra_queue s)) TryPop)\<rparr> =
   snd (try_pop N (ra_queue s))"
  "(ra_queue s)\<lparr>read_idx := read_idx (ra_queue s) + of_nat (pop_admits (read_idx (ra_queue s)) (write_idx (ra_queue s)) (TryPopBatch n))\<rparr> =
   snd (try_pop_batch N (ra_queue s) n)"
  by (simp_all add: try_pop_def try_pop_batch_def Let_def ra_queue_def)

text \<open>In a reachable state, each of the four calls can run through and have the effect of its function.\<close>

lemma calls_alone:
  assumes "ra_inv N s" and "p_pc s = PushIdle" and "c_pc s = PopIdle"
  shows "\<exists>t. (ra_step ord N)\<^sup>*\<^sup>* s t \<and> ra_queue t = snd (try_push N (ra_queue s) x) \<and>
      ra_pushed t = ra_pushed s @ (if fst (try_push N (ra_queue s) x) then [x] else [])"
    and "\<exists>t. (ra_step ord N)\<^sup>*\<^sup>* s t \<and> ra_queue t = snd (try_push_batch N (ra_queue s) xs) \<and>
      ra_pushed t = ra_pushed s @ take (fst (try_push_batch N (ra_queue s) xs)) xs"
    and "\<exists>t. (ra_step ord N)\<^sup>*\<^sup>* s t \<and> ra_queue t = snd (try_pop N (ra_queue s)) \<and>
      ra_popped t = ra_popped s @ (case fst (try_pop N (ra_queue s)) of None \<Rightarrow> [] | Some y \<Rightarrow> [y])"
    and "\<exists>t. (ra_step ord N)\<^sup>*\<^sup>* s t \<and> ra_queue t = snd (try_pop_batch N (ra_queue s) n) \<and>
      ra_popped t = ra_popped s @ fst (try_pop_batch N (ra_queue s) n)"
proof -
  have b: "r_stores s \<noteq> []" "p_seen s < length (r_stores s)" "w_stores s \<noteq> []" "c_seen s < length (w_stores s)"
    using assms(1) log_okD(1) by (auto simp: ra_inv_def push_ok_def pop_ok_def)
  note push = push_alone [OF assms(2) b(1,2) refl, where ord = ord and N = N]
  note pop = pop_alone [OF assms(3) b(3,4) refl, where ord = ord and N = N]
  show "\<exists>t. (ra_step ord N)\<^sup>*\<^sup>* s t \<and> ra_queue t = snd (try_push N (ra_queue s) x) \<and>
      ra_pushed t = ra_pushed s @ (if fst (try_push N (ra_queue s) x) then [x] else [])"
    using push [where call = "TryPush x", unfolded push_admits_functions] by (auto simp: try_push_def Let_def split: if_splits)
  show "\<exists>t. (ra_step ord N)\<^sup>*\<^sup>* s t \<and> ra_queue t = snd (try_push_batch N (ra_queue s) xs) \<and>
      ra_pushed t = ra_pushed s @ take (fst (try_push_batch N (ra_queue s) xs)) xs"
    using push [where call = "TryPushBatch xs", unfolded push_admits_functions] by (auto simp: try_push_batch_def Let_def)
  show "\<exists>t. (ra_step ord N)\<^sup>*\<^sup>* s t \<and> ra_queue t = snd (try_pop N (ra_queue s)) \<and>
      ra_popped t = ra_popped s @ (case fst (try_pop N (ra_queue s)) of None \<Rightarrow> [] | Some y \<Rightarrow> [y])"
    using pop [where call = TryPop, unfolded pop_admits_functions(1) [where N = N]] by (auto simp: try_pop_def ra_queue_def Let_def split: if_splits)
  show "\<exists>t. (ra_step ord N)\<^sup>*\<^sup>* s t \<and> ra_queue t = snd (try_pop_batch N (ra_queue s) n) \<and>
      ra_popped t = ra_popped s @ fst (try_pop_batch N (ra_queue s) n)"
    using pop [where call = "TryPopBatch n", unfolded pop_admits_functions(2) [where N = N]] by (auto simp: try_pop_batch_def ra_queue_def Let_def)
qed

section \<open>Properties of the queue in weak memory\<close>

text \<open>C11: The queue is free of data races. With the memory orders of the source, whatever sequences of
  single and batch calls the two threads make, however their accesses interleave and however old
  the indices they load: no access to a slot conflicts with one it does not happen after, what has been
  popped is a prefix of what has been pushed, at most the capacity is in flight, and each index holds
  its count modulo 2^64.\<close>

theorem spsc_race_free:
  assumes "ra_init N s0" and "(ra_step code_orders N)\<^sup>*\<^sup>* s0 s"
  shows "\<not> raced s \<and> (\<exists>rest. ra_pushed s = ra_popped s @ rest \<and> length rest \<le> unat N) \<and>
    m_val (last (w_stores s)) = of_nat (length (ra_pushed s)) \<and> m_val (last (r_stores s)) = of_nat (length (ra_popped s))"
proof -
  have I: "ra_inv N s"
    by (rule ram.reachable_inv [OF assms])
  note C = ra_counts [OF I]
  have "prefix (ra_taken s) (ra_pushed s)"
    using I by (simp add: ra_inv_def data_ok_def)
  then obtain rest where "ra_pushed s = ra_popped s @ rest"
    by (auto simp: ra_taken_def prefix_def)
  moreover from this have "length rest \<le> unat N"
    using C by (simp add: ra_written_def)
  ultimately show ?thesis
    using I log_okD(3) by (auto simp: ra_inv_def push_ok_def pop_ok_def)
qed

definition ra_start :: "nat ra_state" where
  "ra_start = \<lparr>w_stores = [first_store], r_stores = [first_store], slots = (\<lambda>_. 0), wrote_at = (\<lambda>_. 0), read_at = (\<lambda>_. 0),
     p_clock = 0, c_clock = 0, p_knows = 0, c_knows = 0, p_seen = 0, c_seen = 0, p_pc = PushIdle, c_pc = PopIdle,
     raced = False, ra_pushed = [], ra_popped = []\<rparr>"

lemma ra_start_init: "ra_init 1 ra_start"
  by (simp add: ra_init_def ra_start_def has_single_bit_def upt_rec)

text \<open>A push, a pop, and a push into the slot that has become free.\<close>

definition reuse :: "nat move list" where
  "reuse = [StartPush (TryPush 7) 0, Producer, Producer, StartPop (TryPopBatch 5) 1, Consumer, Consumer,
     StartPush (TryPushBatch [8, 9]) 1, Producer]"

lemma slot_one [simp]: "slot 1 i = 0"
  by (simp add: slot_def kMask_def)

lemma reuse_result:
  "\<exists>t. ra_moves ord 1 reuse ra_start = Some t \<and> ra_popped t = [7] \<and>
     raced t = (ord \<noteq> code_orders)"
proof -
  have "ord = code_orders \<longleftrightarrow> push_load ord = Acquire \<and> push_store ord = Release \<and> pop_load ord = Acquire \<and> pop_store ord = Release"
    by (cases ord) (simp add: code_orders_def)
  then show ?thesis
    by (simp add: reuse_def ra_start_def first_store_def learned_def carried_def Let_def)
qed

theorem spsc_race_free_witness:
  "case ra_moves code_orders 1 reuse ra_start of
     None \<Rightarrow> False
   | Some t \<Rightarrow> \<not> raced t \<and> (\<exists>rest. ra_pushed t = [7] @ rest)"
proof -
  obtain t where t: "ra_moves code_orders 1 reuse ra_start = Some t" "ra_popped t = [7]"
    using reuse_result by blast
  show ?thesis
    using spsc_race_free [OF ra_start_init ra_moves_steps [OF t(1)]] t by auto
qed

text \<open>C40: None of the four memory orders can be weakened. For the four orders of the loads and stores of the
  indices, a queue of one slot is free of data races in all its runs exactly when the loads are acquire and the
  stores are release.\<close>

theorem spsc_orders_needed:
  "(\<forall>s :: nat ra_state. (ra_step ord 1)\<^sup>*\<^sup>* ra_start s \<longrightarrow> \<not> raced s) \<longleftrightarrow> ord = code_orders"
proof
  assume "ord = code_orders"
  then show "\<forall>s :: nat ra_state. (ra_step ord 1)\<^sup>*\<^sup>* ra_start s \<longrightarrow> \<not> raced s"
    using ram.reachable_inv [OF ra_start_init] by (auto simp: ra_inv_def)
next
  assume all: "\<forall>s :: nat ra_state. (ra_step ord 1)\<^sup>*\<^sup>* ra_start s \<longrightarrow> \<not> raced s"
  obtain t where "ra_moves ord 1 reuse ra_start = Some t" "raced t = (ord \<noteq> code_orders)"
    using reuse_result by blast
  then show "ord = code_orders"
    using all ra_moves_steps by blast
qed

theorem spsc_orders_needed_witness:
  "{s. (ra_step code_orders 1)\<^sup>*\<^sup>* ra_start s} \<inter> {s. raced s} = {} \<and>
   {s. (ra_step (code_orders\<lparr>push_store := Relaxed\<rparr>) 1)\<^sup>*\<^sup>* ra_start s} \<inter> {s. raced s} \<noteq> {}"
proof -
  have "code_orders\<lparr>push_store := Relaxed\<rparr> \<noteq> code_orders"
    by (simp add: code_orders_def)
  then show ?thesis
    using spsc_orders_needed [of code_orders] spsc_orders_needed [of "code_orders\<lparr>push_store := Relaxed\<rparr>"] by auto
qed

end
