(* ===== verification/Book_Laws.thy ===== *)
theory Book_Laws
  imports Book_Spec
begin

section \<open>The contract of the order book\<close>

text \<open>
  What the operations of \<open>OrderBook\<close> promise, stated over what can be read off a
  well-formed book: its two priority lists (\<open>book_view\<close>), the slots resting in it
  (\<open>book_live\<close>) and the exactness of its level aggregates (\<open>book_exact\<close>). The locale
  \<open>priority_book\<close> is the interface of a book with insertion and deletion; it is
  interpreted on \<open>add_order\<close> and \<open>cancel_order(Order*)\<close>.
\<close>

definition book_view :: "heap \<Rightarrow> OrderBook \<Rightarrow> bool \<Rightarrow> Entry list" where
  "book_view h b s = side_view h b (book_queues h b) s"

definition book_live :: "heap \<Rightarrow> OrderBook \<Rightarrow> addr set" where
  "book_live h b = live b (book_queues h b)"

definition book_exact :: "heap \<Rightarrow> OrderBook \<Rightarrow> bool" where
  "book_exact h b \<longleftrightarrow> book_qty_ok h b (book_queues h b)"

text \<open>An order that can come to rest: it is not in the book, its price is a level, it has a
  quantity and is active, and the 32-bit order counter of its level cannot wrap.\<close>

definition can_rest :: "heap \<Rightarrow> OrderBook \<Rightarrow> addr \<Rightarrow> bool" where
  "can_rest h b a \<longleftrightarrow>
     a \<notin> book_live h b \<and> is_valid_price b (price (h a)) \<and> quantity (h a) \<noteq> 0 \<and> is_active (h a) \<and>
     card (book_live h b) < 2 ^ 32 - 1"

lemma book_ok_repr: "book_ok h b \<Longrightarrow> book_repr h b (book_queues h b)"
  by (simp add: book_ok_def)

lemma book_reads:
  assumes "book_repr h b q"
  shows "book_ok h b" "book_view h b s = side_view h b q s" "book_live h b = live b q"
    "book_exact h b = book_qty_ok h b q"
proof -
  note Q = same_queues [of b "book_queues h b" q, OF book_repr_queues [OF assms]]
  have "queues_ok h b (book_queues h b)" "best_of (num_levels b) (book_queues h b s) s (cursor b s)" for s
    using book_reprD(2,3) [OF assms] book_repr_queues [OF assms] by (auto simp: queues_ok_def best_of_def)
  then show "book_ok h b"
    using assms Q(2) by (simp add: book_ok_def book_repr_def index_ok_def)
  show "book_view h b s = side_view h b q s" "book_live h b = live b q" "book_exact h b = book_qty_ok h b q"
    using Q by (simp_all add: book_view_def side_view_def book_live_def book_exact_def)
qed

lemma book_viewE:
  assumes "e \<in> set (book_view h b s)"
  obtains a where "e = entry_of h a" "a \<in> book_live h b"
  using assms by (cases s) (auto simp: book_view_def book_live_def side_view_def live_prio)

lemma view_slot_live: "e \<in> set (book_view h b s) \<Longrightarrow> e_slot e \<in> book_live h b"
  by (elim book_viewE) simp

lemma book_room:
  assumes R: "book_repr h b q" and iN: "i < num_levels b" and c: "card (live b q) < 2 ^ 32 - 1"
  shows "Suc (length (q s i)) < 2 ^ 32"
proof -
  have "set (q s i) \<subseteq> live b q"
    using live_at [OF iN] by blast
  moreover have "finite (live b q)"
    by (simp add: live_def)
  ultimately have "card (set (q s i)) \<le> card (live b q)"
    by (intro card_mono)
  then show ?thesis
    using queues_okD(1) [OF book_reprD(2) [OF R] iN, of s] c by (simp add: level_repr_def distinct_card)
qed

lemma add_order_law:
  assumes ok: "book_ok h b" and rest: "can_rest h b a" and s: "s = is_buy (h a)"
    and out: "add_order h b (Some a) = (h', b')"
  shows "book_ok h' b'" "book_live h' b' = insert a (book_live h b)"
    "book_view h' b' s = insert_entry s (entry_of h a) (book_view h b s)"
    "book_view h' b' (\<not> s) = book_view h b (\<not> s)"
    "find_order b' k = (if k = order_id (h a) \<and> find_order b k = None then Some a else find_order b k)"
    "unlink (h' c) = unlink (h c)"
proof -
  let ?q = "book_queues h b" and ?i = "tick_to_index b (price (h a))"
  note R = book_ok_repr [OF ok]
  have can: "a \<notin> live b ?q" "is_valid_price b (price (h a))" "quantity (h a) \<noteq> 0" "is_active (h a)"
    "card (live b ?q) < 2 ^ 32 - 1"
    using rest by (simp_all add: can_rest_def book_live_def)
  note iN = valid_price_index(1) [OF book_reprD(1) [OF R] can(2)]
  note room = book_room [OF R iN can(5), of s]
  note A = add_order_repr [OF R can(1-4) s refl room out] and V = add_order_view [OF R can(1-4) s refl room out]
  note B = book_reads [OF A(1)]
  show "book_ok h' b'" "book_live h' b' = insert a (book_live h b)"
    using B(1,3) live_updq_insert [OF iN, of ?q s a] same_gridD(5) [OF A(3)] by (simp_all add: book_live_def)
  show "book_view h' b' s = insert_entry s (entry_of h a) (book_view h b s)"
    "book_view h' b' (\<not> s) = book_view h b (\<not> s)"
    using V B(2) by (simp_all add: book_view_def)
  show "find_order b' k = (if k = order_id (h a) \<and> find_order b k = None then Some a else find_order b k)"
    by (auto simp: find_order_def A(4) oi.look_ins split: option.splits)
  show "unlink (h' c) = unlink (h c)"
    using A(2) by (simp add: relinked_def)
qed

text \<open>The shape shared by every operation that takes one order out of the book.\<close>

lemma removes_law:
  assumes ok: "book_ok h b" and q: "book_queues h b s i = ys @ a # zs" "i < num_levels b"
    and rem: "removes h b (book_queues h b) a w h' b' (updq (book_queues h b) s i (ys @ zs))"
  shows "book_ok h' b'" "book_live h' b' = book_live h b - {a}"
    "book_view h' b' x = filter (\<lambda>e. e_slot e \<noteq> a) (book_view h b x)" "h' a = w"
    "find_order b' k = (if k = order_id (h a) then None else find_order b k)"
    "book_exact h b \<Longrightarrow> book_exact h' b'"
proof -
  note M = removesD [OF rem] and B = book_reads [OF removesD(1) [OF rem]]
  note V = removes_view [OF book_ok_repr [OF ok] q(2,1) rem]
  show "book_ok h' b'" "book_live h' b' = book_live h b - {a}" "h' a = w"
    "book_view h' b' x = filter (\<lambda>e. e_slot e \<noteq> a) (book_view h b x)"
    "book_exact h b \<Longrightarrow> book_exact h' b'"
    using B M(3,6,8) V by (simp_all add: book_live_def book_view_def book_exact_def)
  show "find_order b' k = (if k = order_id (h a) then None else find_order b k)"
    by (simp add: find_order_def M(7) oi.look_del)
qed

lemma cancel_ptr_law:
  assumes ok: "book_ok h b" and a: "a \<in> book_live h b" and out: "cancel_order_ptr h b (Some a) = (h', b')"
  shows "book_ok h' b'" "book_live h' b' = book_live h b - {a}"
    "book_view h' b' s = filter (\<lambda>e. e_slot e \<noteq> a) (book_view h b s)" "status (h' a) = Cancelled"
    "find_order b' k = (if k = order_id (h a) then None else find_order b k)"
    "book_exact h b \<Longrightarrow> book_exact h' b'"
proof -
  obtain x i ys zs where q: "book_queues h b x i = ys @ a # zs" "i < num_levels b"
    and rem: "removes h b (book_queues h b) a (unlink ((h a)\<lparr>status := Cancelled\<rparr>)) h' b'
      (updq (book_queues h b) x i (ys @ zs))"
    using cancel_order_ptr_removes [OF book_ok_repr [OF ok] a [unfolded book_live_def] out] by metis
  note L = removes_law [OF ok q rem]
  show "book_ok h' b'" "book_live h' b' = book_live h b - {a}"
    "book_view h' b' s = filter (\<lambda>e. e_slot e \<noteq> a) (book_view h b s)"
    "find_order b' k = (if k = order_id (h a) then None else find_order b k)"
    "book_exact h b \<Longrightarrow> book_exact h' b'"
    using L by simp_all
  show "status (h' a) = Cancelled"
    using L(4) by (simp add: unlink_def)
qed

subsection \<open>The interface\<close>

locale priority_book =
  fixes ok :: "'b \<Rightarrow> bool"
    and view :: "'b \<Rightarrow> bool \<Rightarrow> Entry list"
    and admissible :: "'b \<Rightarrow> addr \<Rightarrow> bool"
    and entry :: "'b \<Rightarrow> addr \<Rightarrow> Entry"
    and side_of :: "'b \<Rightarrow> addr \<Rightarrow> bool"
    and add :: "'b \<Rightarrow> addr \<Rightarrow> 'b"
    and remove :: "'b \<Rightarrow> addr \<Rightarrow> 'b"
  assumes sorted: "ok x \<Longrightarrow> price_sorted s (view x s)"
    and fresh: "ok x \<Longrightarrow> admissible x a \<Longrightarrow> e \<in> set (view x s) \<Longrightarrow> e_slot e \<noteq> a"
    and slot: "e_slot (entry x a) = a"
    and add_law: "ok x \<Longrightarrow> admissible x a \<Longrightarrow>
      ok (add x a) \<and> view (add x a) = (view x)(side_of x a := insert_entry (side_of x a) (entry x a) (view x (side_of x a)))"
    and remove_law: "ok x \<Longrightarrow> e \<in> set (view x s) \<Longrightarrow> e_slot e = a \<Longrightarrow>
      ok (remove x a) \<and> view (remove x a) = (\<lambda>s. filter (\<lambda>e. e_slot e \<noteq> a) (view x s))"
begin

lemma add_position:
  assumes "ok x" and "admissible x a" and "s = side_of x a"
  shows "\<exists>us vs. view x s = us @ vs \<and> view (add x a) s = us @ entry x a # vs \<and>
    (\<forall>u \<in> set us. \<not> better s (e_price (entry x a)) (e_price u)) \<and>
    (\<forall>v \<in> set vs. better s (e_price (entry x a)) (e_price v))"
proof -
  obtain us vs where "view x s = us @ vs" "insert_entry s (entry x a) (view x s) = us @ entry x a # vs"
    "\<forall>u \<in> set us. \<not> better s (e_price (entry x a)) (e_price u)"
    "\<forall>v \<in> set vs. better s (e_price (entry x a)) (e_price v)"
    by (rule insert_entry_split [OF sorted [OF assms(1)]])
  moreover have "view (add x a) s = insert_entry s (entry x a) (view x s)"
    using add_law [OF assms(1,2)] assms(3) by simp
  ultimately show ?thesis
    by (intro exI [of _ us] exI [of _ vs]) simp
qed

lemma add_then_remove:
  assumes "ok x" and "admissible x a"
  shows "ok (remove (add x a) a)" "view (remove (add x a) a) = view x"
proof -
  let ?s = "side_of x a" and ?e = "entry x a"
  note A = add_law [OF assms]
  have "?e \<in> set (view (add x a) ?s)"
    using A by (simp add: insert_entry_def)
  note R = remove_law [OF conjunct1 [OF A] this slot]
  show "ok (remove (add x a) a)"
    using R by blast
  have old: "filter (\<lambda>e. e_slot e \<noteq> a) (view x s) = view x s" for s
    using fresh [OF assms] by (auto simp: filter_id_conv)
  have "filter P (takeWhile Q es) @ filter P (dropWhile Q es) = filter P es" for P Q and es :: "Entry list"
    by (metis filter_append takeWhile_dropWhile_id)
  then have "filter (\<lambda>e. e_slot e \<noteq> a) (insert_entry ?s ?e (view x ?s)) = view x ?s"
    using old [of ?s] slot [of x a] by (simp add: insert_entry_def)
  then show "view (remove (add x a) a) = view x"
    using R A old by (auto simp: fun_eq_iff)
qed

end

text \<open>The model's book with the heap its orders live in.\<close>

interpretation ob: priority_book "\<lambda>(h, b). book_ok h b" "\<lambda>(h, b). book_view h b" "\<lambda>(h, b). can_rest h b"
  "\<lambda>(h, b). entry_of h" "\<lambda>(h, b) a. is_buy (h a)" "\<lambda>(h, b) a. add_order h b (Some a)"
  "\<lambda>(h, b) a. cancel_order_ptr h b (Some a)"
proof (unfold_locales, unfold split_paired_all prod.case)
  show "price_sorted s (book_view h b s)" if "book_ok h b" for h b s
    using side_view_sorted [OF book_ok_repr [OF that]] by (simp add: book_view_def)
  show "e_slot e \<noteq> a" if "can_rest h b a" "e \<in> set (book_view h b s)" for h b a e s
    using that view_slot_live by (auto simp: can_rest_def)
  show "e_slot (entry_of h a) = a" for h a
    by simp
next
  fix h b a
  assume ok: "book_ok h b" "can_rest h b a"
  obtain h' b' where out: "add_order h b (Some a) = (h', b')"
    by fastforce
  note L = add_order_law [OF ok refl out]
  have "book_view h' b' = (book_view h b)(is_buy (h a) := insert_entry (is_buy (h a)) (entry_of h a) (book_view h b (is_buy (h a))))"
    using L(3,4) by (auto simp: fun_eq_iff)
  then show "(case add_order h b (Some a) of (h, b) \<Rightarrow> book_ok h b) \<and>
      (case add_order h b (Some a) of (h, b) \<Rightarrow> book_view h b) =
      (book_view h b)(is_buy (h a) := insert_entry (is_buy (h a)) (entry_of h a) (book_view h b (is_buy (h a))))"
    using L(1) by (simp add: out)
next
  fix h b a e s
  assume ok: "book_ok h b" "e \<in> set (book_view h b s)" "e_slot e = a"
  obtain h' b' where out: "cancel_order_ptr h b (Some a) = (h', b')"
    by fastforce
  have "a \<in> book_live h b"
    using view_slot_live [OF ok(2)] ok(3) by simp
  note L = cancel_ptr_law [OF ok(1) this out]
  show "(case cancel_order_ptr h b (Some a) of (h, b) \<Rightarrow> book_ok h b) \<and>
      (case cancel_order_ptr h b (Some a) of (h, b) \<Rightarrow> book_view h b) =
      (\<lambda>s. filter (\<lambda>e. e_slot e \<noteq> a) (book_view h b s))"
    using L(1,3) by (simp add: out fun_eq_iff)
qed

subsection \<open>A small book\<close>

text \<open>
  An empty book with the prices 100 to 103, and a heap with a buy order of 5 at 101 in slot
  0 and a sell order of 5 at 100 in slot 1.
\<close>

definition demo_order :: Order where
  "demo_order = \<lparr>order_id = 9, price = 101, timestamp_ns = 0, quantity = 5, orig_quantity = 5,
     instrument_id = 1, side = Buy, otype = Limit, status = New, pad0 = 0, nxt = None, prv = None,
     client_id = 0, reserved = 0\<rparr>"

definition demo_heap :: heap where
  "demo_heap = (\<lambda>_. demo_order)(1 := demo_order\<lparr>order_id := 8, price := 100, side := Sell\<rparr>)"

definition demo_book :: OrderBook where
  "demo_book = OrderBook_new 1 100 103 1"

lemma demo_heap_simps:
  "order_id (demo_heap 0) = 9" "price (demo_heap 0) = 101" "quantity (demo_heap 0) = 5" "is_buy (demo_heap 0)"
  "order_id (demo_heap 1) = 8" "price (demo_heap 1) = 100" "quantity (demo_heap 1) = 5" "\<not> is_buy (demo_heap 1)"
  "is_active (demo_heap 0)" "is_active (demo_heap 1)"
  by (simp_all add: demo_heap_def demo_order_def is_buy_def is_active_def)

lemma demo_book_repr: "book_repr demo_heap demo_book (\<lambda>_ _. [])"
  unfolding demo_book_def by (rule OrderBook_new_repr) (simp add: valid_geometry_def)

lemma demo_book_facts:
  "book_ok demo_heap demo_book" "book_view demo_heap demo_book s = []" "book_live demo_heap demo_book = {}"
  "can_rest demo_heap demo_book 0" "can_rest demo_heap demo_book 1" "find_order demo_book k = None"
proof -
  note B = book_reads [OF demo_book_repr]
  show "book_ok demo_heap demo_book" and v: "book_view demo_heap demo_book s = []"
    and l: "book_live demo_heap demo_book = {}"
    using B by (simp_all add: side_view_def prio_def live_def)
  have "is_valid_price demo_book 101" "is_valid_price demo_book 100"
    by (simp_all add: is_valid_price_def demo_book_def OrderBook_new_fields smod_nonneg)
  then show "can_rest demo_heap demo_book 0" "can_rest demo_heap demo_book 1"
    by (simp_all add: can_rest_def l demo_heap_simps del: One_nat_def)
  show "find_order demo_book k = None"
    by (simp add: find_order_def demo_book_def OrderBook_new_fields index_find_def)
qed

text \<open>The book after one of the two orders has been added.\<close>

lemma demo_add:
  assumes can: "can_rest demo_heap demo_book a" and out: "add_order demo_heap demo_book (Some a) = (h, b)"
    and s: "s = is_buy (demo_heap a)"
  shows "book_ok h b" "book_live h b = {a}" "book_view h b s = [entry_of demo_heap a]" "book_view h b (\<not> s) = []"
    "find_order b (order_id (demo_heap a)) = Some a" "quantity (h a) = quantity (demo_heap a)"
    "book_exact h b" "same_grid demo_book b"
proof -
  note D = demo_book_facts and L = add_order_law [OF demo_book_facts(1) can s out]
  show "book_ok h b" "book_live h b = {a}" "book_view h b s = [entry_of demo_heap a]" "book_view h b (\<not> s) = []"
    using L(1-4) D(2,3) by (simp_all add: insert_entry_def)
  show "find_order b (order_id (demo_heap a)) = Some a"
    by (simp add: L(5) D(6))
  show "quantity (h a) = quantity (demo_heap a)"
    using unlink_eqD(4) [OF L(6)] .
  note R = demo_book_repr
  have c: "is_valid_price demo_book (price (demo_heap a))" "quantity (demo_heap a) \<noteq> 0" "is_active (demo_heap a)"
    using can by (simp_all add: can_rest_def)
  have lv: "a \<notin> live demo_book (\<lambda>_ _. [])"
    by (simp add: live_def)
  note A = add_order_repr [OF R lv c s refl _ out, simplified]
  show "same_grid demo_book b"
    by (rule A(3))
  have "unat (quantity (demo_heap a)) < 2 ^ 32"
    using unsigned_less [of "quantity (demo_heap a)"] by simp
  then show "book_exact h b"
    using add_order_qty [OF R lv c s refl _ out OrderBook_new_qty [of _ 1 100 103 1, folded demo_book_def]]
      book_reads(4) [OF A(1)] by simp
qed

definition demo_rest :: "heap \<times> OrderBook" where
  "demo_rest = add_order demo_heap demo_book (Some 0)"

lemma demo_rest_facts:
  assumes "demo_rest = (h, b)"
  shows "book_ok h b" "book_live h b = {0}" "book_view h b True = [entry_of demo_heap 0]" "book_view h b False = []"
    "find_order b 9 = Some 0" "quantity (h 0) = 5" "book_exact h b" "same_grid demo_book b"
  using demo_add [OF demo_book_facts(4) assms [unfolded demo_rest_def], of True]
  by (simp_all add: demo_heap_simps)

section \<open>Properties of the book\<close>

text \<open>C32: Price-time priority of insertion. An order that comes to rest is placed behind every
  order of the same or a better price of its side and in front of every worse one; the
  other side is unchanged, the book is well-formed again, and the order can be found by
  its id unless another live order already has that id.\<close>

theorem add_order_priority:
  assumes "book_ok h b" and "can_rest h b a" and "s = is_buy (h a)" and "add_order h b (Some a) = (h', b')"
  shows "book_ok h' b' \<and> book_view h' b' (\<not> s) = book_view h b (\<not> s) \<and>
    (\<exists>us vs. book_view h b s = us @ vs \<and> book_view h' b' s = us @ entry_of h a # vs \<and>
      (\<forall>u \<in> set us. \<not> better s (price (h a)) (e_price u)) \<and>
      (\<forall>v \<in> set vs. better s (price (h a)) (e_price v))) \<and>
    find_order b' (order_id (h a)) = (case find_order b (order_id (h a)) of None \<Rightarrow> Some a | Some c \<Rightarrow> Some c)"
  using ob.add_position [of "(h, b)" a s] add_order_law [OF assms] assms by (simp split: option.split)

theorem add_order_priority_witness:
  "case demo_rest of (h, b) \<Rightarrow> book_ok h b \<and> map e_slot (book_view h b True) = [0] \<and> find_order b 9 = Some 0"
proof -
  obtain h b where r: "demo_rest = (h, b)"
    by fastforce
  then have out: "add_order demo_heap demo_book (Some 0) = (h, b)" and s: "True = is_buy (demo_heap 0)"
    by (simp_all add: demo_rest_def demo_heap_simps)
  show ?thesis
    using add_order_priority [OF demo_book_facts(1,4) s out] r
    by (auto simp: r demo_book_facts(2,6) demo_heap_simps)
qed

text \<open>Cancelling an order right after it was added restores both priority lists.\<close>

theorem add_then_cancel:
  assumes "book_ok h b" and "can_rest h b a" and "add_order h b (Some a) = (h1, b1)"
    and "cancel_order_ptr h1 b1 (Some a) = (h2, b2)"
  shows "book_ok h2 b2 \<and> book_view h2 b2 = book_view h b"
  using ob.add_then_remove [of "(h, b)" a] assms by simp

theorem add_then_cancel_witness:
  "case demo_rest of (h, b) \<Rightarrow> case cancel_order_ptr h b (Some 0) of (h2, b2) \<Rightarrow> book_view h2 b2 True = []"
proof -
  obtain h b h2 b2 where r: "demo_rest = (h, b)" and c: "cancel_order_ptr h b (Some 0) = (h2, b2)"
    by fastforce
  have "book_ok h2 b2 \<and> book_view h2 b2 = book_view demo_heap demo_book"
    using add_then_cancel [OF demo_book_facts(1,4) r [unfolded demo_rest_def] c] .
  then show ?thesis
    by (simp add: r c demo_book_facts(2))
qed

text \<open>Cancelling by id. The result says whether the index knows the id. If not, nothing
  changes. If so, exactly the order found leaves its list, the others keep their places,
  the id is no longer known, the order is marked cancelled and exact aggregates stay exact.\<close>

theorem cancel_order_by_id:
  assumes "book_ok h b" and "cancel_order h b k = (r, h', b')"
  shows "(r \<longleftrightarrow> has_order b k) \<and>
    (case find_order b k of
       None \<Rightarrow> h' = h \<and> b' = b
     | Some a \<Rightarrow> book_ok h' b' \<and> \<not> has_order b' k \<and> status (h' a) = Cancelled \<and>
         (\<forall>s. book_view h' b' s = filter (\<lambda>e. e_slot e \<noteq> a) (book_view h b s)) \<and>
         (book_exact h b \<longrightarrow> book_exact h' b'))"
proof (cases "find_order b k")
  case None
  then show ?thesis
    using assms(2) by (simp add: cancel_order_def find_order_def has_order_def index_contains_def index_find_def)
next
  case (Some a)
  have al: "a \<in> book_live h b" "order_id (h a) = k"
    using book_reprD(4) [OF book_ok_repr [OF assms(1)]] Some
    by (auto simp: index_ok_def find_order_def book_live_def)
  have r: r and out: "cancel_order_ptr h b (Some a) = (h', b')"
    using assms(2) Some by (simp_all add: cancel_order_def find_order_def)
  note L = cancel_ptr_law [OF assms(1) al(1) out]
  have hk: "has_order c j \<longleftrightarrow> find_order c j \<noteq> None" for c j
    by (simp add: has_order_def index_contains_def find_order_def index_find_def)
  show ?thesis
    using L r Some al(2) by (simp add: hk)
qed

theorem cancel_order_by_id_witness:
  "case demo_rest of (h, b) \<Rightarrow> case cancel_order h b 9 of (r, h', b') \<Rightarrow> r \<and> \<not> has_order b' 9 \<and>
     book_view h' b' True = [] \<and> status (h' 0) = Cancelled"
proof -
  obtain h b r h' b' where d: "demo_rest = (h, b)" and c: "cancel_order h b 9 = (r, h', b')"
    by (metis prod.collapse)
  note F = demo_rest_facts [OF d]
  have "has_order b 9"
    using F(5) by (simp add: has_order_def index_contains_def find_order_def index_find_def)
  then have "r \<and> \<not> has_order b' 9 \<and> book_view h' b' True = [] \<and> status (h' 0) = Cancelled"
    using cancel_order_by_id [OF F(1) c] F(3,5) by simp
  then show ?thesis
    by (simp add: d c)
qed

text \<open>C33: Executing a trade against a resting order. The result says whether it was filled
  completely; then it leaves its list and is marked filled. Otherwise it keeps its place
  with the reduced quantity. All other orders keep place and quantity, and exact level
  aggregates stay exact.\<close>

theorem fill_resting_order_effect:
  assumes "book_ok h b" and "a \<in> book_live h b" and "f \<le> quantity (h a)"
    and "fill_resting_order h b (Some a) f = (r, h', b')"
  shows "(r \<longleftrightarrow> f = quantity (h a)) \<and> book_ok h' b' \<and> (book_exact h b \<longrightarrow> book_exact h' b') \<and>
    quantity (h' a) = quantity (h a) - f \<and> status (h' a) = (if r then Filled else Partial) \<and>
    (\<forall>s. book_view h' b' s =
      (if r then filter (\<lambda>e. e_slot e \<noteq> a) (book_view h b s)
       else map (\<lambda>e. if e_slot e = a then e\<lparr>e_qty := quantity (h a) - f\<rparr> else e) (book_view h b s)))"
proof (cases "f = quantity (h a)")
  case True
  note R = book_ok_repr [OF assms(1)]
  obtain x i ys zs where r and q: "book_queues h b x i = ys @ a # zs" "i < num_levels b"
    and rem: "removes h b (book_queues h b) a (unlink ((h a)\<lparr>quantity := 0, status := Filled\<rparr>)) h' b'
      (updq (book_queues h b) x i (ys @ zs))"
    using fill_resting_order_full [OF R assms(2) [unfolded book_live_def] assms(4) [unfolded True]] by metis
  then show ?thesis
    using removes_law [OF assms(1) q rem] True by (simp add: unlink_def)
next
  case False
  then have lt: "f < quantity (h a)"
    using assms(3) by simp
  note F = fill_resting_order_part [OF book_ok_repr [OF assms(1)] assms(2) [unfolded book_live_def] lt assms(4)]
  note B = book_reads [OF F(3)] and V = requantify_view [OF F(4,2)]
  have "book_view h' b' s = map (\<lambda>e. if e_slot e = a then e\<lparr>e_qty := quantity (h a) - f\<rparr> else e) (book_view h b s)" for s
    by (simp add: B(2) V) (simp add: book_view_def)
  then show ?thesis
    using False F(1,2,6) B(1,4) by (simp add: book_exact_def)
qed

theorem fill_resting_order_effect_witness:
  "case demo_rest of (h, b) \<Rightarrow> case fill_resting_order h b (Some 0) 2 of (r, h', b') \<Rightarrow> \<not> r \<and>
     map e_qty (book_view h' b' True) = [3] \<and> status (h' 0) = Partial \<and> book_exact h' b'"
proof -
  obtain h b r h' b' where d: "demo_rest = (h, b)" and c: "fill_resting_order h b (Some 0) 2 = (r, h', b')"
    by (metis prod.collapse)
  note F = demo_rest_facts [OF d]
  have "\<not> r \<and> map e_qty (book_view h' b' True) = [3] \<and> status (h' 0) = Partial \<and> book_exact h' b'"
    using fill_resting_order_effect [OF F(1) _ _ c] F by simp
  then show ?thesis
    by (simp add: d c)
qed

text \<open>Amending down. Reducing an order to a smaller non-zero quantity keeps its place in the
  list; reducing it to zero takes it out and marks it cancelled. Exact aggregates stay
  exact.\<close>

theorem reduce_order_qty_effect:
  assumes "book_ok h b" and "a \<in> book_live h b" and "n \<le> quantity (h a)"
    and "reduce_order_qty h b (Some a) n = (h', b')"
  shows "book_ok h' b' \<and> (book_exact h b \<longrightarrow> book_exact h' b') \<and> quantity (h' a) = n \<and>
    (n = 0 \<longrightarrow> status (h' a) = Cancelled) \<and>
    (\<forall>s. book_view h' b' s =
      (if n = 0 then filter (\<lambda>e. e_slot e \<noteq> a) (book_view h b s)
       else map (\<lambda>e. if e_slot e = a then e\<lparr>e_qty := n\<rparr> else e) (book_view h b s)))"
proof (cases "n = 0")
  case True
  obtain x i ys zs where q: "book_queues h b x i = ys @ a # zs" "i < num_levels b"
    and rem: "removes h b (book_queues h b) a (unlink ((h a)\<lparr>quantity := 0, status := Cancelled\<rparr>)) h' b'
      (updq (book_queues h b) x i (ys @ zs))"
    using reduce_order_qty_zero [OF book_ok_repr [OF assms(1)] assms(2) [unfolded book_live_def]
        assms(4) [unfolded True]] by metis
  show ?thesis
    using removes_law [OF assms(1) q rem] True by (simp add: unlink_def)
next
  case False
  note F = reduce_order_qty_part [OF book_ok_repr [OF assms(1)] assms(2) [unfolded book_live_def] assms(3) False assms(4)]
  have "(h a)\<lparr>quantity := n, status := status (h a)\<rparr> = (h a)\<lparr>quantity := n\<rparr>"
    by (cases "h a") simp
  then have h': "h' = h(a := (h a)\<lparr>quantity := n, status := status (h a)\<rparr>)"
    using F(1) by simp
  note B = book_reads [OF F(2)] and V = requantify_view [OF F(3) h']
  have "book_view h' b' s = map (\<lambda>e. if e_slot e = a then e\<lparr>e_qty := n\<rparr> else e) (book_view h b s)" for s
    by (simp add: B(2) V) (simp add: book_view_def)
  then show ?thesis
    using False F(1,5) B(1,4) by (simp add: book_exact_def)
qed

theorem reduce_order_qty_effect_witness:
  "case demo_rest of (h, b) \<Rightarrow> case reduce_order_qty h b (Some 0) 4 of (h', b') \<Rightarrow>
     map e_qty (book_view h' b' True) = [4] \<and> book_exact h' b'"
proof -
  obtain h b h' b' where d: "demo_rest = (h, b)" and c: "reduce_order_qty h b (Some 0) 4 = (h', b')"
    by (metis prod.collapse)
  note F = demo_rest_facts [OF d]
  have "map e_qty (book_view h' b' True) = [4] \<and> book_exact h' b'"
    using reduce_order_qty_effect [OF F(1) _ _ c] F by simp
  then show ?thesis
    by (simp add: d c)
qed

text \<open>Popping the best order of a side returns the head of its priority list (nothing for an
  empty side, which stays as it is) and removes exactly that order.\<close>

theorem pop_best_is_head:
  assumes "book_ok h b" and "(if s then pop_best_bid_head h b else pop_best_ask_head h b) = (r, h', b')"
  shows "book_ok h' b' \<and> book_view h' b' (\<not> s) = book_view h b (\<not> s) \<and>
    (case book_view h b s of
       [] \<Rightarrow> r = None \<and> h' = h \<and> b' = b
     | e # es \<Rightarrow> r = Some (e_slot e) \<and> book_view h' b' s = es)"
proof -
  note R = book_ok_repr [OF assms(1)]
  let ?q = "book_queues h b" and ?i = "cursor b s"
  show ?thesis
  proof (cases "?i = kNoBest")
    case True
    then have "book_view h b s = []"
      using prio_empty_iff [OF R, of s] by (simp add: book_view_def side_view_def)
    moreover have "r = None \<and> h' = h \<and> b' = b"
      using assms(2) True by (auto simp: pop_best_bid_head_def pop_best_ask_head_def cursor_def split: if_splits)
    ultimately show ?thesis
      using assms(1) by simp
  next
    case False
    obtain a as vs where q: "?q s ?i = a # as" and p: "prio b ?q s = a # as @ vs" and iN: "?i < num_levels b"
      using prio_best [OF R refl False] by metis
    note P = pop_best_removes [OF R refl False q assms(2)]
    have q': "?q s ?i = [] @ a # as"
      using q by simp
    note L = removes_law [OF assms(1) q' iN, of "unlink (h a)" h' b'] and D = distinct_prio [OF R, of s]
    have "filter (\<lambda>e. e_slot e \<noteq> a) (map (entry_of h) xs) = map (entry_of h) xs" if "a \<notin> set xs" for xs
      using that by (auto simp: filter_id_conv)
    moreover have "a \<notin> set (as @ vs)" "a \<notin> set (prio b ?q (\<not> s))"
      using D p side_of_prio [OF R, of a s] side_of_prio [OF R, of a "\<not> s"] by auto
    ultimately show ?thesis
      using P L(1,3) p by (simp add: book_view_def side_view_def)
  qed
qed

theorem pop_best_is_head_witness:
  "case demo_rest of (h, b) \<Rightarrow> case pop_best_bid_head h b of (r, h', b') \<Rightarrow> r = Some 0 \<and> book_view h' b' True = []"
proof -
  obtain h b r h' b' where d: "demo_rest = (h, b)" and c: "pop_best_bid_head h b = (r, h', b')"
    by (metis prod.collapse)
  note F = demo_rest_facts [OF d]
  show ?thesis
    using pop_best_is_head [of h b True r h' b'] F c by (simp add: d)
qed

text \<open>The top of the book. The best bid and ask prices are the prices of the first orders of
  the two priority lists, and the invalid price for an empty side; the cursors are the
  non-emptiness tests.\<close>

theorem best_prices:
  assumes "book_ok h b"
  shows "best_bid_price b = (case book_view h b True of [] \<Rightarrow> kInvalidPrice | e # _ \<Rightarrow> e_price e) \<and>
    best_ask_price b = (case book_view h b False of [] \<Rightarrow> kInvalidPrice | e # _ \<Rightarrow> e_price e) \<and>
    (has_bids b \<longleftrightarrow> book_view h b True \<noteq> []) \<and> (has_asks b \<longleftrightarrow> book_view h b False \<noteq> []) \<and>
    (book_is_empty b \<longleftrightarrow> book_live h b = {})"
proof -
  note R = book_ok_repr [OF assms]
  let ?p = "prio b (book_queues h b)"
  have B: "best_bid b = (if ?p True = [] then None else Some (levels_of b True ! cursor b True))"
    "best_ask b = (if ?p False = [] then None else Some (levels_of b False ! cursor b False))"
    using best_level(1) [OF R, of True] best_level(1) [OF R, of False] by simp_all
  have N: "has_bids b \<longleftrightarrow> ?p True \<noteq> []" "has_asks b \<longleftrightarrow> ?p False \<noteq> []"
    using prio_empty_iff [OF R, of True] prio_empty_iff [OF R, of False] by (auto simp: has_bids_def has_asks_def cursor_def)
  have "book_is_empty b \<longleftrightarrow> book_live h b = {}"
    by (simp add: book_is_empty_def N book_live_def live_prio)
  then show ?thesis
    using best_level(2) [OF R] N
    by (auto simp: best_bid_price_def best_ask_price_def B book_view_def side_view_def split: list.split)
qed

theorem best_prices_witness:
  "case demo_rest of (h, b) \<Rightarrow> best_bid_price b = 101 \<and> best_ask_price b = kInvalidPrice"
proof -
  obtain h b where d: "demo_rest = (h, b)"
    by fastforce
  show ?thesis
    using best_prices [OF demo_rest_facts(1) [OF d]] demo_rest_facts(3,4) [OF d] by (simp add: d demo_heap_simps)
qed

text \<open>C34: The feasibility sum. With exact aggregates, a volume that fits 32 bits and a limit the
  index arithmetic handles (a buy limit not below the lowest price, a sell limit outside
  the range or on a tick), \<open>available_quantity_at_or_better\<close> is exactly the volume of
  the opposite orders at the limit or better.\<close>

theorem available_quantity_exact:
  assumes "book_ok h b" and "book_exact h b" and "s = (sd = Buy)" and "limit_exact b s l"
    and "crossing_qty s l (book_view h b (\<not> s)) < 2 ^ 32"
  shows "unat (available_quantity_at_or_better b sd l) = crossing_qty s l (book_view h b (\<not> s))"
  using available_exact [OF book_ok_repr [OF assms(1)] _ assms(3,4)] assms(2,5)
  by (simp add: book_view_def book_exact_def)

theorem available_quantity_exact_witness:
  "case demo_rest of (h, b) \<Rightarrow> unat (available_quantity_at_or_better b Sell 101) = 5"
proof -
  obtain h b where d: "demo_rest = (h, b)"
    by fastforce
  note F = demo_rest_facts [OF d]
  have "limit_exact b False 101"
    using F(8) by (simp add: limit_exact_def same_grid_def demo_book_def OrderBook_new_fields)
  moreover have "crossing_qty False 101 (book_view h b True) = 5"
    by (simp add: F(3) crossing_qty_def crosses_def demo_heap_simps)
  ultimately show ?thesis
    using available_quantity_exact [OF F(1,7), of False Sell 101] by (simp add: d)
qed

text \<open>C35: A buy limit below the book's price range is treated as if it were the lowest price: the
  volume resting there is reported as reachable although no ask is at the limit or better.\<close>

theorem available_below_range:
  assumes "book_ok h b" and "book_exact h b" and "l < min_price b"
    and "book_view h b False = e # es" and "e_price e = min_price b" and "v < 2 ^ 32"
    and "v = crossing_qty True (min_price b) (book_view h b False)"
  shows "unat (available_quantity_at_or_better b Buy l) = v \<and> 0 < v \<and>
    crossing_qty True l (book_view h b False) = 0"
proof -
  note R = book_ok_repr [OF assms(1)] and geo = book_reprD(1) [OF book_ok_repr [OF assms(1)]]
  have t: "0 < tick_size b" "min_price b < max_price b"
    using geo by (auto simp: geometry_def valid_geometry_def)
  have "tick_to_index b (min_price b) = 0"
    using t by (simp add: tick_to_index_def sdiv_nonneg to_size_def)
  then have "available_quantity_at_or_better b Buy l = available_quantity_at_or_better b Buy (min_price b)"
    using assms(3) t by (simp add: available_quantity_at_or_better_def)
  then have av: "unat (available_quantity_at_or_better b Buy l) = v"
    using available_exact [OF R _ _ _, of True Buy "min_price b"] assms(2,6,7)
    by (simp add: limit_exact_def book_view_def book_exact_def)
  obtain c where c: "e = entry_of h c" "c \<in> live b (book_queues h b)"
    using book_viewE [of e h b False] assms(4) by (auto simp: book_live_def)
  have "quantity (h c) \<noteq> 0"
    using live_place(4) [OF R c(2) refl refl] by (simp add: order_at_def)
  then have pos: "0 < v"
    using assms(4,5,7) c(1) by (simp add: crossing_qty_def crosses_def unat_gt_0)
  have "\<not> e_price x \<le> l" if "x \<in> set (book_view h b False)" for x
  proof -
    obtain d where d: "x = entry_of h d" "d \<in> live b (book_queues h b)"
      using book_viewE [OF \<open>x \<in> set (book_view h b False)\<close>] by (auto simp: book_live_def)
    show ?thesis
      using live_place(3) [OF R d(2) refl refl] assms(3) d(1) by (simp add: is_valid_price_def)
  qed
  then have "crossing_qty True l (book_view h b False) = 0"
    by (simp add: crossing_qty_def crosses_def)
  then show ?thesis
    using av pos by simp
qed

theorem available_below_range_witness:
  "case add_order demo_heap demo_book (Some 1) of (h, b) \<Rightarrow>
     unat (available_quantity_at_or_better b Buy 99) = 5 \<and> crossing_qty True 99 (book_view h b False) = 0"
proof -
  obtain h b where d: "add_order demo_heap demo_book (Some 1) = (h, b)"
    by fastforce
  have s: "False = is_buy (demo_heap 1)"
    using demo_heap_simps(8) by simp
  note F = demo_add [OF demo_book_facts(5) d s]
  have m: "min_price b = 100"
    using F(8) by (simp add: same_grid_def demo_book_def OrderBook_new_fields)
  have p: "e_price (entry_of demo_heap 1) = min_price b"
    using demo_heap_simps(6) by (simp only: m entry_of_simps)
  have "unat (quantity (demo_heap 1)) = 5"
    by (simp only: demo_heap_simps) simp
  then have c: "5 = crossing_qty True (min_price b) (book_view h b False)"
    unfolding F(3) using p by (simp add: crossing_qty_def crosses_def)
  have "unat (available_quantity_at_or_better b Buy 99) = 5 \<and> crossing_qty True 99 (book_view h b False) = 0"
    using available_below_range [OF F(1,7) _ F(3) p _ c, of 99] by (simp add: m)
  then show ?thesis
    unfolding d prod.case .
qed

text \<open>The price grid. Valid prices and level indices correspond one to one: every valid price
  has an index within the level arrays that maps back to it, and every index is the index
  of its price.\<close>

theorem price_index_roundtrip:
  assumes "book_ok h b"
  shows "(is_valid_price b p \<longrightarrow> tick_to_index b p < num_levels b \<and> index_to_price b (tick_to_index b p) = p) \<and>
    (i < num_levels b \<longrightarrow> is_valid_price b (index_to_price b i) \<and> tick_to_index b (index_to_price b i) = i)"
proof -
  note geo = book_reprD(1) [OF book_ok_repr [OF assms]]
  show ?thesis
    using valid_price_index [OF geo] tick_to_index_price [OF geo] is_valid_price_iff [OF geo] by auto
qed

theorem price_index_roundtrip_witness:
  "tick_to_index demo_book 102 < num_levels demo_book \<and> index_to_price demo_book (tick_to_index demo_book 102) = 102"
proof -
  have "is_valid_price demo_book 102"
    by (simp add: is_valid_price_def demo_book_def OrderBook_new_fields smod_nonneg)
  then show ?thesis
    using price_index_roundtrip [OF demo_book_facts(1)] by blast
qed

end
