(* ===== verification/Wire_Protocol.thy ===== *)
theory Wire_Protocol
  imports Spsc_Queue
begin

section \<open>The wire protocol (\<open>src/src/io/wire_protocol.hpp\<close>)\<close>

text \<open>
  Messages are structs copied byte by byte (\<open>memcpy\<close>) to and from the stream, little
  endian. \<open>le_bytes n w\<close> are the \<open>n\<close> bytes of an integer field, \<open>le_word\<close> reads them back;
  each struct has a function that lays its fields out at the offsets the compiler gives
  them (all fields are naturally aligned, so there is no hidden padding) and one that reads
  them. Signed prices are kept as the 64-bit pattern that is on the wire. Explicit padding
  is written as zero and ignored when read.
\<close>

subsection \<open>Bytes of an integer\<close>

definition le_bytes :: "nat \<Rightarrow> 'a::len word \<Rightarrow> u8 list" where
  "le_bytes n w = map (\<lambda>i. ucast (drop_bit (8 * i) w)) [0..<n]"

fun le_word :: "u8 list \<Rightarrow> 'a::len word" where
  "le_word [] = 0"
| "le_word (x # xs) = ucast x + push_bit 8 (le_word xs)"

definition field :: "nat \<Rightarrow> nat \<Rightarrow> u8 list \<Rightarrow> u8 list" where
  "field off n bs = take n (drop off bs)"

subsection \<open>Message types and structs\<close>

datatype WireMsgType = WNewOrder | WCancelOrder | WModifyOrder | WExecReport | WireMsgType_raw u16

definition wire_msg_type :: "u16 \<Rightarrow> WireMsgType" where
  "wire_msg_type t =
     (if t = 0x0001 then WNewOrder else if t = 0x0002 then WCancelOrder
      else if t = 0x0003 then WModifyOrder else if t = 0x0010 then WExecReport else WireMsgType_raw t)"

fun wire_msg_code :: "WireMsgType \<Rightarrow> u16" where
  "wire_msg_code WNewOrder = 0x0001"
| "wire_msg_code WCancelOrder = 0x0002"
| "wire_msg_code WModifyOrder = 0x0003"
| "wire_msg_code WExecReport = 0x0010"
| "wire_msg_code (WireMsgType_raw t) = t"

record WireHeader =
  wh_msg_type :: u16
  wh_msg_len :: u16

record WireNewOrder =
  wn_msg_type :: u16
  wn_msg_len :: u16
  wn_instrument_id :: u32
  wn_order_id :: u64
  wn_client_id :: u64
  wn_price :: u64
  wn_quantity :: u32
  wn_side :: u8
  wn_order_type :: u8

record WireCancelOrder =
  wc_msg_type :: u16
  wc_msg_len :: u16
  wc_instrument_id :: u32
  wc_order_id :: u64

record WireExecReport =
  we_msg_type :: u16
  we_msg_len :: u16
  we_kind :: u8
  we_order_id :: u64
  we_counterpart_order_id :: u64
  we_exec_price :: u64
  we_exec_quantity :: u32
  we_leaves_quantity :: u32
  we_timestamp_ns :: u64

definition sizeof_WireHeader :: nat where
  "sizeof_WireHeader = 4"

definition sizeof_WireNewOrder :: nat where
  "sizeof_WireNewOrder = 40"

definition sizeof_WireCancelOrder :: nat where
  "sizeof_WireCancelOrder = 16"

definition sizeof_WireExecReport :: nat where
  "sizeof_WireExecReport = 48"

lemmas wire_sizes = sizeof_WireHeader_def sizeof_WireNewOrder_def sizeof_WireCancelOrder_def
  sizeof_WireExecReport_def

fun min_msg_len :: "WireMsgType \<Rightarrow> nat" where
  "min_msg_len WNewOrder = sizeof_WireNewOrder"
| "min_msg_len WCancelOrder = sizeof_WireCancelOrder"
| "min_msg_len WExecReport = sizeof_WireExecReport"
| "min_msg_len WModifyOrder = sizeof_WireHeader"
| "min_msg_len (WireMsgType_raw _) = sizeof_WireHeader"

subsection \<open>Layout\<close>

definition WireHeader_of_bytes :: "u8 list \<Rightarrow> WireHeader" where
  "WireHeader_of_bytes bs =
     \<lparr>wh_msg_type = le_word (field 0 2 bs), wh_msg_len = le_word (field 2 2 bs)\<rparr>"

definition bytes_of_WireHeader :: "WireHeader \<Rightarrow> u8 list" where
  "bytes_of_WireHeader w = le_bytes 2 (wh_msg_type w) @ le_bytes 2 (wh_msg_len w)"

definition bytes_of_WireNewOrder :: "WireNewOrder \<Rightarrow> u8 list" where
  "bytes_of_WireNewOrder w =
     le_bytes 2 (wn_msg_type w) @ le_bytes 2 (wn_msg_len w) @ le_bytes 4 (wn_instrument_id w) @
     le_bytes 8 (wn_order_id w) @ le_bytes 8 (wn_client_id w) @ le_bytes 8 (wn_price w) @
     le_bytes 4 (wn_quantity w) @ [wn_side w, wn_order_type w, 0, 0]"

definition WireNewOrder_of_bytes :: "u8 list \<Rightarrow> WireNewOrder" where
  "WireNewOrder_of_bytes bs =
     \<lparr>wn_msg_type = le_word (field 0 2 bs), wn_msg_len = le_word (field 2 2 bs),
      wn_instrument_id = le_word (field 4 4 bs), wn_order_id = le_word (field 8 8 bs),
      wn_client_id = le_word (field 16 8 bs), wn_price = le_word (field 24 8 bs),
      wn_quantity = le_word (field 32 4 bs), wn_side = le_word (field 36 1 bs),
      wn_order_type = le_word (field 37 1 bs)\<rparr>"

definition bytes_of_WireCancelOrder :: "WireCancelOrder \<Rightarrow> u8 list" where
  "bytes_of_WireCancelOrder w =
     le_bytes 2 (wc_msg_type w) @ le_bytes 2 (wc_msg_len w) @ le_bytes 4 (wc_instrument_id w) @
     le_bytes 8 (wc_order_id w)"

definition WireCancelOrder_of_bytes :: "u8 list \<Rightarrow> WireCancelOrder" where
  "WireCancelOrder_of_bytes bs =
     \<lparr>wc_msg_type = le_word (field 0 2 bs), wc_msg_len = le_word (field 2 2 bs),
      wc_instrument_id = le_word (field 4 4 bs), wc_order_id = le_word (field 8 8 bs)\<rparr>"

definition bytes_of_WireExecReport :: "WireExecReport \<Rightarrow> u8 list" where
  "bytes_of_WireExecReport w =
     le_bytes 2 (we_msg_type w) @ le_bytes 2 (we_msg_len w) @ [we_kind w, 0, 0, 0] @
     le_bytes 8 (we_order_id w) @ le_bytes 8 (we_counterpart_order_id w) @
     le_bytes 8 (we_exec_price w) @ le_bytes 4 (we_exec_quantity w) @
     le_bytes 4 (we_leaves_quantity w) @ le_bytes 8 (we_timestamp_ns w)"

definition WireExecReport_of_bytes :: "u8 list \<Rightarrow> WireExecReport" where
  "WireExecReport_of_bytes bs =
     \<lparr>we_msg_type = le_word (field 0 2 bs), we_msg_len = le_word (field 2 2 bs),
      we_kind = le_word (field 4 1 bs), we_order_id = le_word (field 8 8 bs),
      we_counterpart_order_id = le_word (field 16 8 bs), we_exec_price = le_word (field 24 8 bs),
      we_exec_quantity = le_word (field 32 4 bs), we_leaves_quantity = le_word (field 36 4 bs),
      we_timestamp_ns = le_word (field 40 8 bs)\<rparr>"

subsection \<open>Round trips\<close>

lemma length_le_bytes [simp]: "length (le_bytes n w) = n"
  by (simp add: le_bytes_def)

lemma le_bytes_Suc: "le_bytes (Suc n) w = ucast w # le_bytes n (drop_bit 8 w)"
proof -
  have "[0..<Suc n] = 0 # map Suc [0..<n]"
    by (simp add: map_Suc_upt upt_conv_Cons)
  then show ?thesis
    by (simp add: le_bytes_def comp_def add.commute)
qed

lemma ucast_byte_split:
  fixes w :: "'a::len word"
  assumes "8 \<le> LENGTH('a)"
  shows "ucast (ucast w :: u8) + push_bit 8 (drop_bit 8 w) = w"
proof -
  have low: "ucast (ucast w :: u8) = take_bit 8 w"
    using assms by (intro bit_word_eqI) (auto simp: bit_simps)
  have "push_bit 8 (drop_bit 8 w) + take_bit 8 w = w"
    by (rule bits_ident)
  then show ?thesis
    by (simp only: low add.commute)
qed

lemma le_bytes_take_bit:
  fixes w :: "'a::len word"
  assumes "8 \<le> LENGTH('a)"
  shows "le_word (le_bytes n w) = take_bit (8 * n) w"
proof (induction n arbitrary: w)
  case 0
  then show ?case by (simp add: le_bytes_def)
next
  case (Suc n)
  let ?v = "take_bit (8 * Suc n) w"
  have "le_word (le_bytes (Suc n) w) = ucast (ucast w :: u8) + push_bit 8 (take_bit (8 * n) (drop_bit 8 w))"
    by (simp add: le_bytes_Suc Suc.IH)
  also have "take_bit (8 * n) (drop_bit 8 w) = drop_bit 8 ?v"
    by (simp add: drop_bit_take_bit)
  also have "(ucast w :: u8) = ucast ?v"
    by (intro bit_word_eqI) (auto simp: bit_simps)
  finally show ?case
    using ucast_byte_split [OF assms, of ?v] by simp
qed

lemma le_word_le_bytes [simp]:
  fixes w :: "'a::len word"
  assumes "8 \<le> LENGTH('a)" and "LENGTH('a) \<le> 8 * n"
  shows "le_word (le_bytes n w) = w"
  using assms by (simp add: le_bytes_take_bit take_bit_word_eq_self)

lemma le_word_byte [simp]: "le_word [b] = b"
  by simp

lemma field_head: "length xs = n \<Longrightarrow> field 0 n (xs @ ys) = xs"
  by (simp add: field_def)

lemma field_skip: "length xs \<le> off \<Longrightarrow> field off n (xs @ ys) = field (off - length xs) n ys"
  by (simp add: field_def)

lemma field_Cons: "field 0 (Suc n) (x # xs) = x # field 0 n xs"
  "0 < off \<Longrightarrow> field off n (x # xs) = field (off - 1) n xs"
  "field 0 0 xs = []"
  by (simp_all add: field_def drop_Cons')

lemmas field_simps' = field_head field_skip field_Cons

lemma field_take: "off + n \<le> k \<Longrightarrow> field off n (take k bs) = field off n bs"
  by (simp add: field_def drop_take min_def)

text \<open>
  What the decoder and the encoder need of a fixed-size struct: it is written in as many
  bytes as \<open>sizeof\<close> says, read back unchanged whatever follows it, and read from those
  bytes only.
\<close>

locale wire_codec =
  fixes enc :: "'a \<Rightarrow> u8 list"
    and dec :: "u8 list \<Rightarrow> 'a"
    and size_of :: nat
  assumes enc_length: "length (enc x) = size_of"
    and dec_enc: "dec (enc x @ rest) = x"
    and dec_local: "dec (take size_of bs) = dec bs"
begin

lemma enc_inj: "enc x = enc y \<Longrightarrow> x = y"
  by (metis dec_enc)

lemma dec_prefix: "take size_of bs = enc x \<Longrightarrow> dec bs = x"
  by (metis dec_enc dec_local append_Nil2)

lemma enc_nonempty: "0 < size_of \<Longrightarrow> enc x \<noteq> []"
  using enc_length by force

end

interpretation header: wire_codec bytes_of_WireHeader WireHeader_of_bytes sizeof_WireHeader
  by unfold_locales
     (simp_all add: bytes_of_WireHeader_def WireHeader_of_bytes_def wire_sizes field_simps' field_take)

interpretation new_order: wire_codec bytes_of_WireNewOrder WireNewOrder_of_bytes sizeof_WireNewOrder
  by unfold_locales
     (simp_all add: bytes_of_WireNewOrder_def WireNewOrder_of_bytes_def wire_sizes field_simps' field_take)

interpretation cancel_order: wire_codec bytes_of_WireCancelOrder WireCancelOrder_of_bytes sizeof_WireCancelOrder
  by unfold_locales
     (simp_all add: bytes_of_WireCancelOrder_def WireCancelOrder_of_bytes_def wire_sizes field_simps' field_take)

interpretation exec_report: wire_codec bytes_of_WireExecReport WireExecReport_of_bytes sizeof_WireExecReport
  by unfold_locales
     (simp_all add: bytes_of_WireExecReport_def WireExecReport_of_bytes_def wire_sizes field_simps' field_take)

text \<open>Every message starts with the common header.\<close>

lemma header_of_new_order:
  "WireHeader_of_bytes (bytes_of_WireNewOrder w @ r) = \<lparr>wh_msg_type = wn_msg_type w, wh_msg_len = wn_msg_len w\<rparr>"
  by (simp add: bytes_of_WireNewOrder_def WireHeader_of_bytes_def field_simps')

lemma header_of_cancel_order:
  "WireHeader_of_bytes (bytes_of_WireCancelOrder w @ r) = \<lparr>wh_msg_type = wc_msg_type w, wh_msg_len = wc_msg_len w\<rparr>"
  by (simp add: bytes_of_WireCancelOrder_def WireHeader_of_bytes_def field_simps')

lemma header_of_exec_report:
  "WireHeader_of_bytes (bytes_of_WireExecReport w @ r) = \<lparr>wh_msg_type = we_msg_type w, wh_msg_len = we_msg_len w\<rparr>"
  by (simp add: bytes_of_WireExecReport_def WireHeader_of_bytes_def field_simps')

lemma wire_msg_type_code: "wire_msg_type (wire_msg_code t) = t \<longleftrightarrow>
    (\<forall>c. t = WireMsgType_raw c \<longrightarrow> c \<notin> {0x0001, 0x0002, 0x0003, 0x0010})"
  by (cases t) (auto simp: wire_msg_type_def)

end
