(* ===== verification/Decoder.thy ===== *)
theory Decoder
  imports Wire_Protocol
begin

section \<open>The decoder and the encoder (\<open>src/src/io/decoder.hpp\<close>)\<close>

text \<open>
  \<open>Decoder::decode_span\<close> walks the bytes of one received span and pushes a message for
  every well-formed order or cancel; \<open>Decoder::poll\<close> does so for a batch of spans and hands
  their buffers back. The bytes live in a memory \<open>nat \<Rightarrow> u8\<close>, which the receiver's buffers
  are part of. The matching engine, which consumes the inbound queue on another core, and
  the receiver, which consumes the return queue, are schedules, as for \<open>spin_push\<close>.

  \<open>parse_stream\<close> is the reference: the messages and the number of protocol errors of a
  byte string. \<open>decode_span\<close> refines it. Pointers are natural numbers, and the \<open>int\<close>
  counters need no wrap-around: a span has at most \<open>2 ^ 32\<close> bytes and a message that counts
  at least sixteen.
\<close>

subsection \<open>Memory\<close>

type_synonym memory = "nat \<Rightarrow> u8"

definition bytes_at :: "memory \<Rightarrow> nat \<Rightarrow> nat \<Rightarrow> u8 list" where
  "bytes_at mem p n = map mem [p..<p + n]"

definition memcpy_to :: "memory \<Rightarrow> nat \<Rightarrow> u8 list \<Rightarrow> memory" where
  "memcpy_to mem p bs = (\<lambda>a. if p \<le> a \<and> a < p + length bs then bs ! (a - p) else mem a)"

subsection \<open>Parsing one message\<close>

record Decoder =
  decoded_count :: u64
  error_count :: u64
  spans_seen :: u64

definition Decoder_new :: Decoder where
  "Decoder_new = \<lparr>decoded_count = 0, error_count = 0, spans_seen = 0\<rparr>"

definition kBufReturnCapacity :: u64 where
  "kBufReturnCapacity = 1024"

definition new_order_msg :: "WireNewOrder \<Rightarrow> InboundOrderMsg" where
  "new_order_msg wire =
     \<lparr>im_kind = NewOrder, im_order_id = wn_order_id wire, im_price = sint (wn_price wire),
      im_quantity = wn_quantity wire, im_instrument_id = wn_instrument_id wire,
      im_client_id = wn_client_id wire, im_side = wn_side wire, im_type = wn_order_type wire\<rparr>"

definition parse_new_order :: "memory \<Rightarrow> nat \<Rightarrow> u16 \<Rightarrow> InboundOrderMsg option" where
  "parse_new_order mem data len =
     (if unat len < sizeof_WireNewOrder then None
      else Some (new_order_msg (WireNewOrder_of_bytes (bytes_at mem data sizeof_WireNewOrder))))"

definition cancel_order_msg :: "WireCancelOrder \<Rightarrow> InboundOrderMsg" where
  "cancel_order_msg wire =
     \<lparr>im_kind = Cancel, im_order_id = wc_order_id wire, im_price = 0, im_quantity = 0,
      im_instrument_id = wc_instrument_id wire, im_client_id = 0, im_side = 0, im_type = 0\<rparr>"

definition parse_cancel_order :: "memory \<Rightarrow> nat \<Rightarrow> u16 \<Rightarrow> InboundOrderMsg option" where
  "parse_cancel_order mem data len =
     (if unat len < sizeof_WireCancelOrder then None
      else Some (cancel_order_msg (WireCancelOrder_of_bytes (bytes_at mem data sizeof_WireCancelOrder))))"

subsection \<open>Decoding a span\<close>

function decode_loop ::
  "memory \<Rightarrow> nat \<Rightarrow> nat \<Rightarrow> int \<Rightarrow> Decoder \<Rightarrow> InboundOrderMsg channel \<Rightarrow> nat list \<Rightarrow>
   fault + (int \<times> Decoder \<times> InboundOrderMsg channel \<times> nat list)" where
  "decode_loop mem end' ptr count d inb ps =
     (if ptr + sizeof_WireHeader \<le> end' then
        let hdr = WireHeader_of_bytes (bytes_at mem ptr sizeof_WireHeader);
            len = wh_msg_len hdr
        in if unat len < sizeof_WireHeader \<or> end' - ptr < unat len
           then Inr (count, d\<lparr>error_count := error_count d + 1\<rparr>, inb, ps)
           else
             let (ok, d') =
               (if wh_msg_type hdr = wire_msg_code WNewOrder then (parse_new_order mem ptr len, d)
                else if wh_msg_type hdr = wire_msg_code WCancelOrder then (parse_cancel_order mem ptr len, d)
                else (None, d\<lparr>error_count := error_count d + 1\<rparr>))
             in case ok of
                  Some msg \<Rightarrow>
                    ebind (spin_push kPipelineQueueCapacity msg inb ps) (\<lambda>(inb', ps').
                      decode_loop mem end' (ptr + unat len) (count + 1)
                        (d'\<lparr>decoded_count := decoded_count d' + 1\<rparr>) inb' ps')
                | None \<Rightarrow> decode_loop mem end' (ptr + unat len) count d' inb ps
      else Inr (count, d, inb, ps))"
  by pat_completeness auto
termination
  by (relation "measure (\<lambda>(mem, end', ptr, _). end' - ptr)") (auto simp: sizeof_WireHeader_def)

declare decode_loop.simps [simp del]

definition decode_span ::
  "memory \<Rightarrow> RawByteSpan \<Rightarrow> Decoder \<Rightarrow> InboundOrderMsg channel \<Rightarrow> nat list \<Rightarrow>
   fault + (int \<times> Decoder \<times> InboundOrderMsg channel \<times> nat list)" where
  "decode_span mem span d inb ps =
     (let d = d\<lparr>spans_seen := spans_seen d + 1\<rparr> in
      case rs_data span of
        None \<Rightarrow> Inr (0, d, inb, ps)
      | Some data \<Rightarrow>
          if rs_len span = 0 then Inr (0, d, inb, ps)
          else decode_loop mem (data + unat (rs_len span)) data 0 d inb ps)"

subsection \<open>Polling\<close>

text \<open>
  What \<open>poll\<close> works on besides the memory: the raw queue, the inbound and the return
  channel, and what is left of the two consumers' schedules. The \<open>n\<close> of the loop is the
  number of spans it may still take: \<open>static_cast<int>(max_batch)\<close> less \<open>spans_processed\<close>.
\<close>

record DecoderIO =
  raw_q :: "RawByteSpan SPSCQueue"
  inbound_ch :: "InboundOrderMsg channel"
  inbound_ps :: "nat list"
  returns_ch :: "u32 channel"
  returns_ps :: "nat list"

fun decoder_poll_loop ::
  "memory \<Rightarrow> nat \<Rightarrow> int \<Rightarrow> Decoder \<Rightarrow> DecoderIO \<Rightarrow> fault + (int \<times> Decoder \<times> DecoderIO)" where
  "decoder_poll_loop mem 0 spans_processed d io = Inr (spans_processed, d, io)"
| "decoder_poll_loop mem (Suc n) spans_processed d io =
     (case try_pop kPipelineQueueCapacity (raw_q io) of
        (None, q) \<Rightarrow> Inr (spans_processed, d, io\<lparr>raw_q := q\<rparr>)
      | (Some span, q) \<Rightarrow>
          ebind (decode_span mem span d (inbound_ch io) (inbound_ps io)) (\<lambda>(_, d', inb, ps).
          ebind (spin_push kBufReturnCapacity (rs_buf_id span) (returns_ch io) (returns_ps io)) (\<lambda>(ret, rs).
            decoder_poll_loop mem n (spans_processed + 1) d'
              \<lparr>raw_q = q, inbound_ch = inb, inbound_ps = ps, returns_ch = ret, returns_ps = rs\<rparr>)))"

definition decoder_poll ::
  "memory \<Rightarrow> u64 \<Rightarrow> Decoder \<Rightarrow> DecoderIO \<Rightarrow> fault + (int \<times> Decoder \<times> DecoderIO)" where
  "decoder_poll mem max_batch d io =
     decoder_poll_loop mem (nat (sint (ucast max_batch :: u32))) 0 d io"

subsection \<open>The encoder\<close>

fun exkind_code :: "ExKind \<Rightarrow> u8" where
  "exkind_code Fill = 0"
| "exkind_code PartialFill = 1"
| "exkind_code CancelAck = 2"
| "exkind_code Reject = 3"
| "exkind_code (ExKind_raw b) = b"

definition exkind_of_u8 :: "u8 \<Rightarrow> ExKind" where
  "exkind_of_u8 b =
     (if b = 0 then Fill else if b = 1 then PartialFill else if b = 2 then CancelAck
      else if b = 3 then Reject else ExKind_raw b)"

definition wire_of_report :: "ExecutionReport \<Rightarrow> WireExecReport" where
  "wire_of_report report =
     \<lparr>we_msg_type = wire_msg_code WExecReport, we_msg_len = of_nat sizeof_WireExecReport,
      we_kind = exkind_code (er_kind report), we_order_id = er_order_id report,
      we_counterpart_order_id = er_counterpart_order_id report,
      we_exec_price = word_of_int (er_exec_price report),
      we_exec_quantity = er_exec_quantity report, we_leaves_quantity = er_leaves_quantity report,
      we_timestamp_ns = er_timestamp_ns report\<rparr>"

definition encode_exec_report :: "ExecutionReport \<Rightarrow> nat \<Rightarrow> memory \<Rightarrow> nat \<times> memory" where
  "encode_exec_report report buf mem =
     (sizeof_WireExecReport, memcpy_to mem buf (bytes_of_WireExecReport (wire_of_report report)))"

definition decode_exec_report :: "memory \<Rightarrow> nat \<Rightarrow> nat \<Rightarrow> ExecutionReport option" where
  "decode_exec_report mem data len =
     (if len < sizeof_WireExecReport then None
      else let wire = WireExecReport_of_bytes (bytes_at mem data sizeof_WireExecReport) in
        if we_msg_type wire \<noteq> wire_msg_code WExecReport then None
        else Some \<lparr>er_kind = exkind_of_u8 (we_kind wire), er_order_id = we_order_id wire,
                   er_counterpart_order_id = we_counterpart_order_id wire,
                   er_exec_price = sint (we_exec_price wire),
                   er_exec_quantity = we_exec_quantity wire,
                   er_leaves_quantity = we_leaves_quantity wire,
                   er_timestamp_ns = we_timestamp_ns wire\<rparr>)"

subsection \<open>Reference: what a byte string says\<close>

datatype parsed = Parsed InboundOrderMsg | Short | Unknown

text \<open>One message, given exactly the bytes its header claims.\<close>

definition parse_message :: "u8 list \<Rightarrow> parsed" where
  "parse_message bs =
     (case wire_msg_type (wh_msg_type (WireHeader_of_bytes bs)) of
        WNewOrder \<Rightarrow>
          if length bs < sizeof_WireNewOrder then Short
          else Parsed (new_order_msg (WireNewOrder_of_bytes bs))
      | WCancelOrder \<Rightarrow>
          if length bs < sizeof_WireCancelOrder then Short
          else Parsed (cancel_order_msg (WireCancelOrder_of_bytes bs))
      | _ \<Rightarrow> Unknown)"

function parse_stream :: "u8 list \<Rightarrow> InboundOrderMsg list \<times> nat" where
  "parse_stream bs =
     (if length bs < sizeof_WireHeader then ([], 0)
      else let n = unat (wh_msg_len (WireHeader_of_bytes bs)) in
        if n < sizeof_WireHeader \<or> length bs < n then ([], 1)
        else let (ms, e) = parse_stream (drop n bs) in
          case parse_message (take n bs) of
            Parsed m \<Rightarrow> (m # ms, e)
          | Short \<Rightarrow> (ms, e)
          | Unknown \<Rightarrow> (ms, Suc e))"
  by pat_completeness auto
termination
  by (relation "measure length") (auto simp: sizeof_WireHeader_def)

declare parse_stream.simps [simp del]

lemma length_bytes_at [simp]: "length (bytes_at mem p n) = n"
  by (simp add: bytes_at_def)

lemma bytes_at_0 [simp]: "bytes_at mem p 0 = []"
  by (simp add: bytes_at_def)

lemma take_bytes_at: "n \<le> m \<Longrightarrow> take n (bytes_at mem p m) = bytes_at mem p n"
  by (simp add: bytes_at_def take_map)

lemma drop_bytes_at: "drop n (bytes_at mem p m) = bytes_at mem (p + n) (m - n)"
  by (simp add: bytes_at_def drop_map drop_upt)
    (cases "n \<le> m", simp_all)

lemma bytes_at_cong:
  "(\<And>a. p \<le> a \<Longrightarrow> a < p + n \<Longrightarrow> mem a = mem' a) \<Longrightarrow> bytes_at mem p n = bytes_at mem' p n"
  by (simp add: bytes_at_def)

lemma bytes_at_memcpy [simp]: "length bs = n \<Longrightarrow> bytes_at (memcpy_to mem p bs) p n = bs"
  by (rule nth_equalityI) (simp_all add: bytes_at_def memcpy_to_def)

lemma bytes_at_memcpy_other:
  "q + n \<le> p \<or> p + length bs \<le> q \<Longrightarrow> bytes_at (memcpy_to mem p bs) q n = bytes_at mem q n"
  by (rule bytes_at_cong) (auto simp: memcpy_to_def)

lemma header_at:
  "sizeof_WireHeader \<le> n \<Longrightarrow>
   WireHeader_of_bytes (bytes_at mem p sizeof_WireHeader) = WireHeader_of_bytes (bytes_at mem p n)"
  by (metis header.dec_local take_bytes_at)

lemma parse_new_order_at:
  "parse_new_order mem p len =
   (if unat len < sizeof_WireNewOrder then None
    else Some (new_order_msg (WireNewOrder_of_bytes (bytes_at mem p (unat len)))))"
  using new_order.dec_local [of "bytes_at mem p (unat len)"]
  by (cases "unat len < sizeof_WireNewOrder") (simp_all add: parse_new_order_def take_bytes_at not_less)

lemma parse_cancel_order_at:
  "parse_cancel_order mem p len =
   (if unat len < sizeof_WireCancelOrder then None
    else Some (cancel_order_msg (WireCancelOrder_of_bytes (bytes_at mem p (unat len)))))"
  using cancel_order.dec_local [of "bytes_at mem p (unat len)"]
  by (cases "unat len < sizeof_WireCancelOrder") (simp_all add: parse_cancel_order_def take_bytes_at not_less)

text \<open>The switch of \<open>decode_span\<close> on a message that fits is \<open>parse_message\<close> on its bytes.\<close>

lemma switch_parse_message:
  assumes "sizeof_WireHeader \<le> unat len"
  shows "(if wh_msg_type (WireHeader_of_bytes (bytes_at mem p sizeof_WireHeader)) = wire_msg_code WNewOrder
          then (parse_new_order mem p len, d)
          else if wh_msg_type (WireHeader_of_bytes (bytes_at mem p sizeof_WireHeader)) = wire_msg_code WCancelOrder
          then (parse_cancel_order mem p len, d)
          else (None, d\<lparr>error_count := error_count d + 1\<rparr>)) =
    (case parse_message (bytes_at mem p (unat len)) of
       Parsed m \<Rightarrow> (Some m, d) | Short \<Rightarrow> (None, d)
     | Unknown \<Rightarrow> (None, d\<lparr>error_count := error_count d + 1\<rparr>))"
  unfolding header_at [OF assms]
  by (auto simp: parse_message_def wire_msg_type_def parse_new_order_at parse_cancel_order_at)

subsection \<open>The loop refines the reference\<close>

text \<open>
  A run of the decoder that is to deliver \<open>ms\<close> and count \<open>e\<close> errors: it returns whenever
  the queue can take \<open>length ms\<close> messages, and if it returns, it has done just that.
\<close>

definition counted :: "InboundOrderMsg list \<Rightarrow> nat \<Rightarrow> Decoder \<Rightarrow> Decoder" where
  "counted ms e d = d\<lparr>decoded_count := decoded_count d + of_nat (length ms),
                      error_count := error_count d + of_nat e\<rparr>"

definition decode_meets ::
  "InboundOrderMsg list \<Rightarrow> nat \<Rightarrow> int \<Rightarrow> Decoder \<Rightarrow> InboundOrderMsg channel \<Rightarrow> nat list \<Rightarrow>
   fault + (int \<times> Decoder \<times> InboundOrderMsg channel \<times> nat list) \<Rightarrow> bool" where
  "decode_meets ms e count d inb ps r \<longleftrightarrow>
     (\<forall>k. can_post kPipelineQueueCapacity (length ms + k) inb ps \<longrightarrow>
        (\<exists>c d' inb' ps'. r = Inr (c, d', inb', ps') \<and> can_post kPipelineQueueCapacity k inb' ps')) \<and>
     (\<forall>f. r = Inl f \<longrightarrow> f = Blocked) \<and>
     (\<forall>c d' inb' ps'. r = Inr (c, d', inb', ps') \<longrightarrow>
        c = count + int (length ms) \<and> d' = counted ms e d \<and> spsc_ok kPipelineQueueCapacity (fst inb') \<and>
        stream kPipelineQueueCapacity inb' = stream kPipelineQueueCapacity inb @ ms)"

lemma decode_meets_return:
  "spsc_ok kPipelineQueueCapacity (fst inb) \<Longrightarrow> d' = counted [] e d \<Longrightarrow>
   decode_meets [] e count d inb ps (Inr (count, d', inb, ps))"
  by (auto simp: decode_meets_def)

lemma decode_meets_push:
  assumes ok: "spsc_ok kPipelineQueueCapacity (fst inb)"
    and rest: "\<And>inb' ps'. spsc_ok kPipelineQueueCapacity (fst inb') \<Longrightarrow>
      decode_meets ms e (count + 1) (d\<lparr>decoded_count := decoded_count d + 1\<rparr>) inb' ps' (f inb' ps')"
  shows "decode_meets (m # ms) e count d inb ps
    (ebind (spin_push kPipelineQueueCapacity m inb ps) (\<lambda>(inb', ps'). f inb' ps'))"
proof (cases "spin_push kPipelineQueueCapacity m inb ps")
  case (Inl x)
  then show ?thesis
    using spin_push_fault [OF Inl] spin_push_can_post [OF ok, of _ ps m]
    by (auto simp: decode_meets_def)
next
  case (Inr y)
  obtain inb1 ps1 where y: "spin_push kPipelineQueueCapacity m inb ps = Inr (inb1, ps1)"
    using Inr by (cases y) auto
  note P = spin_push_result [OF ok y]
  have room: "can_post kPipelineQueueCapacity n inb1 ps1"
    if "can_post kPipelineQueueCapacity (Suc n) inb ps" for n
    using spin_push_can_post [OF ok that, of m] y by auto
  have c: "counted ms e (d\<lparr>decoded_count := decoded_count d + 1\<rparr>) = counted (m # ms) e d"
    by (simp add: counted_def add.assoc)
  show ?thesis
    using rest [of inb1 ps1] P room y unfolding decode_meets_def c by auto
qed

lemma decode_loop_meets:
  assumes "ptr \<le> end'" and "spsc_ok kPipelineQueueCapacity (fst inb)"
  shows "decode_meets (fst (parse_stream (bytes_at mem ptr (end' - ptr))))
    (snd (parse_stream (bytes_at mem ptr (end' - ptr)))) count d inb ps
    (decode_loop mem end' ptr count d inb ps)"
  using assms
proof (induction "end' - ptr" arbitrary: ptr count d inb ps rule: less_induct)
  case less
  let ?bs = "bytes_at mem ptr (end' - ptr)"
  let ?hdr = "WireHeader_of_bytes (bytes_at mem ptr sizeof_WireHeader)"
  let ?n = "unat (wh_msg_len ?hdr)"
  show ?case
  proof (cases "ptr + sizeof_WireHeader \<le> end'")
    case False
    then have "length ?bs < sizeof_WireHeader"
      using less.prems(1) by simp
    then have "parse_stream ?bs = ([], 0)"
      by (subst parse_stream.simps) simp
    then show ?thesis
      using False less.prems by (subst decode_loop.simps) (simp add: decode_meets_return counted_def)
  next
    case True
    have h: "WireHeader_of_bytes ?bs = ?hdr"
      using True by (intro header_at [symmetric]) simp
    show ?thesis
    proof (cases "?n < sizeof_WireHeader \<or> end' - ptr < ?n")
      case bad: True
      have "parse_stream ?bs = ([], 1)"
        using True bad by (subst parse_stream.simps) (auto simp: h Let_def)
      then show ?thesis
        using True bad less.prems
        by (subst decode_loop.simps) (simp add: decode_meets_return counted_def Let_def)
    next
      case good: False
      let ?rest = "bytes_at mem (ptr + ?n) (end' - (ptr + ?n))"
      obtain ms e where r: "parse_stream ?rest = (ms, e)"
        by fastforce
      have IH: "decode_meets ms e c x i s (decode_loop mem end' (ptr + ?n) c x i s)"
        if "spsc_ok kPipelineQueueCapacity (fst i)" for c x i s
        using less.hyps [of "ptr + ?n" i c x s] good that r by (auto simp: sizeof_WireHeader_def)
      have body: "parse_stream ?bs = (case parse_message (bytes_at mem ptr ?n) of
          Parsed m \<Rightarrow> (m # ms, e) | Short \<Rightarrow> (ms, e) | Unknown \<Rightarrow> (ms, Suc e))"
        using True good r
        by (subst parse_stream.simps) (auto simp: h Let_def take_bytes_at drop_bytes_at)
      have sw: "sizeof_WireHeader \<le> ?n"
        using good by simp
      have step: "decode_loop mem end' ptr count d inb ps =
          (case (case parse_message (bytes_at mem ptr ?n) of
             Parsed m \<Rightarrow> (Some m, d) | Short \<Rightarrow> (None, d)
           | Unknown \<Rightarrow> (None, d\<lparr>error_count := error_count d + 1\<rparr>)) of
           (Some msg, d') \<Rightarrow>
              ebind (spin_push kPipelineQueueCapacity msg inb ps) (\<lambda>(inb', ps').
                decode_loop mem end' (ptr + ?n) (count + 1)
                  (d'\<lparr>decoded_count := decoded_count d' + 1\<rparr>) inb' ps')
         | (None, d') \<Rightarrow> decode_loop mem end' (ptr + ?n) count d' inb ps)"
        using True good unfolding switch_parse_message [OF sw, symmetric]
        by (subst decode_loop.simps) (simp add: Let_def split: prod.split)
      show ?thesis
      proof (cases "parse_message (bytes_at mem ptr ?n)")
        case (Parsed m)
        then show ?thesis
          unfolding step body using less.prems(2) IH by (simp add: decode_meets_push)
      next
        case Short
        then show ?thesis
          unfolding step body using less.prems(2) IH by simp
      next
        case Unknown
        have "counted ms e (d\<lparr>error_count := error_count d + 1\<rparr>) = counted ms (Suc e) d"
          by (simp add: counted_def add.assoc)
        then show ?thesis
          unfolding step body
          using Unknown IH [OF less.prems(2), of count "d\<lparr>error_count := error_count d + 1\<rparr>" ps]
          by (simp add: decode_meets_def)
      qed
    qed
  qed
qed

text \<open>The bytes a span stands for.\<close>

definition span_bytes :: "memory \<Rightarrow> RawByteSpan \<Rightarrow> u8 list" where
  "span_bytes mem span =
     (case rs_data span of None \<Rightarrow> [] | Some data \<Rightarrow> bytes_at mem data (unat (rs_len span)))"

lemma parse_stream_Nil [simp]: "parse_stream [] = ([], 0)"
  by (simp add: parse_stream.simps sizeof_WireHeader_def)

lemma decode_span_meets:
  assumes "spsc_ok kPipelineQueueCapacity (fst inb)" and "parse_stream (span_bytes mem span) = (ms, e)"
  shows "decode_meets ms e 0 (d\<lparr>spans_seen := spans_seen d + 1\<rparr>) inb ps (decode_span mem span d inb ps)"
proof (cases "rs_data span")
  case None
  then show ?thesis
    using assms by (simp add: decode_span_def span_bytes_def decode_meets_return counted_def)
next
  case (Some data)
  show ?thesis
  proof (cases "rs_len span = 0")
    case True
    then show ?thesis
      using assms Some by (simp add: decode_span_def span_bytes_def decode_meets_return counted_def Let_def)
  next
    case False
    then show ?thesis
      using assms Some decode_loop_meets [of data "data + unat (rs_len span)" inb mem 0
          "d\<lparr>spans_seen := spans_seen d + 1\<rparr>" ps]
      by (simp add: decode_span_def span_bytes_def Let_def)
  qed
qed

subsection \<open>Streams of messages\<close>

text \<open>
  The bytes a client sends for an order or a cancel, and the messages that can be sent that
  way: the price fits the 64-bit field, and a cancel carries the order's id and instrument
  only.
\<close>

definition wire_of_msg :: "InboundOrderMsg \<Rightarrow> u8 list" where
  "wire_of_msg m =
     (if im_kind m = Cancel then
        bytes_of_WireCancelOrder
          \<lparr>wc_msg_type = wire_msg_code WCancelOrder, wc_msg_len = of_nat sizeof_WireCancelOrder,
           wc_instrument_id = im_instrument_id m, wc_order_id = im_order_id m\<rparr>
      else
        bytes_of_WireNewOrder
          \<lparr>wn_msg_type = wire_msg_code WNewOrder, wn_msg_len = of_nat sizeof_WireNewOrder,
           wn_instrument_id = im_instrument_id m, wn_order_id = im_order_id m,
           wn_client_id = im_client_id m, wn_price = word_of_int (im_price m),
           wn_quantity = im_quantity m, wn_side = im_side m, wn_order_type = im_type m\<rparr>)"

definition int64 :: "int \<Rightarrow> bool" where
  "int64 p \<longleftrightarrow> - (2 ^ 63) \<le> p \<and> p < 2 ^ 63"

definition wire_encodable :: "InboundOrderMsg \<Rightarrow> bool" where
  "wire_encodable m \<longleftrightarrow>
     (if im_kind m = Cancel
      then im_price m = 0 \<and> im_quantity m = 0 \<and> im_client_id m = 0 \<and> im_side m = 0 \<and> im_type m = 0
      else im_kind m = NewOrder \<and> int64 (im_price m))"

lemma sint_int64: "int64 p \<Longrightarrow> sint (word_of_int p :: u64) = p"
  by (simp add: int64_def signed_of_int signed_take_bit_int_eq_self)

lemma wire_of_msg_length:
  "length (wire_of_msg m) = (if im_kind m = Cancel then sizeof_WireCancelOrder else sizeof_WireNewOrder)"
  by (simp add: wire_of_msg_def new_order.enc_length cancel_order.enc_length)

lemma wire_of_msg_header:
  "WireHeader_of_bytes (wire_of_msg m @ r) =
   \<lparr>wh_msg_type = wire_msg_code (if im_kind m = Cancel then WCancelOrder else WNewOrder),
    wh_msg_len = of_nat (length (wire_of_msg m))\<rparr>"
  by (simp add: wire_of_msg_def header_of_new_order header_of_cancel_order
      new_order.enc_length cancel_order.enc_length)

lemma wire_msg_type_codes [simp]:
  "wire_msg_type 1 = WNewOrder" "wire_msg_type 2 = WCancelOrder"
  by (simp_all add: wire_msg_type_def)

lemma wire_of_msg_parse:
  assumes "wire_encodable m"
  shows "parse_message (wire_of_msg m) = Parsed m"
proof -
  have h: "wh_msg_type (WireHeader_of_bytes (wire_of_msg m)) =
      wire_msg_code (if im_kind m = Cancel then WCancelOrder else WNewOrder)"
    using wire_of_msg_header [of m "[]"] by simp
  show ?thesis
  proof (cases "im_kind m = Cancel")
    case True
    then have "WireCancelOrder_of_bytes (wire_of_msg m) =
        \<lparr>wc_msg_type = 2, wc_msg_len = 16, wc_instrument_id = im_instrument_id m, wc_order_id = im_order_id m\<rparr>"
      using cancel_order.dec_enc [of _ "[]"] by (simp add: wire_of_msg_def wire_sizes)
    then show ?thesis
      using True assms
      by (simp add: parse_message_def h wire_of_msg_length cancel_order_msg_def wire_encodable_def)
  next
    case False
    then have "WireNewOrder_of_bytes (wire_of_msg m) =
        \<lparr>wn_msg_type = 1, wn_msg_len = 40, wn_instrument_id = im_instrument_id m,
         wn_order_id = im_order_id m, wn_client_id = im_client_id m, wn_price = word_of_int (im_price m),
         wn_quantity = im_quantity m, wn_side = im_side m, wn_order_type = im_type m\<rparr>"
      using new_order.dec_enc [of _ "[]"] by (simp add: wire_of_msg_def wire_sizes)
    then show ?thesis
      using False assms
      by (simp add: parse_message_def h wire_of_msg_length new_order_msg_def wire_encodable_def sint_int64)
  qed
qed

lemma parse_stream_message:
  assumes "wire_encodable m"
  shows "parse_stream (wire_of_msg m @ rest) = (m # fst (parse_stream rest), snd (parse_stream rest))"
proof -
  have n: "unat (of_nat (length (wire_of_msg m)) :: u16) = length (wire_of_msg m)"
    by (simp add: wire_of_msg_length wire_sizes)
  have l: "sizeof_WireHeader \<le> length (wire_of_msg m)"
    by (simp add: wire_of_msg_length wire_sizes)
  then show ?thesis
    by (subst parse_stream.simps)
       (simp add: wire_of_msg_header n wire_of_msg_parse [OF assms] Let_def split: prod.split)
qed

lemma parse_stream_messages:
  "list_all wire_encodable ms \<Longrightarrow>
   parse_stream (concat (map wire_of_msg ms) @ rest) = (ms @ fst (parse_stream rest), snd (parse_stream rest))"
  by (induction ms) (simp_all add: parse_stream_message)

text \<open>
  A message cut off by the end of the bytes: fewer than four are not noticed, more are one
  error. A message whose header claims an order's or a cancel's type and too few bytes for
  it is stepped over without an error.
\<close>

lemma parse_stream_cut:
  assumes "k < length (wire_of_msg m)"
  shows "parse_stream (take k (wire_of_msg m)) = ([], if k < sizeof_WireHeader then 0 else 1)"
proof (cases "k < sizeof_WireHeader")
  case True
  then have "length (take k (wire_of_msg m)) < sizeof_WireHeader"
    by simp
  then show ?thesis
    using True by (subst parse_stream.simps) simp
next
  case False
  have "WireHeader_of_bytes (take k (wire_of_msg m)) = WireHeader_of_bytes (wire_of_msg m)"
    using False header.dec_local [of "take k (wire_of_msg m)"] header.dec_local [of "wire_of_msg m"]
    by (simp add: min_def)
  then have "unat (wh_msg_len (WireHeader_of_bytes (take k (wire_of_msg m)))) = length (wire_of_msg m)"
    using wire_of_msg_header [of m "[]"] by (simp add: wire_of_msg_length wire_sizes)
  then show ?thesis
    using False assms by (subst parse_stream.simps) (simp add: Let_def)
qed

lemma parse_stream_short:
  assumes "wh_msg_type h = wire_msg_code WNewOrder \<and> length pay + sizeof_WireHeader < sizeof_WireNewOrder \<or>
      wh_msg_type h = wire_msg_code WCancelOrder \<and> length pay + sizeof_WireHeader < sizeof_WireCancelOrder"
    and "wh_msg_len h = of_nat (sizeof_WireHeader + length pay)"
  shows "parse_stream (bytes_of_WireHeader h @ pay @ rest) = parse_stream rest"
proof -
  have hd: "WireHeader_of_bytes (bytes_of_WireHeader h @ r) = h" for r
    by (rule header.dec_enc)
  have l: "length (bytes_of_WireHeader h) = sizeof_WireHeader"
    by (rule header.enc_length)
  have n: "unat (wh_msg_len h) = sizeof_WireHeader + length pay"
    using assms by (subst assms(2), intro unat_of_nat_small) (auto simp: wire_sizes)
  have "parse_message (bytes_of_WireHeader h @ pay) = Short"
    using assms(1) by (auto simp: parse_message_def hd l add.commute)
  then show ?thesis
    by (subst parse_stream.simps) (simp add: hd l n Let_def split: prod.split)
qed

subsection \<open>Only the bytes of the span matter\<close>

lemma decode_loop_local:
  assumes "\<And>a. ptr \<le> a \<Longrightarrow> a < end' \<Longrightarrow> mem a = mem' a"
  shows "decode_loop mem end' ptr count d inb ps = decode_loop mem' end' ptr count d inb ps"
  using assms
proof (induction "end' - ptr" arbitrary: ptr count d inb ps rule: less_induct)
  case less
  show ?case
  proof (cases "ptr + sizeof_WireHeader \<le> end'")
    case True
    let ?hdr = "WireHeader_of_bytes (bytes_at mem ptr sizeof_WireHeader)"
    let ?n = "unat (wh_msg_len ?hdr)"
    have eq: "bytes_at mem' ptr n = bytes_at mem ptr n" if "n \<le> end' - ptr" for n
      using less.prems that by (intro bytes_at_cong) (auto intro!: sym)
    then have h: "WireHeader_of_bytes (bytes_at mem' ptr sizeof_WireHeader) = ?hdr"
      using True by simp
    show ?thesis
    proof (cases "?n < sizeof_WireHeader \<or> end' - ptr < ?n")
      case bad: True
      then show ?thesis
        using True by (subst (1 2) decode_loop.simps) (simp add: h Let_def)
    next
      case good: False
      have p: "parse_new_order mem' ptr (wh_msg_len ?hdr) = parse_new_order mem ptr (wh_msg_len ?hdr)"
        "parse_cancel_order mem' ptr (wh_msg_len ?hdr) = parse_cancel_order mem ptr (wh_msg_len ?hdr)"
        using good eq by (simp_all add: parse_new_order_at parse_cancel_order_at)
      have IH: "decode_loop mem end' (ptr + ?n) c x i s = decode_loop mem' end' (ptr + ?n) c x i s"
        for c x i s
        using good True by (intro less.hyps less.prems) (auto simp: sizeof_WireHeader_def)
      have IH2: "(\<lambda>(i, s). decode_loop mem end' (ptr + ?n) c x i s) =
          (\<lambda>(i, s). decode_loop mem' end' (ptr + ?n) c x i s)" for c x
        by (simp only: IH)
      show ?thesis
        using True good by (subst (1 2) decode_loop.simps) (simp add: h p IH IH2 Let_def split: option.split)
    qed
  next
    case False
    then show ?thesis
      by (subst (1 2) decode_loop.simps) simp
  qed
qed

lemma decode_span_returns:
  assumes "spsc_ok kPipelineQueueCapacity (fst inb)" and "parse_stream (span_bytes mem span) = (ms, e)"
    and "can_post kPipelineQueueCapacity (length ms + k) inb ps"
  obtains inb' ps' where
    "decode_span mem span d inb ps =
       Inr (int (length ms), \<lparr>decoded_count = decoded_count d + of_nat (length ms),
         error_count = error_count d + of_nat e, spans_seen = spans_seen d + 1\<rparr>, inb', ps')"
    "spsc_ok kPipelineQueueCapacity (fst inb')" "can_post kPipelineQueueCapacity k inb' ps'"
    "stream kPipelineQueueCapacity inb' = stream kPipelineQueueCapacity inb @ ms"
proof -
  note M = decode_span_meets [OF assms(1,2), of d ps]
  obtain c d' inb' ps' where r: "decode_span mem span d inb ps = Inr (c, d', inb', ps')"
    "can_post kPipelineQueueCapacity k inb' ps'"
    using M assms(3) unfolding decode_meets_def by blast
  then have c: "c = 0 + int (length ms)" "d' = counted ms e (d\<lparr>spans_seen := spans_seen d + 1\<rparr>)"
    "spsc_ok kPipelineQueueCapacity (fst inb')"
    "stream kPipelineQueueCapacity inb' = stream kPipelineQueueCapacity inb @ ms"
    using M unfolding decode_meets_def by blast+
  have "d' = \<lparr>decoded_count = decoded_count d + of_nat (length ms),
      error_count = error_count d + of_nat e, spans_seen = spans_seen d + 1\<rparr>"
    by (simp add: c(2) counted_def)
  then show thesis
    using that [of inb' ps'] r c by simp
qed

subsection \<open>A batch of spans\<close>

definition batch_msgs :: "memory \<Rightarrow> RawByteSpan list \<Rightarrow> InboundOrderMsg list" where
  "batch_msgs mem spans = concat (map (\<lambda>s. fst (parse_stream (span_bytes mem s))) spans)"

definition batch_errors :: "memory \<Rightarrow> RawByteSpan list \<Rightarrow> nat" where
  "batch_errors mem spans = sum_list (map (\<lambda>s. snd (parse_stream (span_bytes mem s))) spans)"

lemma batch_simps [simp]:
  "batch_msgs mem [] = []" "batch_errors mem [] = 0"
  "batch_msgs mem (s # ss) = fst (parse_stream (span_bytes mem s)) @ batch_msgs mem ss"
  "batch_errors mem (s # ss) = snd (parse_stream (span_bytes mem s)) + batch_errors mem ss"
  by (simp_all add: batch_msgs_def batch_errors_def)

definition io_ok :: "DecoderIO \<Rightarrow> bool" where
  "io_ok io \<longleftrightarrow> spsc_ok kPipelineQueueCapacity (raw_q io) \<and>
     spsc_ok kPipelineQueueCapacity (fst (inbound_ch io)) \<and> spsc_ok kBufReturnCapacity (fst (returns_ch io))"

definition io_room :: "nat \<Rightarrow> nat \<Rightarrow> DecoderIO \<Rightarrow> bool" where
  "io_room k j io \<longleftrightarrow> can_post kPipelineQueueCapacity k (inbound_ch io) (inbound_ps io) \<and>
     can_post kBufReturnCapacity j (returns_ch io) (returns_ps io)"

definition batch_counted :: "memory \<Rightarrow> RawByteSpan list \<Rightarrow> Decoder \<Rightarrow> Decoder" where
  "batch_counted mem spans d =
     \<lparr>decoded_count = decoded_count d + of_nat (length (batch_msgs mem spans)),
      error_count = error_count d + of_nat (batch_errors mem spans),
      spans_seen = spans_seen d + of_nat (length spans)\<rparr>"

lemma batch_counted_Cons:
  "batch_counted mem ss (counted (fst (parse_stream (span_bytes mem s)))
     (snd (parse_stream (span_bytes mem s))) (d\<lparr>spans_seen := spans_seen d + 1\<rparr>)) = batch_counted mem (s # ss) d"
  by (simp add: batch_counted_def counted_def add.assoc)

lemma decoder_poll_loop_meets:
  assumes "io_ok io" and "io_room (length (batch_msgs mem (take n spans)) + k) (length (take n spans) + j) io"
    and "contents kPipelineQueueCapacity (raw_q io) = spans"
  shows "\<exists>io'. decoder_poll_loop mem n c d io =
      Inr (c + int (length (take n spans)), batch_counted mem (take n spans) d, io') \<and>
    io_ok io' \<and> io_room k j io' \<and> contents kPipelineQueueCapacity (raw_q io') = drop n spans \<and>
    stream kPipelineQueueCapacity (inbound_ch io') =
      stream kPipelineQueueCapacity (inbound_ch io) @ batch_msgs mem (take n spans) \<and>
    stream kBufReturnCapacity (returns_ch io') =
      stream kBufReturnCapacity (returns_ch io) @ map rs_buf_id (take n spans)"
  using assms
proof (induction n arbitrary: spans c d io)
  case 0
  then show ?case
    by (simp add: batch_counted_def)
next
  case (Suc n)
  note ok = Suc.prems(1) [unfolded io_ok_def]
  show ?case
  proof (cases spans)
    case Nil
    then have "try_pop kPipelineQueueCapacity (raw_q io) = (None, raw_q io)"
      using Suc.prems(3) by (intro try_pop_empty) simp
    then show ?thesis
      using Nil Suc.prems by (simp add: batch_counted_def)
  next
    case (Cons s ss)
    obtain q where q: "try_pop kPipelineQueueCapacity (raw_q io) = (Some s, q)"
      "spsc_ok kPipelineQueueCapacity q" "contents kPipelineQueueCapacity q = ss"
      using try_pop_cons [of kPipelineQueueCapacity "raw_q io" s ss] ok Suc.prems(3) Cons by blast
    obtain ms e where p: "parse_stream (span_bytes mem s) = (ms, e)"
      by fastforce
    have len: "length (batch_msgs mem (take (Suc n) spans)) + k =
        length ms + (length (batch_msgs mem (take n ss)) + k)"
      "length (take (Suc n) spans) + j = Suc (length (take n ss) + j)"
      by (simp_all add: Cons p)
    have roomI: "can_post kPipelineQueueCapacity (length ms + (length (batch_msgs mem (take n ss)) + k))
        (inbound_ch io) (inbound_ps io)"
      and roomR: "can_post kBufReturnCapacity (Suc (length (take n ss) + j)) (returns_ch io) (returns_ps io)"
      using Suc.prems(2) unfolding io_room_def len by auto
    note M = decode_span_meets [OF conjunct1 [OF conjunct2 [OF ok]] p, of d "inbound_ps io"]
    obtain cc dd inb ps where D: "decode_span mem s d (inbound_ch io) (inbound_ps io) = Inr (cc, dd, inb, ps)"
      "can_post kPipelineQueueCapacity (length (batch_msgs mem (take n ss)) + k) inb ps"
      using M roomI unfolding decode_meets_def by blast
    then have D': "dd = counted ms e (d\<lparr>spans_seen := spans_seen d + 1\<rparr>)"
      "spsc_ok kPipelineQueueCapacity (fst inb)"
      "stream kPipelineQueueCapacity inb = stream kPipelineQueueCapacity (inbound_ch io) @ ms"
      using M unfolding decode_meets_def by blast+
    have okR: "spsc_ok kBufReturnCapacity (fst (returns_ch io))"
      using ok by simp
    obtain ret rs where R: "spin_push kBufReturnCapacity (rs_buf_id s) (returns_ch io) (returns_ps io) = Inr (ret, rs)"
      "can_post kBufReturnCapacity (length (take n ss) + j) ret rs"
      using spin_push_can_post [OF okR roomR] by blast
    note R' = spin_push_result [OF okR R(1)]
    let ?io = "\<lparr>raw_q = q, inbound_ch = inb, inbound_ps = ps, returns_ch = ret, returns_ps = rs\<rparr>"
    have "io_ok ?io" "io_room (length (batch_msgs mem (take n ss)) + k) (length (take n ss) + j) ?io"
      using q D D' R R' by (simp_all add: io_ok_def io_room_def)
    note IH = Suc.IH [OF this, of "c + 1" dd]
    have "decoder_poll_loop mem (Suc n) c d io = decoder_poll_loop mem n (c + 1) dd ?io"
      by (simp add: q(1) D(1) R(1))
    then show ?thesis
      using IH q(3) D' R' batch_counted_Cons [of mem "take n ss" s d]
      by (auto simp: Cons p add.assoc)
  qed
qed

text \<open>Without an assumption on the room in the queues: a batch that returns has done the same.\<close>

lemma decoder_poll_loop_result:
  assumes "io_ok io" and "decoder_poll_loop mem n c d io = Inr (c', d', io')"
    and "contents kPipelineQueueCapacity (raw_q io) = spans"
  shows "io_ok io' \<and> contents kPipelineQueueCapacity (raw_q io') = drop n spans \<and>
    stream kPipelineQueueCapacity (inbound_ch io') =
      stream kPipelineQueueCapacity (inbound_ch io) @ batch_msgs mem (take n spans) \<and>
    stream kBufReturnCapacity (returns_ch io') =
      stream kBufReturnCapacity (returns_ch io) @ map rs_buf_id (take n spans) \<and>
    d' = batch_counted mem (take n spans) d"
  using assms
proof (induction n arbitrary: spans c d io)
  case 0
  then show ?case
    by (auto simp: batch_counted_def)
next
  case (Suc n)
  have ok: "spsc_ok kPipelineQueueCapacity (raw_q io)" "spsc_ok kPipelineQueueCapacity (fst (inbound_ch io))"
    "spsc_ok kBufReturnCapacity (fst (returns_ch io))"
    using Suc.prems(1) by (simp_all add: io_ok_def)
  show ?case
  proof (cases spans)
    case Nil
    then have "try_pop kPipelineQueueCapacity (raw_q io) = (None, raw_q io)"
      using Suc.prems(3) by (intro try_pop_empty) simp
    then show ?thesis
      using Nil Suc.prems by (auto simp: batch_counted_def)
  next
    case (Cons s ss)
    obtain q where q: "try_pop kPipelineQueueCapacity (raw_q io) = (Some s, q)"
      "spsc_ok kPipelineQueueCapacity q" "contents kPipelineQueueCapacity q = ss"
      using try_pop_cons [OF ok(1), of s ss] Suc.prems(3) Cons by blast
    obtain ms e where p: "parse_stream (span_bytes mem s) = (ms, e)"
      by fastforce
    obtain cc dd inb ps ret rs where D: "decode_span mem s d (inbound_ch io) (inbound_ps io) = Inr (cc, dd, inb, ps)"
      and R: "spin_push kBufReturnCapacity (rs_buf_id s) (returns_ch io) (returns_ps io) = Inr (ret, rs)"
      and L: "decoder_poll_loop mem n (c + 1) dd
        \<lparr>raw_q = q, inbound_ch = inb, inbound_ps = ps, returns_ch = ret, returns_ps = rs\<rparr> = Inr (c', d', io')"
      using Suc.prems(2) q(1) by (auto simp: ebind_Inr_iff)
    have D': "spsc_ok kPipelineQueueCapacity (fst inb)"
      "stream kPipelineQueueCapacity inb = stream kPipelineQueueCapacity (inbound_ch io) @ ms"
      "dd = counted ms e (d\<lparr>spans_seen := spans_seen d + 1\<rparr>)"
      using decode_span_meets [OF ok(2) p, of d "inbound_ps io"] D unfolding decode_meets_def by blast+
    note R' = spin_push_result [OF ok(3) R]
    have "io_ok \<lparr>raw_q = q, inbound_ch = inb, inbound_ps = ps, returns_ch = ret, returns_ps = rs\<rparr>"
      using q D' R' by (simp add: io_ok_def)
    from Suc.IH [OF this L, of ss] show ?thesis
      using q(3) D' R' batch_counted_Cons [of mem "take n ss" s d] by (simp add: Cons p)
  qed
qed

text \<open>With consumers that stay silent, nothing is taken from the two channels.\<close>

lemma decode_loop_silent:
  "decode_loop mem end' ptr count d inb [] = Inr (c', d', inb', ps') \<Longrightarrow> ps' = [] \<and> snd inb' = snd inb"
proof (induction "end' - ptr" arbitrary: ptr count d inb rule: less_induct)
  case less
  let ?hdr = "WireHeader_of_bytes (bytes_at mem ptr sizeof_WireHeader)"
  let ?n = "unat (wh_msg_len ?hdr)"
  let ?go = "decode_loop mem end' (ptr + ?n)"
  show ?case
  proof (cases "ptr + sizeof_WireHeader \<le> end' \<and> \<not> (?n < sizeof_WireHeader \<or> end' - ptr < ?n)")
    case False
    then show ?thesis
      using less.prems by (subst (asm) decode_loop.simps) (auto simp: Let_def split: if_splits)
  next
    case True
    have IH: "ps' = [] \<and> snd inb' = snd i" if "?go c x i [] = Inr (c', d', inb', ps')" for c x i
      using that True by (intro less.hyps [of "ptr + ?n" c x i]) (auto simp: sizeof_WireHeader_def)
    consider x where "?go count x inb [] = Inr (c', d', inb', ps')"
      | m x i s where "spin_push kPipelineQueueCapacity m inb [] = Inr (i, s)"
        "?go (count + 1) x i s = Inr (c', d', inb', ps')"
      using less.prems True
      by (subst (asm) decode_loop.simps)
         (auto simp: Let_def ebind_Inr_iff split: if_splits option.splits)
    then show ?thesis
    proof cases
      case 1
      then show ?thesis
        by (rule IH)
    next
      case 2
      then show ?thesis
        using spin_push_silent [OF 2(1)] IH by auto
    qed
  qed
qed

lemma decoder_poll_loop_silent:
  "decoder_poll_loop mem n c d io = Inr (c', d', io') \<Longrightarrow> inbound_ps io = [] \<Longrightarrow> returns_ps io = [] \<Longrightarrow>
   snd (inbound_ch io') = snd (inbound_ch io) \<and> snd (returns_ch io') = snd (returns_ch io)"
proof (induction n arbitrary: c d io)
  case 0
  then show ?case by auto
next
  case (Suc n)
  obtain x q where p: "try_pop kPipelineQueueCapacity (raw_q io) = (x, q)"
    by fastforce
  show ?case
  proof (cases x)
    case None
    then show ?thesis
      using Suc.prems p by auto
  next
    case (Some s)
    obtain cc dd inb ps ret rs where D: "decode_span mem s d (inbound_ch io) [] = Inr (cc, dd, inb, ps)"
      and R: "spin_push kBufReturnCapacity (rs_buf_id s) (returns_ch io) [] = Inr (ret, rs)"
      and L: "decoder_poll_loop mem n (c + 1) dd
        \<lparr>raw_q = q, inbound_ch = inb, inbound_ps = ps, returns_ch = ret, returns_ps = rs\<rparr> = Inr (c', d', io')"
      using Suc.prems p Some by (auto simp: ebind_Inr_iff)
    have "ps = [] \<and> snd inb = snd (inbound_ch io)"
      using D decode_loop_silent by (auto simp: decode_span_def Let_def split: option.splits if_splits)
    then show ?thesis
      using Suc.IH [OF L] spin_push_silent [OF R] by simp
  qed
qed

subsection \<open>A small client session\<close>

definition demo_order :: InboundOrderMsg where
  "demo_order = \<lparr>im_kind = NewOrder, im_order_id = 7, im_price = - 5, im_quantity = 300,
     im_instrument_id = 1, im_client_id = 9, im_side = 1, im_type = 2\<rparr>"

definition demo_cancel :: InboundOrderMsg where
  "demo_cancel = \<lparr>im_kind = Cancel, im_order_id = 7, im_price = 0, im_quantity = 0,
     im_instrument_id = 1, im_client_id = 0, im_side = 0, im_type = 0\<rparr>"

definition demo_memory :: memory where
  "demo_memory = memcpy_to (\<lambda>_. 0) 100 (concat (map wire_of_msg [demo_order, demo_cancel]))"

definition demo_span :: RawByteSpan where
  "demo_span = \<lparr>rs_data = Some 100, rs_len = 56, rs_buf_id = 3\<rparr>"

definition demo_inbound :: "InboundOrderMsg channel" where
  "demo_inbound = (SPSCQueue_new (\<lambda>_. demo_order), [])"

lemma demo_encodable: "list_all wire_encodable [demo_order, demo_cancel]"
  by (simp add: demo_order_def demo_cancel_def wire_encodable_def int64_def)

lemma demo_bytes: "span_bytes demo_memory demo_span = concat (map wire_of_msg [demo_order, demo_cancel])"
  by (simp add: span_bytes_def demo_span_def demo_memory_def wire_of_msg_length wire_sizes
      demo_order_def demo_cancel_def)

lemma demo_inbound_ok: "spsc_ok kPipelineQueueCapacity (fst demo_inbound)"
  "stream kPipelineQueueCapacity demo_inbound = []" "contents kPipelineQueueCapacity (fst demo_inbound) = []"
  "n \<le> 65536 \<Longrightarrow> can_post kPipelineQueueCapacity n demo_inbound []"
  using spsc_new_ok [of kPipelineQueueCapacity "\<lambda>_. demo_order"]
  by (simp_all add: demo_inbound_def stream_def can_post_def del: length_contents)
     (simp add: kPipelineQueueCapacity_def)

section \<open>Properties of the decoder and the encoder\<close>

text \<open>C17: Decoding a span implements the wire grammar. Whatever the bytes are, \<open>decode_span\<close> posts
  exactly the messages the reference parser reads from them, in order, behind everything sent
  before, returns their number, and adds the numbers of messages and protocol errors to the
  counters. It returns as soon as the inbound queue can take those messages.\<close>

theorem decode_span_refines:
  assumes "spsc_ok kPipelineQueueCapacity (fst inb)" and "parse_stream (span_bytes mem span) = (ms, e)"
    and "can_post kPipelineQueueCapacity (length ms + k) inb ps"
  shows "\<exists>inb' ps'. decode_span mem span d inb ps =
      Inr (int (length ms),
           \<lparr>decoded_count = decoded_count d + of_nat (length ms),
            error_count = error_count d + of_nat e, spans_seen = spans_seen d + 1\<rparr>, inb', ps') \<and>
    spsc_ok kPipelineQueueCapacity (fst inb') \<and> can_post kPipelineQueueCapacity k inb' ps' \<and>
    stream kPipelineQueueCapacity inb' = stream kPipelineQueueCapacity inb @ ms"
  by (rule decode_span_returns [OF assms, where d = d]) blast

theorem decode_span_refines_witness:
  "\<exists>inb' ps'. decode_span demo_memory demo_span Decoder_new demo_inbound [] =
      Inr (2, \<lparr>decoded_count = 2, error_count = 0, spans_seen = 1\<rparr>, inb', ps') \<and>
    stream kPipelineQueueCapacity inb' = [demo_order, demo_cancel]"
proof -
  have "parse_stream (span_bytes demo_memory demo_span) = ([demo_order, demo_cancel], 0)"
    using parse_stream_messages [OF demo_encodable, of "[]"] by (simp add: demo_bytes)
  from decode_span_refines [OF demo_inbound_ok(1) this, of 0 "[]" Decoder_new]
  show ?thesis
    by (auto simp: demo_inbound_ok Decoder_new_def)
qed

text \<open>C18: What a client encodes is what the engine receives. A buffer that holds the wire form of
  any sequence of orders and cancels whose prices fit the 64-bit field is decoded into exactly
  that sequence, and no error is counted.\<close>

theorem decode_inverts_encoding:
  assumes "spsc_ok kPipelineQueueCapacity (fst inb)" and "list_all wire_encodable ms"
    and "rs_data span = Some p" and "unat (rs_len span) = length (concat (map wire_of_msg ms))"
    and "can_post kPipelineQueueCapacity (length ms) inb ps"
  shows "\<exists>inb' ps'. decode_span (memcpy_to mem p (concat (map wire_of_msg ms))) span d inb ps =
      Inr (int (length ms), d\<lparr>decoded_count := decoded_count d + of_nat (length ms),
           spans_seen := spans_seen d + 1\<rparr>, inb', ps') \<and>
    stream kPipelineQueueCapacity inb' = stream kPipelineQueueCapacity inb @ ms"
proof -
  let ?mem = "memcpy_to mem p (concat (map wire_of_msg ms))"
  have "span_bytes ?mem span = concat (map wire_of_msg ms)"
    using assms(3,4) by (simp add: span_bytes_def)
  then have "parse_stream (span_bytes ?mem span) = (ms, 0)"
    using parse_stream_messages [OF assms(2), of "[]"] by simp
  then show ?thesis
    using assms(5) by (elim decode_span_returns [OF assms(1), where k = 0 and ps = ps and d = d]) auto
qed

theorem decode_inverts_encoding_witness:
  "\<exists>inb' ps'. decode_span demo_memory demo_span Decoder_new demo_inbound [] =
      Inr (2, Decoder_new\<lparr>decoded_count := 2, spans_seen := 1\<rparr>, inb', ps') \<and>
    stream kPipelineQueueCapacity inb' = [demo_order, demo_cancel]"
proof -
  have "unat (rs_len demo_span) = length (concat (map wire_of_msg [demo_order, demo_cancel]))"
    by (simp add: demo_span_def wire_of_msg_length wire_sizes demo_order_def demo_cancel_def)
  from decode_inverts_encoding [OF demo_inbound_ok(1) demo_encodable _ this, of 100 "[]" "\<lambda>_. 0" Decoder_new]
  show ?thesis
    by (auto simp: demo_inbound_ok demo_memory_def demo_span_def Decoder_new_def)
qed

text \<open>C30: The decoder never reads outside the span it was given. Two memories that agree on the
  bytes from \<open>data\<close> to \<open>data + len\<close> are decoded alike, whatever lengths the message headers
  claim.\<close>

theorem decode_reads_span_only:
  assumes "\<And>p a. rs_data span = Some p \<Longrightarrow> p \<le> a \<Longrightarrow> a < p + unat (rs_len span) \<Longrightarrow> mem a = mem' a"
  shows "decode_span mem span d inb ps = decode_span mem' span d inb ps"
proof (cases "rs_data span")
  case None
  then show ?thesis
    by (simp add: decode_span_def)
next
  case (Some p)
  have "decode_loop mem (p + unat (rs_len span)) p c d inb ps =
      decode_loop mem' (p + unat (rs_len span)) p c d inb ps" for c d
    using Some by (intro decode_loop_local assms)
  then show ?thesis
    by (simp add: decode_span_def Some Let_def)
qed

theorem decode_reads_span_only_witness:
  "decode_span demo_memory demo_span Decoder_new demo_inbound [] =
   decode_span (demo_memory(99 := 255, 156 := 255)) demo_span Decoder_new demo_inbound []"
  by (rule decode_reads_span_only) (simp add: demo_span_def)

text \<open>C31: A message that a span boundary cuts in two is lost. The complete messages before it are
  delivered; its first part is dropped, with one protocol error if at least the header was
  there and with none otherwise, and nothing is kept for the next span.\<close>

theorem decode_drops_cut_message:
  assumes "spsc_ok kPipelineQueueCapacity (fst inb)" and "list_all wire_encodable ms"
    and "span_bytes mem span = concat (map wire_of_msg ms) @ take k (wire_of_msg m)"
    and "k < length (wire_of_msg m)"
    and "can_post kPipelineQueueCapacity (length ms) inb ps"
  shows "\<exists>inb' ps'. decode_span mem span d inb ps =
      Inr (int (length ms),
           \<lparr>decoded_count = decoded_count d + of_nat (length ms),
            error_count = error_count d + (if k < sizeof_WireHeader then 0 else 1),
            spans_seen = spans_seen d + 1\<rparr>, inb', ps') \<and>
    stream kPipelineQueueCapacity inb' = stream kPipelineQueueCapacity inb @ ms"
proof -
  have p: "parse_stream (span_bytes mem span) = (ms, if k < sizeof_WireHeader then 0 else 1)"
    using assms(3) parse_stream_messages [OF assms(2)] parse_stream_cut [OF assms(4)] by simp
  have room: "can_post kPipelineQueueCapacity (length ms + 0) inb ps"
    using assms(5) by simp
  have e: "(of_nat (if k < sizeof_WireHeader then 0 else 1) :: u64) = (if k < sizeof_WireHeader then 0 else 1)"
    by simp
  show ?thesis
    by (rule decode_span_returns [OF assms(1) p room, where d = d]) (simp only: e, blast)
qed

theorem decode_drops_cut_message_witness:
  "\<exists>inb' ps'. decode_span demo_memory (demo_span\<lparr>rs_len := 50\<rparr>) Decoder_new demo_inbound [] =
      Inr (1, \<lparr>decoded_count = 1, error_count = 1, spans_seen = 1\<rparr>, inb', ps') \<and>
    stream kPipelineQueueCapacity inb' = [demo_order]"
proof -
  have l: "length (wire_of_msg demo_order) = 40" "length (wire_of_msg demo_cancel) = 16"
    by (simp_all add: wire_of_msg_length demo_order_def demo_cancel_def wire_sizes)
  have "span_bytes demo_memory (demo_span\<lparr>rs_len := 50\<rparr>) = take 50 (span_bytes demo_memory demo_span)"
    by (simp add: span_bytes_def demo_span_def take_bytes_at)
  then have "span_bytes demo_memory (demo_span\<lparr>rs_len := 50\<rparr>) =
      concat (map wire_of_msg [demo_order]) @ take 10 (wire_of_msg demo_cancel)"
    by (simp add: demo_bytes l)
  moreover have "list_all wire_encodable [demo_order]" "10 < length (wire_of_msg demo_cancel)"
    "can_post kPipelineQueueCapacity (length [demo_order]) demo_inbound []"
    using demo_encodable by (simp_all add: l demo_inbound_ok)
  ultimately have "\<exists>inb' ps'. decode_span demo_memory (demo_span\<lparr>rs_len := 50\<rparr>) Decoder_new demo_inbound [] =
      Inr (int (length [demo_order]),
           \<lparr>decoded_count = decoded_count Decoder_new + of_nat (length [demo_order]),
            error_count = error_count Decoder_new + (if 10 < sizeof_WireHeader then 0 else 1),
            spans_seen = spans_seen Decoder_new + 1\<rparr>, inb', ps') \<and>
    stream kPipelineQueueCapacity inb' = stream kPipelineQueueCapacity demo_inbound @ [demo_order]"
    by (intro decode_drops_cut_message [OF demo_inbound_ok(1)])
  then show ?thesis
    by (simp add: demo_inbound_ok(2) sizeof_WireHeader_def Decoder_new_def)
qed

text \<open>A batch of spans. \<open>poll\<close> takes at most \<open>max_batch\<close> spans, oldest first, posts the
  messages of each in order, and gives the buffer of each back exactly once, in order; it
  returns the number of spans and leaves the rest of the queue untouched. (\<open>max_batch\<close> is cast
  to \<open>int\<close>: values from \<open>2 ^ 31\<close> to \<open>2 ^ 32 - 1\<close> take nothing.)\<close>

theorem decoder_poll_batch:
  assumes "io_ok io" and "spans = take (nat (sint (ucast max_batch :: u32))) (contents kPipelineQueueCapacity (raw_q io))"
    and "io_room (length (batch_msgs mem spans)) (length spans) io"
  shows "\<exists>io'. decoder_poll mem max_batch d io = Inr (int (length spans), batch_counted mem spans d, io') \<and>
    io_ok io' \<and> contents kPipelineQueueCapacity (raw_q io) = spans @ contents kPipelineQueueCapacity (raw_q io') \<and>
    stream kPipelineQueueCapacity (inbound_ch io') = stream kPipelineQueueCapacity (inbound_ch io) @ batch_msgs mem spans \<and>
    stream kBufReturnCapacity (returns_ch io') = stream kBufReturnCapacity (returns_ch io) @ map rs_buf_id spans"
  using decoder_poll_loop_meets [OF assms(1), of mem "nat (sint (ucast max_batch :: u32))"
      "contents kPipelineQueueCapacity (raw_q io)" 0 0 0 d] assms(2,3)
  by (auto simp: decoder_poll_def)

theorem decoder_poll_batch_witness:
  "\<exists>q io'. try_push kPipelineQueueCapacity (SPSCQueue_new (\<lambda>_. demo_span)) demo_span = (True, q) \<and>
    decoder_poll demo_memory 64 Decoder_new
      \<lparr>raw_q = q, inbound_ch = demo_inbound, inbound_ps = [], returns_ch = (SPSCQueue_new (\<lambda>_. 0), []), returns_ps = []\<rparr> =
      Inr (1, \<lparr>decoded_count = 2, error_count = 0, spans_seen = 1\<rparr>, io') \<and>
    stream kPipelineQueueCapacity (inbound_ch io') = [demo_order, demo_cancel] \<and>
    stream kBufReturnCapacity (returns_ch io') = [3]"
proof -
  note N = spsc_new_ok [OF kPipelineQueueCapacity_single_bit, of "\<lambda>_. demo_span"]
  have room: "length [] < unat kPipelineQueueCapacity"
    by (simp add: kPipelineQueueCapacity_def)
  obtain q where q: "try_push kPipelineQueueCapacity (SPSCQueue_new (\<lambda>_. demo_span)) demo_span = (True, q)"
    "spsc_ok kPipelineQueueCapacity q" "contents kPipelineQueueCapacity q = [demo_span]"
    using sq.push_room [of kPipelineQueueCapacity "SPSCQueue_new (\<lambda>_. demo_span)" demo_span] N room
    by (metis append_Nil)
  have rb: "has_single_bit kBufReturnCapacity"
    by (simp add: has_single_bit_def kBufReturnCapacity_def upt_rec)
  note R = spsc_new_ok [OF rb, of "\<lambda>_. 0 :: u32"]
  let ?io = "\<lparr>raw_q = q, inbound_ch = demo_inbound, inbound_ps = [],
    returns_ch = (SPSCQueue_new (\<lambda>_. 0), []), returns_ps = []\<rparr>"
  have p: "parse_stream (span_bytes demo_memory demo_span) = ([demo_order, demo_cancel], 0)"
    using parse_stream_messages [OF demo_encodable, of "[]"] by (simp add: demo_bytes)
  have b: "rs_buf_id demo_span = 3" and sr: "stream kBufReturnCapacity (SPSCQueue_new (\<lambda>_. 0 :: u32), []) = []"
    using R by (simp_all add: demo_span_def stream_def)
  have s: "[demo_span] = take (nat (sint (ucast (64 :: u64) :: u32))) (contents kPipelineQueueCapacity (raw_q ?io))"
    by (simp add: q(3))
  have "io_ok ?io" "io_room (length (batch_msgs demo_memory [demo_span])) (length [demo_span]) ?io"
    using q R by (simp_all add: io_ok_def io_room_def demo_inbound_ok p can_post_def del: length_contents)
      (simp add: kBufReturnCapacity_def kPipelineQueueCapacity_def)
  from decoder_poll_batch [OF this(1) s this(2), of Decoder_new]
  show ?thesis
    using q(1) by (auto simp: p b sr demo_inbound_ok(2) batch_counted_def Decoder_new_def)
qed

text \<open>C29: Execution reports survive the wire. \<open>encode_exec_report\<close> writes 48 bytes and nothing
  else; reading them back gives the report, for every report whose kind is one of the four and
  whose price fits 64 bits. Whatever the memory holds, reading a report is refused exactly when fewer
  than 48 bytes are given or the first two of them are not the type of a report.\<close>

theorem exec_report_roundtrip:
  assumes "\<And>b. er_kind r \<noteq> ExKind_raw b" and "int64 (er_exec_price r)"
    and "encode_exec_report r buf mem = (n, mem')"
  shows "n = 48 \<and> (\<forall>a. a < buf \<or> buf + 48 \<le> a \<longrightarrow> mem' a = mem a) \<and>
    (\<forall>len. decode_exec_report mem' buf len = (if len < 48 then None else Some r)) \<and>
    (\<forall>m a len. decode_exec_report m a len = None \<longleftrightarrow>
       len < 48 \<or> le_word (bytes_at m a 2) \<noteq> wire_msg_code WExecReport)"
proof -
  have n: "n = 48" and m: "mem' = memcpy_to mem buf (bytes_of_WireExecReport (wire_of_report r))"
    using assms(3) by (auto simp: encode_exec_report_def sizeof_WireExecReport_def)
  have l: "length (bytes_of_WireExecReport (wire_of_report r)) = 48"
    by (simp add: exec_report.enc_length sizeof_WireExecReport_def)
  have w: "WireExecReport_of_bytes (bytes_at mem' buf sizeof_WireExecReport) = wire_of_report r"
    using exec_report.dec_enc [of "wire_of_report r" "[]"] by (simp add: m l sizeof_WireExecReport_def)
  have k: "exkind_of_u8 (exkind_code (er_kind r)) = er_kind r"
    using assms(1) by (cases "er_kind r") (auto simp: exkind_of_u8_def)
  have "decode_exec_report mem' buf len = (if len < 48 then None else Some r)" for len
    using w by (simp add: decode_exec_report_def sizeof_WireExecReport_def)
      (simp add: wire_of_report_def k sint_int64 assms(2))
  moreover have "we_msg_type (WireExecReport_of_bytes (bytes_at m a 48)) = le_word (bytes_at m a 2)" for m a
    by (simp add: WireExecReport_of_bytes_def field_def take_bytes_at)
  then have "decode_exec_report m a len = None \<longleftrightarrow> len < 48 \<or> le_word (bytes_at m a 2) \<noteq> wire_msg_code WExecReport" for m a len
    by (simp add: decode_exec_report_def sizeof_WireExecReport_def Let_def)
  ultimately show ?thesis
    using n l by (auto simp: m memcpy_to_def)
qed

theorem exec_report_roundtrip_witness:
  "let r = \<lparr>er_kind = PartialFill, er_order_id = 5, er_counterpart_order_id = 6, er_exec_price = - 3,
        er_exec_quantity = 10, er_leaves_quantity = 90, er_timestamp_ns = 12345\<rparr>;
      (n, mem) = encode_exec_report r 200 (\<lambda>_. 0)
   in n = 48 \<and> mem 248 = 0 \<and> decode_exec_report mem 200 48 = Some r \<and> decode_exec_report mem 200 47 = None \<and>
     decode_exec_report (\<lambda>_. 0) 8 48 = None"
proof -
  let ?r = "\<lparr>er_kind = PartialFill, er_order_id = 5, er_counterpart_order_id = 6, er_exec_price = - 3,
        er_exec_quantity = 10, er_leaves_quantity = 90, er_timestamp_ns = 12345\<rparr>"
  obtain n mem where e: "encode_exec_report ?r 200 (\<lambda>_. 0) = (n, mem)"
    by fastforce
  have "le_word (bytes_at (\<lambda>_. 0) 8 2) \<noteq> wire_msg_code WExecReport"
    by (simp add: bytes_at_def upt_rec)
  with exec_report_roundtrip [OF _ _ e] show ?thesis
    by (simp add: e int64_def)
qed

text \<open>
  A message with a known type and too few bytes is stepped over and not counted as an error.
\<close>

lemma short_message_not_counted:
  assumes "spsc_ok kPipelineQueueCapacity (fst inb)"
    and "wh_msg_type h = wire_msg_code WNewOrder" and "length pay + sizeof_WireHeader < sizeof_WireNewOrder"
    and "wh_msg_len h = of_nat (sizeof_WireHeader + length pay)"
    and "span_bytes mem span = bytes_of_WireHeader h @ pay"
  shows "\<exists>inb' ps'. decode_span mem span d inb ps = Inr (0, d\<lparr>spans_seen := spans_seen d + 1\<rparr>, inb', ps') \<and>
    stream kPipelineQueueCapacity inb' = stream kPipelineQueueCapacity inb"
proof -
  have "parse_stream (span_bytes mem span) = ([], 0)"
    using assms parse_stream_short [of h pay "[]"] by simp
  then show ?thesis
    by (elim decode_span_returns [OF assms(1), where k = 0 and ps = ps and d = d]) (auto simp: can_post_def)
qed

end
