(* ===== verification/Uring.thy ===== *)
theory Uring
  imports Decoder "HOL-Library.Multiset"
begin

section \<open>The io_uring library as a parameter\<close>

text \<open>
  liburing and the kernel are not part of the repository. The receiver and the sender take
  the calls they make as an argument, a record over a type \<open>'r\<close> of rings; whatever the
  kernel does on its own, and when, is part of \<open>'r\<close>. \<open>uring_contract\<close> states what the two
  classes rely on, in terms of a view of the ring: the requests that are prepared but not
  yet submitted, in ring order; those submitted and not yet reported complete, whose
  buffers the kernel may access; and the completion that was peeked and not yet marked as
  seen. It is what the manual pages of the calls say, for a submission queue of \<open>depth\<close>
  entries:
  \<^item> \<open>io_uring_get_sqe\<close> fails only when the submission queue is full, which needs \<open>depth\<close>
    requests that are prepared or in flight;
  \<^item> \<open>io_uring_submit\<close> hands over prepared requests, oldest first, possibly not all;
  \<^item> \<open>io_uring_peek_cqe\<close> reports at most one request that is in flight, with the user data
    the request carries and a result of at most its length.
\<close>

record cqe =
  user_data :: u64
  res :: int

record request =
  rq_data :: u64
  rq_buf :: nat
  rq_len :: nat

record ring_view =
  prepared :: "request list"
  inflight :: "request multiset"
  peeked :: "cqe option"

record 'r liburing =
  queue_init_params :: "u32 \<Rightarrow> u32 \<Rightarrow> u32 \<Rightarrow> int \<times> 'r"
  queue_init :: "u32 \<Rightarrow> u32 \<Rightarrow> int \<times> 'r"
  register_buffers :: "'r \<Rightarrow> (nat \<times> nat) list \<Rightarrow> int \<times> 'r"
  get_sqe :: "'r \<Rightarrow> nat option \<times> 'r"
  prep_recv :: "'r \<Rightarrow> nat \<Rightarrow> int \<Rightarrow> nat \<Rightarrow> nat \<Rightarrow> u32 \<Rightarrow> 'r"
  prep_send :: "'r \<Rightarrow> nat \<Rightarrow> int \<Rightarrow> nat \<Rightarrow> nat \<Rightarrow> u32 \<Rightarrow> 'r"
  sqe_set_data64 :: "'r \<Rightarrow> nat \<Rightarrow> u64 \<Rightarrow> 'r"
  uring_submit :: "'r \<Rightarrow> int \<times> 'r"
  peek_cqe :: "'r \<Rightarrow> cqe option \<times> 'r"
  cqe_seen :: "'r \<Rightarrow> cqe \<Rightarrow> 'r"

text \<open>\<open>IORING_SETUP_SQPOLL\<close>, \<open>MSG_DONTWAIT\<close> and \<open>MSG_NOSIGNAL\<close> of the Linux headers.\<close>

definition IORING_SETUP_SQPOLL :: u32 where
  "IORING_SETUP_SQPOLL = 2"

definition MSG_DONTWAIT :: u32 where
  "MSG_DONTWAIT = 0x40"

definition MSG_NOSIGNAL :: u32 where
  "MSG_NOSIGNAL = 0x4000"

text \<open>A constructor throws when no ring can be set up, and aborts when an assertion fails.\<close>

datatype uring_error = RingInitFailed int | Aborted fault

subsection \<open>What the callers rely on\<close>

definition init_law :: "'r liburing \<Rightarrow> ('r \<Rightarrow> ring_view) \<Rightarrow> bool" where
  "init_law U view \<longleftrightarrow>
     (\<forall>depth flags idle ret r. queue_init_params U depth flags idle = (ret, r) \<longrightarrow> ret = 0 \<longrightarrow>
        view r = \<lparr>prepared = [], inflight = {#}, peeked = None\<rparr>) \<and>
     (\<forall>depth flags ret r. queue_init U depth flags = (ret, r) \<longrightarrow> 0 \<le> ret \<longrightarrow>
        view r = \<lparr>prepared = [], inflight = {#}, peeked = None\<rparr>) \<and>
     (\<forall>r iov. view (snd (register_buffers U r iov)) = view r)"

definition sqe_law :: "'r liburing \<Rightarrow> nat \<Rightarrow> ('r \<Rightarrow> ring_view) \<Rightarrow> bool" where
  "sqe_law U depth view \<longleftrightarrow>
     (\<forall>r s r'. get_sqe U r = (Some s, r') \<longrightarrow>
        (\<forall>fd p n fl d.
           view (sqe_set_data64 U (prep_recv U r' s fd p n fl) s d) =
             (view r)\<lparr>prepared := prepared (view r) @ [\<lparr>rq_data = d, rq_buf = p, rq_len = n\<rparr>]\<rparr> \<and>
           view (sqe_set_data64 U (prep_send U r' s fd p n fl) s d) =
             (view r)\<lparr>prepared := prepared (view r) @ [\<lparr>rq_data = d, rq_buf = p, rq_len = n\<rparr>]\<rparr>)) \<and>
     (\<forall>r r'. get_sqe U r = (None, r') \<longrightarrow>
        view r' = view r \<and> depth \<le> length (prepared (view r)) + size (inflight (view r)))"

definition submit_law :: "'r liburing \<Rightarrow> ('r \<Rightarrow> ring_view) \<Rightarrow> bool" where
  "submit_law U view \<longleftrightarrow>
     (\<forall>r ret r'. uring_submit U r = (ret, r') \<longrightarrow>
        (\<exists>k. view r' = (view r)\<lparr>prepared := drop k (prepared (view r)),
                inflight := inflight (view r) + mset (take k (prepared (view r)))\<rparr>))"

definition completion_law :: "'r liburing \<Rightarrow> ('r \<Rightarrow> ring_view) \<Rightarrow> bool" where
  "completion_law U view \<longleftrightarrow>
     (\<forall>r r'. peek_cqe U r = (None, r') \<longrightarrow> view r' = view r) \<and>
     (\<forall>r c r'. peek_cqe U r = (Some c, r') \<longrightarrow> peeked (view r) = None \<longrightarrow>
        (\<exists>q. q \<in># inflight (view r) \<and> user_data c = rq_data q \<and> res c \<le> int (rq_len q) \<and>
           view r' = (view r)\<lparr>inflight := inflight (view r) - {#q#}, peeked := Some c\<rparr>)) \<and>
     (\<forall>r c. peeked (view r) = Some c \<longrightarrow> view (cqe_seen U r c) = (view r)\<lparr>peeked := None\<rparr>)"

definition uring_contract :: "'r liburing \<Rightarrow> nat \<Rightarrow> ('r \<Rightarrow> ring_view) \<Rightarrow> bool" where
  "uring_contract U depth view \<longleftrightarrow>
     init_law U view \<and> sqe_law U depth view \<and> submit_law U view \<and> completion_law U view"

lemma get_sqe_some:
  assumes "uring_contract U depth view" and "get_sqe U r = (Some s, r')"
  shows "view (sqe_set_data64 U (prep_recv U r' s fd p n fl) s d) =
      (view r)\<lparr>prepared := prepared (view r) @ [\<lparr>rq_data = d, rq_buf = p, rq_len = n\<rparr>]\<rparr>"
    and "view (sqe_set_data64 U (prep_send U r' s fd p n fl) s d) =
      (view r)\<lparr>prepared := prepared (view r) @ [\<lparr>rq_data = d, rq_buf = p, rq_len = n\<rparr>]\<rparr>"
  using assms unfolding uring_contract_def sqe_law_def by blast+

lemma get_sqe_room:
  assumes "uring_contract U depth view" and "length (prepared (view r)) + size (inflight (view r)) < depth"
  obtains s r' where "get_sqe U r = (Some s, r')"
proof (cases "get_sqe U r")
  case (Pair x r')
  then show thesis
    using assms that unfolding uring_contract_def sqe_law_def by (cases x) force+
qed

lemma submit_view:
  assumes "uring_contract U depth view" and "uring_submit U r = (ret, r')"
  obtains k where "view r' = (view r)\<lparr>prepared := drop k (prepared (view r)),
    inflight := inflight (view r) + mset (take k (prepared (view r)))\<rparr>"
  using assms unfolding uring_contract_def submit_law_def by blast

lemma peek_none:
  "uring_contract U depth view \<Longrightarrow> peek_cqe U r = (None, r') \<Longrightarrow> view r' = view r"
  unfolding uring_contract_def completion_law_def by blast

lemma peek_some:
  assumes "uring_contract U depth view" and "peek_cqe U r = (Some c, r')" and "peeked (view r) = None"
  obtains q where "q \<in># inflight (view r)" and "user_data c = rq_data q" and "res c \<le> int (rq_len q)"
    and "view r' = (view r)\<lparr>inflight := inflight (view r) - {#q#}, peeked := Some c\<rparr>"
  using assms unfolding uring_contract_def completion_law_def by blast

lemma seen_view:
  "uring_contract U depth view \<Longrightarrow> peeked (view r) = Some c \<Longrightarrow>
   view (cqe_seen U r c) = (view r)\<lparr>peeked := None\<rparr>"
  unfolding uring_contract_def completion_law_def by blast

text \<open>All requests a ring still has to report.\<close>

definition outstanding :: "ring_view \<Rightarrow> request multiset" where
  "outstanding v = mset (prepared v) + inflight v"

lemma slices_apart: "i \<noteq> j \<Longrightarrow> i * k + k \<le> j * k \<or> j * k + k \<le> i * k" for i j k :: nat
  by (metis add.commute linorder_neqE_nat mult_Suc mult_le_mono1 Suc_leI)

lemma size_outstanding: "size (outstanding v) = length (prepared v) + size (inflight v)"
  by (simp add: outstanding_def)

lemma submit_outstanding:
  "v' = v\<lparr>prepared := drop k (prepared v), inflight := inflight v + mset (take k (prepared v))\<rparr> \<Longrightarrow>
   outstanding v' = outstanding v \<and> peeked v' = peeked v"
  by (simp add: outstanding_def)
     (metis add.assoc add.commute append_take_drop_id mset_append)

subsection \<open>A ring that satisfies the contract\<close>

text \<open>
  A reference ring, used to show that the contract can be met: the submission queue is a
  list, the last entry of which is filled in by the \<open>prep\<close> and \<open>set_data\<close> calls; submitting
  moves everything to the requests in flight, and each peek asks a script of the kernel's
  answers: \<open>None\<close> for nothing complete, \<open>Some n\<close> for the completion of the oldest request
  with \<open>n\<close> bytes (at most its length) or the error \<open>n\<close>.
\<close>

record sim_ring =
  sim_depth :: nat
  sim_sq :: "request list"
  sim_flight :: "request list"
  sim_head :: "cqe option"
  sim_script :: "int option list"

definition sim_view :: "sim_ring \<Rightarrow> ring_view" where
  "sim_view r = \<lparr>prepared = sim_sq r, inflight = mset (sim_flight r), peeked = sim_head r\<rparr>"

definition sim_peek :: "sim_ring \<Rightarrow> cqe option \<times> sim_ring" where
  "sim_peek r =
     (case sim_head r of
        Some c \<Rightarrow> (Some c, r)
      | None \<Rightarrow>
          (case (sim_script r, sim_flight r) of
             (Some n # sc, q # qs) \<Rightarrow>
               let c = \<lparr>user_data = rq_data q, res = min n (int (rq_len q))\<rparr> in
               (Some c, r\<lparr>sim_script := sc, sim_flight := qs, sim_head := Some c\<rparr>)
           | (_ # sc, _) \<Rightarrow> (None, r\<lparr>sim_script := sc\<rparr>)
           | ([], _) \<Rightarrow> (None, r)))"

definition sim_prep :: "sim_ring \<Rightarrow> nat \<Rightarrow> nat \<Rightarrow> nat \<Rightarrow> sim_ring" where
  "sim_prep r s p n = r\<lparr>sim_sq := (sim_sq r)[s := \<lparr>rq_data = 0, rq_buf = p, rq_len = n\<rparr>]\<rparr>"

definition sim_uring :: "int option list \<Rightarrow> sim_ring liburing" where
  "sim_uring script =
     \<lparr>queue_init_params = (\<lambda>depth flags idle. (- 1, \<lparr>sim_depth = 0, sim_sq = [], sim_flight = [],
        sim_head = None, sim_script = []\<rparr>)),
      queue_init = (\<lambda>depth flags. (0, \<lparr>sim_depth = unat depth, sim_sq = [], sim_flight = [],
        sim_head = None, sim_script = script\<rparr>)),
      register_buffers = (\<lambda>r iov. (0, r)),
      get_sqe = (\<lambda>r. if 256 \<le> length (sim_sq r) + length (sim_flight r) then (None, r)
        else (Some (length (sim_sq r)), r\<lparr>sim_sq := sim_sq r @ [\<lparr>rq_data = 0, rq_buf = 0, rq_len = 0\<rparr>]\<rparr>)),
      prep_recv = (\<lambda>r s fd p n fl. sim_prep r s p n),
      prep_send = (\<lambda>r s fd p n fl. sim_prep r s p n),
      sqe_set_data64 = (\<lambda>r s d. r\<lparr>sim_sq := (sim_sq r)[s := (sim_sq r ! s)\<lparr>rq_data := d\<rparr>]\<rparr>),
      uring_submit = (\<lambda>r. (int (length (sim_sq r)), r\<lparr>sim_sq := [], sim_flight := sim_flight r @ sim_sq r\<rparr>)),
      peek_cqe = sim_peek,
      cqe_seen = (\<lambda>r c. r\<lparr>sim_head := None\<rparr>)\<rparr>"

lemma sim_peek_view:
  "sim_peek r = (None, r') \<Longrightarrow> sim_view r' = sim_view r"
  "sim_peek r = (Some c, r') \<Longrightarrow> peeked (sim_view r) = None \<Longrightarrow>
   \<exists>q. q \<in># inflight (sim_view r) \<and> user_data c = rq_data q \<and> res c \<le> int (rq_len q) \<and>
     sim_view r' = (sim_view r)\<lparr>inflight := inflight (sim_view r) - {#q#}, peeked := Some c\<rparr>"
  by (auto simp: sim_peek_def sim_view_def Let_def split: option.splits list.splits)

lemma sim_uring_contract: "uring_contract (sim_uring script) 256 sim_view"
proof -
  have "init_law (sim_uring script) sim_view"
    by (simp add: init_law_def sim_uring_def sim_view_def)
  moreover have "sqe_law (sim_uring script) 256 sim_view"
    by (auto simp: sqe_law_def sim_uring_def sim_view_def sim_prep_def split: if_splits)
  moreover have "submit_law (sim_uring script) sim_view"
    unfolding submit_law_def
  proof (intro allI impI)
    fix r ret r' assume "uring_submit (sim_uring script) r = (ret, r')"
    then show "\<exists>k. sim_view r' = (sim_view r)\<lparr>prepared := drop k (prepared (sim_view r)),
        inflight := inflight (sim_view r) + mset (take k (prepared (sim_view r)))\<rparr>"
      by (intro exI [of _ "length (sim_sq r)"]) (auto simp: sim_uring_def sim_view_def)
  qed
  moreover have "completion_law (sim_uring script) sim_view"
    unfolding completion_law_def using sim_peek_view by (simp add: sim_uring_def) (simp add: sim_view_def)
  ultimately show ?thesis
    by (simp add: uring_contract_def)
qed

end
