(* ===== verification/Uring_Receiver.thy ===== *)
theory Uring_Receiver
  imports Uring
begin

section \<open>The receiver (\<open>src/src/io/uring_receiver.hpp\<close>)\<close>

text \<open>
  \<open>UringReceiver\<close> keeps 64 buffers of 4096 bytes, laid out one after the other from
  \<open>recv_base\<close>. A buffer is given to the kernel with a receive request, comes back as a
  completion, is passed to the decoder as a span, and is given to the kernel again once its
  number has come back through the return queue. The record holds the two queues it shares
  with the decoder as well; the decoder's activity while the receiver waits for room in the
  raw queue is the schedule \<open>raw_ps\<close>. A failing \<open>assert\<close> is the fault \<open>AssertFailed\<close>.

  The loop over completions has fuel. It ends after at most 64 iterations, because a request
  that is armed inside the loop is not submitted before the next \<open>poll\<close>; so 65 units are
  always enough.
\<close>

definition kRxRingDepth :: u32 where
  "kRxRingDepth = 256"

definition kNumBufs :: nat where
  "kNumBufs = 64"

definition kBufSize :: nat where
  "kBufSize = 4096"

definition kRxSqPollIdle :: u32 where
  "kRxSqPollIdle = 2000"

record 'r UringReceiver =
  sock_fd :: int
  rx_ring :: 'r
  sqpoll_active :: bool
  bufs_registered :: bool
  rx_pending_sqes :: u32
  recv_base :: nat
  iovecs :: "(nat \<times> nat) list"
  buf_armed :: "bool list"
  raw_ch :: "RawByteSpan channel"
  raw_ps :: "nat list"
  ret_q :: "u32 SPSCQueue"
  bytes_received :: u64
  cqes_processed :: u64
  errors_seen :: u64

definition recv_buf :: "'r UringReceiver \<Rightarrow> nat \<Rightarrow> nat" where
  "recv_buf rx i = recv_base rx + i * kBufSize"

definition arm_buf :: "'r liburing \<Rightarrow> nat \<Rightarrow> 'r UringReceiver \<Rightarrow> fault + 'r UringReceiver" where
  "arm_buf U bid rx =
     (if \<not> bid < kNumBufs then Inl AssertFailed
      else if buf_armed rx ! bid then Inl AssertFailed
      else case get_sqe U (rx_ring rx) of
          (None, r) \<Rightarrow> Inr (rx\<lparr>rx_ring := r, errors_seen := errors_seen rx + 1\<rparr>)
        | (Some sqe, r) \<Rightarrow>
            let r1 = prep_recv U r sqe (sock_fd rx) (recv_buf rx bid) kBufSize MSG_DONTWAIT;
                r2 = sqe_set_data64 U r1 sqe (of_nat bid)
            in Inr (rx\<lparr>rx_ring := r2, buf_armed := (buf_armed rx)[bid := True],
                       rx_pending_sqes := rx_pending_sqes rx + 1\<rparr>))"

definition process_cqe :: "'r liburing \<Rightarrow> cqe \<Rightarrow> 'r UringReceiver \<Rightarrow> fault + 'r UringReceiver" where
  "process_cqe U c rx =
     (let rx = rx\<lparr>cqes_processed := cqes_processed rx + 1\<rparr>;
          bid = (ucast (user_data c) :: u32);
          bytes = res c
      in if \<not> unat bid < kNumBufs then Inl AssertFailed
         else
           let rx = rx\<lparr>buf_armed := (buf_armed rx)[unat bid := False]\<rparr>
           in if 0 < bytes then
                let rx = rx\<lparr>bytes_received := bytes_received rx + of_int bytes\<rparr>;
                    span = \<lparr>rs_data = Some (recv_buf rx (unat bid)), rs_len = of_int bytes, rs_buf_id = bid\<rparr>
                in ebind (spin_push kPipelineQueueCapacity span (raw_ch rx) (raw_ps rx)) (\<lambda>(ch, ps).
                     Inr (rx\<lparr>raw_ch := ch, raw_ps := ps\<rparr>))
              else if bytes = 0 then arm_buf U (unat bid) rx
              else arm_buf U (unat bid) (rx\<lparr>errors_seen := errors_seen rx + 1\<rparr>))"

text \<open>The items in the return queue when \<open>reclaim_buffers\<close> starts; each turn takes one.\<close>

function reclaim_buffers :: "'r liburing \<Rightarrow> 'r UringReceiver \<Rightarrow> fault + 'r UringReceiver" where
  "reclaim_buffers U rx =
     (case try_pop kBufReturnCapacity (ret_q rx) of
        (None, q) \<Rightarrow> Inr (rx\<lparr>ret_q := q\<rparr>)
      | (Some buf_id, q) \<Rightarrow>
          let rx = rx\<lparr>ret_q := q\<rparr>
          in if unat buf_id < kNumBufs \<and> \<not> buf_armed rx ! unat buf_id
             then case arm_buf U (unat buf_id) rx of
                    Inl f \<Rightarrow> Inl f
                  | Inr rx' \<Rightarrow> reclaim_buffers U rx'
             else reclaim_buffers U rx)"
  by pat_completeness auto

lemma try_pop_measure:
  assumes "try_pop N q = (Some x, q')"
  shows "unat (write_idx q' - read_idx q') < unat (write_idx q - read_idx q)"
proof -
  have ne: "write_idx q - read_idx q \<noteq> 0" and q': "q' = q\<lparr>read_idx := read_idx q + 1\<rparr>"
    using assms by (auto simp: try_pop_def Let_def split: if_splits)
  then obtain n where n: "unat (write_idx q - read_idx q) = Suc n"
    by (cases "unat (write_idx q - read_idx q)") (auto simp: unat_eq_0)
  have "write_idx q' - read_idx q' = write_idx q - read_idx q - 1"
    by (simp add: q')
  then show ?thesis
    using unat_pred_word [OF n] n by simp
qed

lemma arm_buf_keeps:
  "arm_buf U bid rx = Inr rx' \<Longrightarrow> ret_q rx' = ret_q rx \<and> raw_ch rx' = raw_ch rx \<and> raw_ps rx' = raw_ps rx \<and>
    bytes_received rx' = bytes_received rx"
  by (auto simp: arm_buf_def Let_def split: if_splits prod.splits option.splits)

termination reclaim_buffers
  by (relation "measure (\<lambda>(U, rx). unat (write_idx (ret_q rx) - read_idx (ret_q rx)))")
     (auto dest!: sym [of _ "try_pop _ _"] try_pop_measure arm_buf_keeps)

declare reclaim_buffers.simps [simp del]

definition flush_pending :: "'r liburing \<Rightarrow> 'r UringReceiver \<Rightarrow> 'r UringReceiver" where
  "flush_pending U rx =
     (if 0 < rx_pending_sqes rx
      then rx\<lparr>rx_ring := snd (uring_submit U (rx_ring rx)), rx_pending_sqes := 0\<rparr> else rx)"

fun drain_cq :: "'r liburing \<Rightarrow> nat \<Rightarrow> int \<Rightarrow> 'r UringReceiver \<Rightarrow> fault + (int \<times> 'r UringReceiver)" where
  "drain_cq U 0 processed rx = Inl OutOfFuel"
| "drain_cq U (Suc fuel) processed rx =
     (case peek_cqe U (rx_ring rx) of
        (None, r) \<Rightarrow> Inr (processed, rx\<lparr>rx_ring := r\<rparr>)
      | (Some c, r) \<Rightarrow>
          ebind (process_cqe U c (rx\<lparr>rx_ring := r\<rparr>)) (\<lambda>rx.
            drain_cq U fuel (processed + 1) (rx\<lparr>rx_ring := cqe_seen U (rx_ring rx) c\<rparr>)))"

definition rx_poll :: "'r liburing \<Rightarrow> nat \<Rightarrow> 'r UringReceiver \<Rightarrow> fault + (int \<times> 'r UringReceiver)" where
  "rx_poll U fuel rx =
     ebind (reclaim_buffers U rx) (\<lambda>rx. drain_cq U fuel 0 (flush_pending U rx))"

subsection \<open>Construction\<close>

definition rx_init_ring :: "'r liburing \<Rightarrow> uring_error + (bool \<times> 'r)" where
  "rx_init_ring U =
     (case queue_init_params U kRxRingDepth IORING_SETUP_SQPOLL kRxSqPollIdle of
        (ret, r) \<Rightarrow>
          if ret = 0 then Inr (True, r)
          else case queue_init U kRxRingDepth 0 of
              (ret, r) \<Rightarrow> if ret < 0 then Inl (RingInitFailed ret) else Inr (False, r))"

definition init_fixed_buffers :: "'r liburing \<Rightarrow> 'r UringReceiver \<Rightarrow> 'r UringReceiver" where
  "init_fixed_buffers U rx =
     (let rx = rx\<lparr>iovecs := map (\<lambda>i. (recv_buf rx i, kBufSize)) [0..<kNumBufs],
                 buf_armed := replicate kNumBufs False\<rparr>
      in case register_buffers U (rx_ring rx) (iovecs rx) of
           (ret, r) \<Rightarrow> rx\<lparr>rx_ring := r, bufs_registered := (ret = 0)\<rparr>)"

fun arm_each :: "'r liburing \<Rightarrow> nat list \<Rightarrow> 'r UringReceiver \<Rightarrow> fault + 'r UringReceiver" where
  "arm_each U [] rx = Inr rx"
| "arm_each U (i # is) rx = ebind (arm_buf U i rx) (arm_each U is)"

definition arm_all_buffers :: "'r liburing \<Rightarrow> 'r UringReceiver \<Rightarrow> fault + 'r UringReceiver" where
  "arm_all_buffers U rx =
     ebind (arm_each U [0..<kNumBufs] rx) (\<lambda>rx.
       Inr (rx\<lparr>rx_ring := snd (uring_submit U (rx_ring rx)), rx_pending_sqes := 0\<rparr>))"

definition UringReceiver_new ::
  "'r liburing \<Rightarrow> nat \<Rightarrow> int \<Rightarrow> RawByteSpan channel \<Rightarrow> nat list \<Rightarrow> u32 SPSCQueue \<Rightarrow>
   uring_error + 'r UringReceiver" where
  "UringReceiver_new U base fd raw ps ret =
     (if fd < 0 then Inl (Aborted AssertFailed)
      else case rx_init_ring U of
          Inl e \<Rightarrow> Inl e
        | Inr (sqpoll, r) \<Rightarrow>
            let rx = \<lparr>sock_fd = fd, rx_ring = r, sqpoll_active = sqpoll, bufs_registered = False,
                      rx_pending_sqes = 0, recv_base = base, iovecs = replicate kNumBufs (0, 0),
                      buf_armed = replicate kNumBufs False, raw_ch = raw, raw_ps = ps, ret_q = ret,
                      bytes_received = 0, cqes_processed = 0, errors_seen = 0\<rparr>
            in case arm_all_buffers U (init_fixed_buffers U rx) of
                 Inl f \<Rightarrow> Inl (Aborted f)
               | Inr rx' \<Rightarrow> Inr rx')"

definition UringReceiver_destroy :: "'r UringReceiver \<Rightarrow> os_call list" where
  "UringReceiver_destroy rx = (if bufs_registered rx then [UnregisterBuffers] else []) @ [RxQueueExit]"

subsection \<open>Who owns which buffer\<close>

text \<open>
  A buffer is with the ring (prepared or in flight), lent to the decoder (a span of it was
  posted and its number has not been returned yet; \<open>R\<close> is how many numbers the decoder has
  returned so far), in the return queue, or in the hands of the receiver. \<open>rx_own\<close> says
  that every buffer is in exactly one of these places.
\<close>

definition rx_request :: "'r UringReceiver \<Rightarrow> nat \<Rightarrow> request" where
  "rx_request rx i = \<lparr>rq_data = of_nat i, rq_buf = recv_buf rx i, rq_len = kBufSize\<rparr>"

definition ring_ids :: "ring_view \<Rightarrow> nat multiset" where
  "ring_ids v = image_mset (\<lambda>q. unat (rq_data q)) (outstanding v)"

definition lent :: "nat \<Rightarrow> 'r UringReceiver \<Rightarrow> RawByteSpan list" where
  "lent R rx = drop R (stream kPipelineQueueCapacity (raw_ch rx))"

definition lent_ids :: "nat \<Rightarrow> 'r UringReceiver \<Rightarrow> nat multiset" where
  "lent_ids R rx = mset (map (\<lambda>s. unat (rs_buf_id s)) (lent R rx))"

definition returned_ids :: "'r UringReceiver \<Rightarrow> nat multiset" where
  "returned_ids rx = mset (map unat (contents kBufReturnCapacity (ret_q rx)))"

definition span_ok :: "'r UringReceiver \<Rightarrow> RawByteSpan \<Rightarrow> bool" where
  "span_ok rx s \<longleftrightarrow> rs_data s = Some (recv_buf rx (unat (rs_buf_id s))) \<and>
     0 < unat (rs_len s) \<and> unat (rs_len s) \<le> kBufSize"

definition rx_own :: "('r \<Rightarrow> ring_view) \<Rightarrow> nat \<Rightarrow> nat multiset \<Rightarrow> 'r UringReceiver \<Rightarrow> bool" where
  "rx_own view R hand rx \<longleftrightarrow>
     length (buf_armed rx) = kNumBufs \<and>
     spsc_ok kPipelineQueueCapacity (fst (raw_ch rx)) \<and> spsc_ok kBufReturnCapacity (ret_q rx) \<and>
     R \<le> length (snd (raw_ch rx)) \<and>
     (\<forall>q \<in># outstanding (view (rx_ring rx)). q = rx_request rx (unat (rq_data q))) \<and>
     (\<forall>i < kNumBufs. buf_armed rx ! i \<longleftrightarrow> i \<in># ring_ids (view (rx_ring rx))) \<and>
     ring_ids (view (rx_ring rx)) + lent_ids R rx + returned_ids rx + hand = mset_set {..<kNumBufs} \<and>
     list_all (span_ok rx) (lent R rx)"

definition rx_inv :: "('r \<Rightarrow> ring_view) \<Rightarrow> nat \<Rightarrow> 'r UringReceiver \<Rightarrow> bool" where
  "rx_inv view R rx \<longleftrightarrow> rx_own view R {#} rx \<and> peeked (view (rx_ring rx)) = None"

lemma rx_ownD:
  assumes "rx_own view R hand rx"
  shows "length (buf_armed rx) = kNumBufs" "spsc_ok kPipelineQueueCapacity (fst (raw_ch rx))"
    "spsc_ok kBufReturnCapacity (ret_q rx)" "R \<le> length (snd (raw_ch rx))"
    "\<And>q. q \<in># outstanding (view (rx_ring rx)) \<Longrightarrow> q = rx_request rx (unat (rq_data q))"
    "\<And>i. i < kNumBufs \<Longrightarrow> buf_armed rx ! i \<longleftrightarrow> i \<in># ring_ids (view (rx_ring rx))"
    "ring_ids (view (rx_ring rx)) + lent_ids R rx + returned_ids rx + hand = mset_set {..<kNumBufs}"
    "list_all (span_ok rx) (lent R rx)"
  using assms unfolding rx_own_def by blast+

lemma once_in_mset_set:
  fixes x n :: nat
  assumes "add_mset x A = mset_set {..<n}"
  shows "x < n" "x \<notin># A"
proof -
  have "x \<in># mset_set {..<n}"
    unfolding assms [symmetric] by simp
  then show "x < n"
    by simp
  have "count (mset_set {..<n}) x \<le> 1"
    by (simp add: count_mset_set')
  then show "x \<notin># A"
    unfolding assms [symmetric] by (simp add: count_eq_zero_iff)
qed

lemma rx_own_sizes:
  assumes "rx_own view R hand rx"
  shows "size (outstanding (view (rx_ring rx))) + length (lent R rx) +
    length (contents kBufReturnCapacity (ret_q rx)) + size hand = kNumBufs"
  using arg_cong [OF rx_ownD(7) [OF assms], of size]
  by (simp add: ring_ids_def lent_ids_def returned_ids_def del: length_contents)

lemma kNumBufs_word: "i < kNumBufs \<Longrightarrow> unat (of_nat i :: u64) = i" "i < kNumBufs \<Longrightarrow> unat (of_nat i :: u32) = i"
  by (simp_all add: kNumBufs_def unat_of_nat_small)

lemma outstanding_prepare:
  "outstanding (v\<lparr>prepared := prepared v @ [q]\<rparr>) = add_mset q (outstanding v)"
  by (simp add: outstanding_def)

lemma rx_request_frame:
  "recv_base rx' = recv_base rx \<Longrightarrow> rx_request rx' = rx_request rx"
  "recv_base rx' = recv_base rx \<Longrightarrow> recv_buf rx' = recv_buf rx"
  "recv_base rx' = recv_base rx \<Longrightarrow> span_ok rx' = span_ok rx"
  by (simp_all add: rx_request_def recv_buf_def span_ok_def fun_eq_iff)

lemma rx_own_frame:
  assumes "buf_armed rx' = buf_armed rx" "raw_ch rx' = raw_ch rx" "ret_q rx' = ret_q rx"
    "recv_base rx' = recv_base rx" "outstanding (view (rx_ring rx')) = outstanding (view (rx_ring rx))"
  shows "rx_own view R hand rx' = rx_own view R hand rx"
  unfolding rx_own_def lent_def lent_ids_def returned_ids_def ring_ids_def
    rx_request_frame [OF assms(4)] assms(1,2,3,5) ..

lemma rx_own_counters [simp]:
  "rx_own view R hand (rx\<lparr>errors_seen := a\<rparr>) = rx_own view R hand rx"
  "rx_own view R hand (rx\<lparr>bytes_received := a\<rparr>) = rx_own view R hand rx"
  "rx_own view R hand (rx\<lparr>cqes_processed := a\<rparr>) = rx_own view R hand rx"
  "rx_own view R hand (rx\<lparr>rx_pending_sqes := p\<rparr>) = rx_own view R hand rx"
  by (rule rx_own_frame; simp)+

lemma arm_buf_own:
  assumes C: "uring_contract U 256 view" and O: "rx_own view R (add_mset i H) rx"
  shows "\<exists>rx'. arm_buf U i rx = Inr rx' \<and> rx_own view R H rx' \<and>
    inflight (view (rx_ring rx')) = inflight (view (rx_ring rx)) \<and>
    peeked (view (rx_ring rx')) = peeked (view (rx_ring rx)) \<and>
    raw_ch rx' = raw_ch rx \<and> raw_ps rx' = raw_ps rx \<and> ret_q rx' = ret_q rx \<and> recv_base rx' = recv_base rx"
proof -
  let ?v = "view (rx_ring rx)"
  note D = rx_ownD [OF O]
  have one: "add_mset i (ring_ids ?v + lent_ids R rx + returned_ids rx + H) = mset_set {..<kNumBufs}"
    using D(7) by simp
  note once = once_in_mset_set [OF one]
  have i: "i < kNumBufs" and na: "\<not> buf_armed rx ! i"
    using once D(6) by auto
  have "length (prepared ?v) + size (inflight ?v) < 256"
    using rx_own_sizes [OF O] by (simp add: size_outstanding kNumBufs_def)
  then obtain s r where g: "get_sqe U (rx_ring rx) = (Some s, r)"
    using get_sqe_room [OF C] by blast
  let ?r = "sqe_set_data64 U (prep_recv U r s (sock_fd rx) (recv_buf rx i) kBufSize MSG_DONTWAIT) s (of_nat i)"
  let ?rx = "rx\<lparr>rx_ring := ?r, buf_armed := (buf_armed rx)[i := True], rx_pending_sqes := rx_pending_sqes rx + 1\<rparr>"
  have arm: "arm_buf U i rx = Inr ?rx"
    using i na g by (simp add: arm_buf_def Let_def)
  have v: "view ?r = ?v\<lparr>prepared := prepared ?v @ [rx_request rx i]\<rparr>"
    using get_sqe_some(1) [OF C g] by (simp add: rx_request_def)
  have out: "outstanding (view ?r) = add_mset (rx_request rx i) (outstanding ?v)"
    by (simp add: v outstanding_prepare)
  have id: "unat (rq_data (rx_request rx i)) = i"
    using i by (simp add: rx_request_def kNumBufs_word)
  have ids: "ring_ids (view ?r) = add_mset i (ring_ids ?v)"
    by (simp add: ring_ids_def out id)
  have fr: "lent R ?rx = lent R rx" "lent_ids R ?rx = lent_ids R rx" "returned_ids ?rx = returned_ids rx"
    "rx_request ?rx = rx_request rx" "span_ok ?rx = span_ok rx"
    by (simp_all add: lent_def lent_ids_def returned_ids_def rx_request_frame [of ?rx rx])
  have "rx_own view R H ?rx"
    unfolding rx_own_def fr using D i ids out id by (auto simp: nth_list_update)
  then show ?thesis
    using arm v by auto
qed

lemma rx_own_take:
  assumes O: "rx_own view R {#} rx" and q: "q \<in># inflight (view (rx_ring rx))"
    and v: "view r = (view (rx_ring rx))\<lparr>inflight := inflight (view (rx_ring rx)) - {#q#}, peeked := x\<rparr>"
  shows "unat (rq_data q) < kNumBufs" "rq_len q = kBufSize"
    "rx_own view R {#unat (rq_data q)#} (rx\<lparr>rx_ring := r, buf_armed := (buf_armed rx)[unat (rq_data q) := False]\<rparr>)"
proof -
  let ?v = "view (rx_ring rx)" and ?i = "unat (rq_data q)"
  let ?rx = "rx\<lparr>rx_ring := r, buf_armed := (buf_armed rx)[?i := False]\<rparr>"
  note D = rx_ownD [OF O]
  have out: "outstanding ?v = add_mset q (outstanding (view r))"
    using q by (simp add: outstanding_def v)
  have ids: "ring_ids ?v = add_mset ?i (ring_ids (view r))"
    by (simp add: ring_ids_def out)
  have "add_mset ?i (ring_ids (view r) + lent_ids R rx + returned_ids rx) = mset_set {..<kNumBufs}"
    using D(7) by (simp add: ids)
  note once = once_in_mset_set [OF this]
  show i: "?i < kNumBufs"
    by (rule once(1))
  have "q = rx_request rx ?i"
    using D(5) [of q] by (simp add: out)
  then show "rq_len q = kBufSize"
    by (metis request.select_convs(3) rx_request_def)
  have fr: "lent R ?rx = lent R rx" "lent_ids R ?rx = lent_ids R rx" "returned_ids ?rx = returned_ids rx"
    "rx_request ?rx = rx_request rx" "span_ok ?rx = span_ok rx"
    by (simp_all add: lent_def lent_ids_def returned_ids_def rx_request_frame [of ?rx rx])
  show "rx_own view R {#?i#} ?rx"
    unfolding rx_own_def fr using D i ids out once by (auto simp: nth_list_update)
qed

text \<open>Posting a span never blocks: the raw queue has room for a thousand times the buffers.\<close>

lemma raw_queue_room:
  assumes "rx_own view R hand rx"
  shows "can_post kPipelineQueueCapacity 1 (raw_ch rx) ps"
proof -
  have "length (contents kPipelineQueueCapacity (fst (raw_ch rx))) \<le> length (lent R rx)"
    using rx_ownD(4) [OF assms] by (simp add: lent_def stream_def del: length_contents)
  then have "length (contents kPipelineQueueCapacity (fst (raw_ch rx))) \<le> 64"
    using rx_own_sizes [OF assms] unfolding kNumBufs_def by linarith
  then have "1 \<le> unat kPipelineQueueCapacity - length (contents kPipelineQueueCapacity (fst (raw_ch rx)))"
    by (simp add: kPipelineQueueCapacity_def del: length_contents)
  then show ?thesis
    unfolding can_post_def by blast
qed

lemma post_span_own:
  assumes O: "rx_own view R {#i#} rx" and b: "0 < b" "b \<le> int kBufSize" and i: "i = unat w"
  shows "\<exists>ch ps. spin_push kPipelineQueueCapacity
      \<lparr>rs_data = Some (recv_buf rx i), rs_len = of_int b, rs_buf_id = w\<rparr> (raw_ch rx) (raw_ps rx) = Inr (ch, ps) \<and>
    rx_own view R {#} (rx\<lparr>raw_ch := ch, raw_ps := ps\<rparr>)"
proof -
  let ?s = "\<lparr>rs_data = Some (recv_buf rx i), rs_len = of_int b, rs_buf_id = w\<rparr>"
  note D = rx_ownD [OF O]
  have room: "can_post kPipelineQueueCapacity (Suc 0) (raw_ch rx) (raw_ps rx)"
    using raw_queue_room [OF O] by simp
  obtain ch ps where p: "spin_push kPipelineQueueCapacity ?s (raw_ch rx) (raw_ps rx) = Inr (ch, ps)"
    using spin_push_can_post [OF D(2) room] by blast
  note P = spin_push_result [OF D(2) p]
  let ?rx = "rx\<lparr>raw_ch := ch, raw_ps := ps\<rparr>"
  have "unat (of_int b :: u32) = nat b"
    using b by (simp add: kBufSize_def unsigned_of_int nat_take_bit_eq take_bit_nat_eq_self)
  then have ok: "span_ok rx ?s"
    using b i by (simp add: span_ok_def)
  have l: "lent R ?rx = lent R rx @ [?s]"
    using P D(4) by (simp add: lent_def stream_def del: length_contents)
  have "length (snd (raw_ch rx)) \<le> length (snd ch)"
    by (rule spin_push_taken [OF D(2) p])
  then have R: "R \<le> length (snd ch)"
    using D(4) by simp
  have fr: "rx_request ?rx = rx_request rx" "span_ok ?rx = span_ok rx"
    by (simp_all add: rx_request_frame [of ?rx rx])
  have "lent_ids R ?rx = add_mset i (lent_ids R rx)" "returned_ids ?rx = returned_ids rx"
    using i by (simp_all add: lent_ids_def l returned_ids_def)
  then have "rx_own view R {#} ?rx"
    unfolding rx_own_def fr l using D P R ok by simp
  then show ?thesis
    using p by blast
qed

text \<open>One completion: afterwards every buffer is accounted for again.\<close>

lemma process_cqe_own:
  assumes C: "uring_contract U 256 view" and O: "rx_inv view R rx"
    and p: "peek_cqe U (rx_ring rx) = (Some c, r)"
  shows "\<exists>rx'. process_cqe U c (rx\<lparr>rx_ring := r\<rparr>) = Inr rx' \<and>
    rx_inv view R (rx'\<lparr>rx_ring := cqe_seen U (rx_ring rx') c\<rparr>) \<and> recv_base rx' = recv_base rx \<and> ret_q rx' = ret_q rx \<and>
    size (inflight (view (cqe_seen U (rx_ring rx') c))) < size (inflight (view (rx_ring rx)))"
proof -
  let ?v = "view (rx_ring rx)"
  have O': "rx_own view R {#} rx" "peeked ?v = None"
    using O by (simp_all add: rx_inv_def)
  obtain q where q: "q \<in># inflight ?v" "user_data c = rq_data q" "res c \<le> int (rq_len q)"
    "view r = ?v\<lparr>inflight := inflight ?v - {#q#}, peeked := Some c\<rparr>"
    using peek_some [OF C p O'(2)] by blast
  define i where "i = unat (rq_data q)"
  note T = rx_own_take [OF O'(1) q(1,4), folded i_def]
  have id: "unat (ucast (user_data c) :: u32) = i"
    using T(1) by (simp add: q(2) i_def unsigned_ucast_eq kNumBufs_def take_bit_nat_eq_self)
  have less: "size (inflight (view r)) < size (inflight ?v)" and pk: "peeked (view r) = Some c"
    using q size_Diff1_less [OF q(1)] by simp_all
  have fin: ?thesis
    if "process_cqe U c (rx\<lparr>rx_ring := r\<rparr>) = Inr rx'" "rx_own view R {#} rx'"
      "inflight (view (rx_ring rx')) = inflight (view r)" "peeked (view (rx_ring rx')) = Some c"
      "recv_base rx' = recv_base rx" "ret_q rx' = ret_q rx" for rx'
  proof -
    have s: "view (cqe_seen U (rx_ring rx') c) = (view (rx_ring rx'))\<lparr>peeked := None\<rparr>"
      by (rule seen_view [OF C that(4)])
    have "rx_own view R {#} (rx'\<lparr>rx_ring := cqe_seen U (rx_ring rx') c\<rparr>) = rx_own view R {#} rx'"
      by (rule rx_own_frame) (simp_all add: s outstanding_def)
    then show ?thesis
      using that s less by (simp add: rx_inv_def)
  qed
  let ?rx = "\<lambda>b e. rx\<lparr>rx_ring := r, cqes_processed := cqes_processed rx + 1,
    buf_armed := (buf_armed rx)[i := False], bytes_received := b, errors_seen := e\<rparr>"
  have own: "rx_own view R {#i#} (?rx b e)" for b e
  proof -
    have "rx_own view R {#i#} (?rx b e) = rx_own view R {#i#} (rx\<lparr>rx_ring := r, buf_armed := (buf_armed rx)[i := False]\<rparr>)"
      by (rule rx_own_frame) simp_all
    then show ?thesis
      using T(3) by simp
  qed
  show ?thesis
  proof (cases "0 < res c")
    case True
    have b: "res c \<le> int kBufSize"
      using q(3) T(2) by simp
    let ?rb = "?rx (bytes_received rx + of_int (res c)) (errors_seen rx)"
    obtain ch ps where P: "spin_push kPipelineQueueCapacity
        \<lparr>rs_data = Some (recv_buf ?rb i), rs_len = of_int (res c), rs_buf_id = ucast (user_data c)\<rparr>
        (raw_ch ?rb) (raw_ps ?rb) = Inr (ch, ps)" "rx_own view R {#} (?rb\<lparr>raw_ch := ch, raw_ps := ps\<rparr>)"
      using post_span_own [OF own True b id [symmetric]] by blast
    have "process_cqe U c (rx\<lparr>rx_ring := r\<rparr>) = Inr (?rb\<lparr>raw_ch := ch, raw_ps := ps\<rparr>)"
      using P(1) True T(1) id by (simp add: process_cqe_def Let_def recv_buf_def)
    then show ?thesis
      by (rule fin) (use P(2) pk in simp_all)
  next
    case False
    let ?ra = "?rx (bytes_received rx) (if res c = 0 then errors_seen rx else errors_seen rx + 1)"
    obtain rx' where A: "arm_buf U i ?ra = Inr rx'" "rx_own view R {#} rx'"
      "inflight (view (rx_ring rx')) = inflight (view r)" "peeked (view (rx_ring rx')) = Some c"
      "recv_base rx' = recv_base rx" "ret_q rx' = ret_q rx"
      using arm_buf_own [OF C own] pk by fastforce
    have "process_cqe U c (rx\<lparr>rx_ring := r\<rparr>) = arm_buf U i ?ra"
      using False T(1) id by (simp add: process_cqe_def Let_def)
    then have "process_cqe U c (rx\<lparr>rx_ring := r\<rparr>) = Inr rx'"
      using A(1) by simp
    then show ?thesis
      by (rule fin) (use A in simp_all)
  qed
qed

text \<open>The loop over the completions ends, and every buffer is accounted for.\<close>

lemma drain_cq_inv:
  assumes C: "uring_contract U 256 view" and "rx_inv view R rx" and "size (inflight (view (rx_ring rx))) < fuel"
  shows "\<exists>n rx'. drain_cq U fuel k rx = Inr (n, rx') \<and> rx_inv view R rx' \<and> recv_base rx' = recv_base rx"
  using assms(2,3)
proof (induction fuel arbitrary: k rx)
  case 0
  then show ?case by simp
next
  case (Suc fuel)
  obtain x r where p: "peek_cqe U (rx_ring rx) = (x, r)"
    by fastforce
  show ?case
  proof (cases x)
    case None
    have v: "view r = view (rx_ring rx)"
      using peek_none [OF C] p None by simp
    have "rx_own view R {#} (rx\<lparr>rx_ring := r\<rparr>) = rx_own view R {#} rx"
      by (rule rx_own_frame) (simp_all add: v)
    then show ?thesis
      using p None v Suc.prems(1) by (simp add: rx_inv_def)
  next
    case (Some c)
    obtain rx' where P: "process_cqe U c (rx\<lparr>rx_ring := r\<rparr>) = Inr rx'"
      "rx_inv view R (rx'\<lparr>rx_ring := cqe_seen U (rx_ring rx') c\<rparr>)" "recv_base rx' = recv_base rx"
      "size (inflight (view (cqe_seen U (rx_ring rx') c))) < size (inflight (view (rx_ring rx)))"
      using process_cqe_own [OF C Suc.prems(1)] p Some by blast
    have "drain_cq U (Suc fuel) k rx = drain_cq U fuel (k + 1) (rx'\<lparr>rx_ring := cqe_seen U (rx_ring rx') c\<rparr>)"
      using p Some P(1) by simp
    then show ?thesis
      using Suc.IH [OF P(2), of "k + 1"] P(3,4) Suc.prems(2) by simp
  qed
qed

lemma flush_pending_inv:
  assumes "uring_contract U 256 view" and "rx_inv view R rx"
  shows "rx_inv view R (flush_pending U rx)" "recv_base (flush_pending U rx) = recv_base rx"
proof -
  obtain ret r where s: "uring_submit U (rx_ring rx) = (ret, r)"
    by fastforce
  obtain k where k: "view r = (view (rx_ring rx))\<lparr>prepared := drop k (prepared (view (rx_ring rx))),
      inflight := inflight (view (rx_ring rx)) + mset (take k (prepared (view (rx_ring rx))))\<rparr>"
    using submit_view [OF assms(1) s] by blast
  note S = submit_outstanding [OF k]
  have "rx_own view R {#} (rx\<lparr>rx_ring := r, rx_pending_sqes := 0\<rparr>) = rx_own view R {#} rx"
    by (rule rx_own_frame) (simp_all add: S)
  then show "rx_inv view R (flush_pending U rx)"
    using assms(2) S by (simp add: rx_inv_def flush_pending_def s)
  show "recv_base (flush_pending U rx) = recv_base rx"
    by (simp add: flush_pending_def)
qed

lemma reclaim_buffers_inv:
  assumes C: "uring_contract U 256 view"
  shows "rx_inv view R rx \<Longrightarrow> \<exists>rx'. reclaim_buffers U rx = Inr rx' \<and> rx_inv view R rx' \<and>
    recv_base rx' = recv_base rx \<and> raw_ch rx' = raw_ch rx \<and> contents kBufReturnCapacity (ret_q rx') = []"
proof (induction "length (contents kBufReturnCapacity (ret_q rx))" arbitrary: rx)
  case 0
  then have "contents kBufReturnCapacity (ret_q rx) = []"
    by (simp del: length_contents)
  moreover from try_pop_empty [OF this] have "reclaim_buffers U rx = Inr rx"
    by (subst reclaim_buffers.simps) simp
  ultimately show ?case
    using 0 by (simp del: length_contents)
next
  case (Suc n)
  have O: "rx_own view R {#} rx" and pk: "peeked (view (rx_ring rx)) = None"
    using Suc.prems by (simp_all add: rx_inv_def)
  note D = rx_ownD [OF O]
  obtain x xs where c: "contents kBufReturnCapacity (ret_q rx) = x # xs"
    using Suc.hyps(2) by (cases "contents kBufReturnCapacity (ret_q rx)") (auto simp del: length_contents)
  obtain q where q: "try_pop kBufReturnCapacity (ret_q rx) = (Some x, q)" "spsc_ok kBufReturnCapacity q"
    "contents kBufReturnCapacity q = xs"
    using try_pop_cons [OF D(3) c] by blast
  let ?rx = "rx\<lparr>ret_q := q\<rparr>"
  have ret: "returned_ids rx = add_mset (unat x) (returned_ids ?rx)"
    by (simp add: returned_ids_def c q(3))
  have fr: "lent R ?rx = lent R rx" "lent_ids R ?rx = lent_ids R rx"
    "rx_request ?rx = rx_request rx" "span_ok ?rx = span_ok rx"
    by (simp_all add: lent_def lent_ids_def rx_request_frame [of ?rx rx])
  have own: "rx_own view R {#unat x#} ?rx"
    unfolding rx_own_def fr using D q(2) ret by simp
  obtain rx' where A: "arm_buf U (unat x) ?rx = Inr rx'" "rx_own view R {#} rx'"
    "peeked (view (rx_ring rx')) = None" "raw_ch rx' = raw_ch rx" "ret_q rx' = q" "recv_base rx' = recv_base rx"
    using arm_buf_own [OF C own] pk by auto
  have "unat x < kNumBufs" "\<not> buf_armed ?rx ! unat x"
    using A(1) by (auto simp: arm_buf_def split: if_splits)
  then have step: "reclaim_buffers U rx = reclaim_buffers U rx'"
    using q(1) A(1) by (subst reclaim_buffers.simps) simp
  have "n = length (contents kBufReturnCapacity (ret_q rx'))"
    using Suc.hyps(2) by (simp add: A(5) q(3) c del: length_contents)
  from Suc.hyps(1) [OF this] show ?case
    using step A by (simp add: rx_inv_def)
qed

lemma rx_poll_inv:
  assumes C: "uring_contract U 256 view" and I: "rx_inv view R rx" and F: "kNumBufs < fuel"
  shows "\<exists>n rx'. rx_poll U fuel rx = Inr (n, rx') \<and> rx_inv view R rx' \<and> recv_base rx' = recv_base rx"
proof -
  obtain rx1 where r: "reclaim_buffers U rx = Inr rx1" "rx_inv view R rx1" "recv_base rx1 = recv_base rx"
    using reclaim_buffers_inv [OF C I] by blast
  note f = flush_pending_inv [OF C r(2)]
  have "rx_own view R {#} (flush_pending U rx1)"
    using f(1) by (simp add: rx_inv_def)
  from rx_own_sizes [OF this] have "size (inflight (view (rx_ring (flush_pending U rx1)))) < fuel"
    using F by (simp add: size_outstanding del: length_contents)
  from drain_cq_inv [OF C f(1) this, of 0] show ?thesis
    using r f(2) by (simp add: rx_poll_def)
qed

subsection \<open>Construction establishes the invariant\<close>

lemma rx_init_ring_view:
  assumes "uring_contract U depth view" and "rx_init_ring U = Inr (sq, r)"
  shows "view r = \<lparr>prepared = [], inflight = {#}, peeked = None\<rparr>"
  using assms unfolding rx_init_ring_def uring_contract_def init_law_def
  by (fastforce split: prod.splits if_splits)

lemma arm_each_own:
  assumes C: "uring_contract U 256 view"
  shows "rx_own view R (mset is) rx \<Longrightarrow> \<exists>rx'. arm_each U is rx = Inr rx' \<and> rx_own view R {#} rx' \<and>
    peeked (view (rx_ring rx')) = peeked (view (rx_ring rx)) \<and> raw_ch rx' = raw_ch rx \<and>
    raw_ps rx' = raw_ps rx \<and> ret_q rx' = ret_q rx \<and> recv_base rx' = recv_base rx"
proof (induction "is" arbitrary: rx)
  case Nil
  then show ?case by simp
next
  case (Cons i "is")
  then obtain rx1 where A: "arm_buf U i rx = Inr rx1" "rx_own view R (mset is) rx1"
    "peeked (view (rx_ring rx1)) = peeked (view (rx_ring rx))" "raw_ch rx1 = raw_ch rx" "raw_ps rx1 = raw_ps rx"
    "ret_q rx1 = ret_q rx" "recv_base rx1 = recv_base rx"
    using arm_buf_own [OF C, of R i "mset is" rx] by auto
  then show ?case
    using Cons.IH [OF A(2)] by simp
qed

lemma UringReceiver_new_inv:
  assumes C: "uring_contract U 256 view" and fd: "0 \<le> fd" and i: "rx_init_ring U = Inr (sq, r)"
    and raw: "spsc_ok kPipelineQueueCapacity (fst raw)" "stream kPipelineQueueCapacity raw = []"
    and ret: "spsc_ok kBufReturnCapacity ret" "contents kBufReturnCapacity ret = []"
  shows "\<exists>rx. UringReceiver_new U base fd raw ps ret = Inr rx \<and> rx_inv view 0 rx \<and> recv_base rx = base \<and>
    raw_ch rx = raw \<and> raw_ps rx = ps \<and> ret_q rx = ret \<and> ring_ids (view (rx_ring rx)) = mset_set {..<kNumBufs}"
proof -
  let ?rx = "\<lparr>sock_fd = fd, rx_ring = r, sqpoll_active = sq, bufs_registered = False,
    rx_pending_sqes = 0, recv_base = base, iovecs = replicate kNumBufs (0, 0),
    buf_armed = replicate kNumBufs False, raw_ch = raw, raw_ps = ps, ret_q = ret,
    bytes_received = 0, cqes_processed = 0, errors_seen = 0\<rparr>"
  define rx1 where "rx1 = init_fixed_buffers U ?rx"
  have reg: "view (snd (register_buffers U x y)) = view x" for x y
    using C unfolding uring_contract_def init_law_def by blast
  have f: "view (rx_ring rx1) = \<lparr>prepared = [], inflight = {#}, peeked = None\<rparr>"
    "raw_ch rx1 = raw" "raw_ps rx1 = ps" "ret_q rx1 = ret" "recv_base rx1 = base" "buf_armed rx1 = replicate kNumBufs False"
    using rx_init_ring_view [OF C i] reg [of r]
    by (simp_all add: rx1_def init_fixed_buffers_def Let_def split: prod.split) (metis snd_conv)
  have "rx_own view 0 (mset [0..<kNumBufs]) rx1"
    using raw ret
    by (simp add: rx_own_def f lent_def lent_ids_def returned_ids_def ring_ids_def outstanding_def
        mset_upt atLeast0LessThan)
  then obtain rx2 where A: "arm_each U [0..<kNumBufs] rx1 = Inr rx2" "rx_own view 0 {#} rx2"
    "peeked (view (rx_ring rx2)) = None" "raw_ch rx2 = raw" "raw_ps rx2 = ps" "ret_q rx2 = ret" "recv_base rx2 = base"
    using arm_each_own [OF C] f by fastforce
  obtain x r3 where s: "uring_submit U (rx_ring rx2) = (x, r3)"
    by fastforce
  let ?rx3 = "rx2\<lparr>rx_ring := r3, rx_pending_sqes := 0\<rparr>"
  have "rx_inv view 0 (rx2\<lparr>rx_pending_sqes := 1\<rparr>)"
    using A by (simp add: rx_inv_def)
  from flush_pending_inv(1) [OF C this] have inv: "rx_inv view 0 ?rx3"
    by (simp add: flush_pending_def s)
  then have "ring_ids (view r3) = mset_set {..<kNumBufs}"
    using rx_ownD(7) [of view 0 "{#}" ?rx3] A raw ret
    by (simp add: rx_inv_def lent_ids_def lent_def returned_ids_def)
  then show ?thesis
    using inv A s fd i by (simp add: UringReceiver_new_def arm_all_buffers_def rx1_def [symmetric])
qed

end
