(* ===== verification/Rx_Path.thy ===== *)
theory Rx_Path
  imports Uring_Receiver
begin

section \<open>Receiver, kernel and decoder sharing the buffers\<close>

text \<open>
  The inbound half of the pipeline as a state machine. The receiver thread, the decoder
  thread and the kernel interleave: the receiver's steps are the parts of \<open>UringReceiver::poll\<close>
  (\<open>src/src/io/uring_receiver.hpp\<close>), the decoder's are the two queue operations of
  \<open>Decoder::poll\<close> (\<open>src/src/io/decoder.hpp\<close>) between which it reads the span, and the kernel
  may write any byte of a buffer whose request is in flight. The decoder returns buffers in the
  order it has taken the spans; \<open>sys_returned\<close> counts them.
\<close>

record 'r rx_system =
  sys_rx :: "'r UringReceiver"
  sys_returned :: nat
  sys_mem :: memory

inductive rx_step :: "'r liburing \<Rightarrow> ('r \<Rightarrow> ring_view) \<Rightarrow> 'r rx_system \<Rightarrow> 'r rx_system \<Rightarrow> bool"
  for U :: "'r liburing" and view :: "'r \<Rightarrow> ring_view" where
  reclaim:
    "reclaim_buffers U (sys_rx s) = Inr rx' \<Longrightarrow> rx_step U view s (s\<lparr>sys_rx := rx'\<rparr>)"
| flush:
    "rx_step U view s (s\<lparr>sys_rx := flush_pending U (sys_rx s)\<rparr>)"
| nothing_complete:
    "peek_cqe U (rx_ring (sys_rx s)) = (None, r) \<Longrightarrow>
     rx_step U view s (s\<lparr>sys_rx := (sys_rx s)\<lparr>rx_ring := r\<rparr>\<rparr>)"
| complete:
    "peek_cqe U (rx_ring (sys_rx s)) = (Some c, r) \<Longrightarrow>
     process_cqe U c ((sys_rx s)\<lparr>rx_ring := r\<rparr>) = Inr rx' \<Longrightarrow>
     rx_step U view s (s\<lparr>sys_rx := rx'\<lparr>rx_ring := cqe_seen U (rx_ring rx') c\<rparr>\<rparr>)"
| take_span:
    "rx_step U view s (s\<lparr>sys_rx := (sys_rx s)\<lparr>raw_ch := consume kPipelineQueueCapacity 1 (raw_ch (sys_rx s))\<rparr>\<rparr>)"
| return_buffer:
    "sys_returned s < length (snd (raw_ch (sys_rx s))) \<Longrightarrow>
     try_push kBufReturnCapacity (ret_q (sys_rx s)) (rs_buf_id (snd (raw_ch (sys_rx s)) ! sys_returned s)) = (True, q) \<Longrightarrow>
     rx_step U view s (s\<lparr>sys_rx := (sys_rx s)\<lparr>ret_q := q\<rparr>, sys_returned := Suc (sys_returned s)\<rparr>)"
| kernel_write:
    "q \<in># inflight (view (rx_ring (sys_rx s))) \<Longrightarrow> rq_buf q \<le> a \<Longrightarrow> a < rq_buf q + rq_len q \<Longrightarrow>
     rx_step U view s (s\<lparr>sys_mem := (sys_mem s)(a := b)\<rparr>)"

inductive_cases rx_stepE: "rx_step U view s t"

definition rx_init :: "'r liburing \<Rightarrow> 'r rx_system \<Rightarrow> bool" where
  "rx_init U s \<longleftrightarrow>
     (\<exists>base fd raw ps ret. UringReceiver_new U base fd raw ps ret = Inr (sys_rx s) \<and>
        spsc_ok kPipelineQueueCapacity (fst raw) \<and> stream kPipelineQueueCapacity raw = [] \<and>
        spsc_ok kBufReturnCapacity ret \<and> contents kBufReturnCapacity ret = []) \<and>
     sys_returned s = 0"

definition sys_inv :: "('r \<Rightarrow> ring_view) \<Rightarrow> 'r rx_system \<Rightarrow> bool" where
  "sys_inv view s \<longleftrightarrow> rx_inv view (sys_returned s) (sys_rx s)"

subsection \<open>Every step keeps the buffers accounted for\<close>

lemma take_span_inv:
  assumes "rx_inv view R rx"
  shows "rx_inv view R (rx\<lparr>raw_ch := consume kPipelineQueueCapacity 1 (raw_ch rx)\<rparr>)"
proof -
  let ?ch = "consume kPipelineQueueCapacity 1 (raw_ch rx)"
  let ?rx = "rx\<lparr>raw_ch := ?ch\<rparr>"
  have O: "rx_own view R {#} rx"
    using assms by (simp add: rx_inv_def)
  note D = rx_ownD [OF O] and C = consume_result [OF rx_ownD(2) [OF O], of 1]
  have l: "lent R ?rx = lent R rx" "lent_ids R ?rx = lent_ids R rx" "returned_ids ?rx = returned_ids rx"
    "rx_request ?rx = rx_request rx" "span_ok ?rx = span_ok rx"
    using C(2) by (simp_all add: lent_def lent_ids_def returned_ids_def rx_request_frame [of ?rx rx] del: One_nat_def)
  have "length (snd (raw_ch rx)) \<le> length (snd ?ch)"
    by (simp add: consume_def split: prod.split)
  then have "rx_own view R {#} ?rx"
    unfolding rx_own_def l using D C(1) by simp
  then show ?thesis
    using assms by (simp add: rx_inv_def)
qed

lemma lent_Cons:
  assumes "R < length (snd (raw_ch rx))"
  shows "lent R rx = snd (raw_ch rx) ! R # lent (Suc R) rx"
  using assms by (simp add: lent_def stream_def Cons_nth_drop_Suc del: length_contents)

lemma return_buffer_inv:
  assumes "rx_inv view R rx" and R: "R < length (snd (raw_ch rx))"
  shows "\<exists>q. try_push kBufReturnCapacity (ret_q rx) (rs_buf_id (snd (raw_ch rx) ! R)) = (True, q) \<and>
    rx_inv view (Suc R) (rx\<lparr>ret_q := q\<rparr>)"
proof -
  have O: "rx_own view R {#} rx"
    using assms by (simp add: rx_inv_def)
  note D = rx_ownD [OF O] and L = lent_Cons [OF R]
  let ?x = "rs_buf_id (snd (raw_ch rx) ! R)"
  have "length (contents kBufReturnCapacity (ret_q rx)) \<le> 64"
    using rx_own_sizes [OF O] unfolding kNumBufs_def by linarith
  then have "length (contents kBufReturnCapacity (ret_q rx)) < unat kBufReturnCapacity"
    by (simp add: kBufReturnCapacity_def del: length_contents)
  then obtain q where q: "try_push kBufReturnCapacity (ret_q rx) ?x = (True, q)" "spsc_ok kBufReturnCapacity q"
    "contents kBufReturnCapacity q = contents kBufReturnCapacity (ret_q rx) @ [?x]"
    using try_push_room [OF D(3)] by blast
  let ?rx = "rx\<lparr>ret_q := q\<rparr>"
  have l: "lent R rx = snd (raw_ch rx) ! R # lent (Suc R) ?rx"
    "lent_ids R rx = add_mset (unat ?x) (lent_ids (Suc R) ?rx)"
    "returned_ids ?rx = add_mset (unat ?x) (returned_ids rx)"
    "rx_request ?rx = rx_request rx" "span_ok ?rx = span_ok rx"
    using L by (simp_all add: lent_def lent_ids_def returned_ids_def q(3) rx_request_frame [of ?rx rx])
  have "rx_own view (Suc R) {#} ?rx"
    unfolding rx_own_def l(3,4,5) using D q(2) R by (simp add: l(1,2))
  then show ?thesis
    using assms(1) q(1) by (simp add: rx_inv_def)
qed

lemma rx_step_inv:
  assumes C: "uring_contract U 256 view" and I: "sys_inv view s" and S: "rx_step U view s t"
  shows "sys_inv view t"
  using S
proof cases
  case (reclaim rx')
  then show ?thesis
    using I reclaim_buffers_inv [OF C, of "sys_returned s" "sys_rx s"] by (auto simp: sys_inv_def)
next
  case flush
  then show ?thesis
    using I flush_pending_inv(1) [OF C] by (simp add: sys_inv_def)
next
  case (nothing_complete r)
  have v: "view r = view (rx_ring (sys_rx s))"
    using peek_none [OF C nothing_complete(2)] .
  have "rx_own view R {#} ((sys_rx s)\<lparr>rx_ring := r\<rparr>) = rx_own view R {#} (sys_rx s)" for R
    by (rule rx_own_frame) (simp_all add: v)
  then show ?thesis
    using I v nothing_complete(1) by (simp add: sys_inv_def rx_inv_def)
next
  case (complete c r rx')
  then show ?thesis
    using I process_cqe_own [OF C, of "sys_returned s" "sys_rx s" c r] by (auto simp: sys_inv_def)
next
  case take_span
  then show ?thesis
    using I take_span_inv by (auto simp: sys_inv_def)
next
  case (return_buffer q)
  then show ?thesis
    using I return_buffer_inv [of view "sys_returned s" "sys_rx s"] by (auto simp: sys_inv_def)
next
  case (kernel_write q a b)
  then show ?thesis
    using I by (simp add: sys_inv_def)
qed

lemma rx_init_inv:
  assumes C: "uring_contract U 256 view" and "rx_init U s"
  shows "sys_inv view s"
proof -
  obtain base fd raw ps ret where n: "UringReceiver_new U base fd raw ps ret = Inr (sys_rx s)"
    and q: "spsc_ok kPipelineQueueCapacity (fst raw)" "stream kPipelineQueueCapacity raw = []"
      "spsc_ok kBufReturnCapacity ret" "contents kBufReturnCapacity ret = []"
    and R: "sys_returned s = 0"
    using assms(2) unfolding rx_init_def by blast
  have fd: "0 \<le> fd"
    using n by (simp add: UringReceiver_new_def split: if_splits)
  then obtain sq r where "rx_init_ring U = Inr (sq, r)"
    using n by (auto simp: UringReceiver_new_def split: sum.splits)
  from UringReceiver_new_inv [OF C fd this q, of base ps] n R show ?thesis
    by (auto simp: sys_inv_def)
qed

text \<open>The machine is a safety machine for every library that keeps the contract.\<close>

definition rx_start :: "'r liburing \<Rightarrow> ('r \<Rightarrow> ring_view) \<Rightarrow> 'r rx_system \<Rightarrow> bool" where
  "rx_start U view s \<longleftrightarrow> uring_contract U 256 view \<and> rx_init U s"

definition rx_good :: "'r liburing \<Rightarrow> ('r \<Rightarrow> ring_view) \<Rightarrow> 'r rx_system \<Rightarrow> bool" where
  "rx_good U view s \<longleftrightarrow> uring_contract U 256 view \<and> sys_inv view s"

interpretation rxp: safety_machine "rx_start U view" "rx_step U view" "rx_good U view" for U view
  by unfold_locales (auto simp: rx_start_def rx_good_def intro: rx_init_inv rx_step_inv)

subsection \<open>The stream of spans only grows\<close>

lemma process_cqe_stream:
  assumes "spsc_ok kPipelineQueueCapacity (fst (raw_ch rx))" and "process_cqe U c rx = Inr rx'"
  shows "stream kPipelineQueueCapacity (raw_ch rx') = stream kPipelineQueueCapacity (raw_ch rx) @
    (if 0 < res c then [\<lparr>rs_data = Some (recv_buf rx (unat (ucast (user_data c) :: u32))),
       rs_len = of_int (res c), rs_buf_id = ucast (user_data c)\<rparr>] else [])"
proof (cases "0 < res c")
  case True
  let ?sp = "\<lparr>rs_data = Some (recv_buf rx (unat (ucast (user_data c) :: u32))),
    rs_len = of_int (res c), rs_buf_id = ucast (user_data c)\<rparr>"
  obtain ch ps where p: "spin_push kPipelineQueueCapacity ?sp (raw_ch rx) (raw_ps rx) = Inr (ch, ps)"
    "raw_ch rx' = ch"
    using assms(2) True by (auto simp: process_cqe_def Let_def ebind_Inr_iff recv_buf_def split: if_splits)
  show ?thesis
    using spin_push_result [OF assms(1) p(1)] p(2) True by simp
next
  case False
  have "\<exists>i e. arm_buf U i (rx\<lparr>cqes_processed := cqes_processed rx + 1, buf_armed := (buf_armed rx)[i := False],
      errors_seen := e\<rparr>) = Inr rx'"
  proof (cases "res c = 0")
    case True
    then show ?thesis
      using assms(2) False unfolding process_cqe_def Let_def
      by (intro exI [of _ "unat (ucast (user_data c) :: u32)"] exI [of _ "errors_seen rx"]) (simp split: if_splits)
  next
    case neg: False
    then show ?thesis
      using assms(2) False unfolding process_cqe_def Let_def
      by (intro exI [of _ "unat (ucast (user_data c) :: u32)"] exI [of _ "errors_seen rx + 1"]) (simp split: if_splits)
  qed
  then show ?thesis
    using False by (auto dest!: arm_buf_keeps)
qed

lemma rx_step_stream:
  assumes G: "rx_good U view s" and S: "rx_step U view s t"
  shows "\<exists>ys. stream kPipelineQueueCapacity (raw_ch (sys_rx t)) = stream kPipelineQueueCapacity (raw_ch (sys_rx s)) @ ys"
    "sys_returned s \<le> sys_returned t"
proof -
  have C: "uring_contract U 256 view" and I: "rx_inv view (sys_returned s) (sys_rx s)"
    using G by (simp_all add: rx_good_def sys_inv_def)
  have ok: "spsc_ok kPipelineQueueCapacity (fst (raw_ch (sys_rx s)))"
    using I rx_ownD(2) by (auto simp: rx_inv_def)
  show "\<exists>ys. stream kPipelineQueueCapacity (raw_ch (sys_rx t)) = stream kPipelineQueueCapacity (raw_ch (sys_rx s)) @ ys"
    using S
  proof cases
    case (reclaim rx')
    then show ?thesis
      using reclaim_buffers_inv [OF C I] by auto
  next
    case (complete c r rx')
    then show ?thesis
      using process_cqe_stream [of "(sys_rx s)\<lparr>rx_ring := r\<rparr>"] ok by simp
  next
    case take_span
    then show ?thesis
      using consume_result(2) [OF ok] by simp
  qed (simp_all add: flush_pending_def)
  show "sys_returned s \<le> sys_returned t"
    using S by cases simp_all
qed

text \<open>A span the decoder has not returned lies outside every buffer the kernel may write.\<close>

lemma lent_not_inflight:
  assumes I: "rx_inv view R rx" and sp: "sp \<in> set (lent R rx)" and q: "q \<in># inflight (view (rx_ring rx))"
    and a: "rq_buf q \<le> a" "a < rq_buf q + rq_len q"
  shows "\<not> (\<exists>p. rs_data sp = Some p \<and> p \<le> a \<and> a < p + unat (rs_len sp))"
proof -
  let ?i = "unat (rq_data q)" and ?j = "unat (rs_buf_id sp)"
  have O: "rx_own view R {#} rx"
    using I by (simp add: rx_inv_def)
  note D = rx_ownD [OF O]
  have "q \<in># outstanding (view (rx_ring rx))"
    using q by (simp add: outstanding_def)
  then have qi: "q = rx_request rx ?i" and "?i \<in># ring_ids (view (rx_ring rx))"
    using D(5) by (auto simp: ring_ids_def)
  then obtain A where A: "ring_ids (view (rx_ring rx)) = add_mset ?i A"
    by (meson multi_member_split)
  have "add_mset ?i (A + lent_ids R rx + returned_ids rx) = mset_set {..<kNumBufs}"
    using D(7) by (simp add: A)
  from once_in_mset_set(2) [OF this] have "?i \<notin># lent_ids R rx"
    by simp
  moreover have "?j \<in># lent_ids R rx"
    using sp by (auto simp: lent_ids_def)
  ultimately have ne: "?i \<noteq> ?j"
    by metis
  have so: "rs_data sp = Some (recv_buf rx ?j)" "unat (rs_len sp) \<le> kBufSize"
    using D(8) sp by (auto simp: list_all_iff span_ok_def)
  have "rq_buf q = recv_buf rx ?i" "rq_len q = kBufSize"
    using qi by (metis request.select_convs rx_request_def)+
  then have ai: "recv_base rx + ?i * kBufSize \<le> a" "a < recv_base rx + ?i * kBufSize + kBufSize"
    using a by (simp_all add: recv_buf_def)
  have "\<not> (recv_base rx + ?j * kBufSize \<le> a \<and> a < recv_base rx + ?j * kBufSize + kBufSize)"
    using slices_apart [OF ne, of kBufSize] ai by linarith
  then show ?thesis
    using so by (auto simp: recv_buf_def)
qed

lemma rx_step_memory:
  assumes G: "rx_good U view s" and S: "rx_step U view s t" and sp: "sp \<in> set (lent (sys_returned s) (sys_rx s))"
  shows "span_bytes (sys_mem t) sp = span_bytes (sys_mem s) sp"
  using S
proof cases
  case (kernel_write q a b)
  have I: "rx_inv view (sys_returned s) (sys_rx s)"
    using G by (simp add: rx_good_def sys_inv_def)
  note N = lent_not_inflight [OF I sp kernel_write(2,3,4)]
  show ?thesis
  proof (cases "rs_data sp")
    case None
    then show ?thesis
      by (simp add: span_bytes_def)
  next
    case (Some p)
    then have "bytes_at ((sys_mem s)(a := b)) p (unat (rs_len sp)) = bytes_at (sys_mem s) p (unat (rs_len sp))"
      using N by (intro bytes_at_cong) auto
    then show ?thesis
      using Some kernel_write(1) by (simp add: span_bytes_def)
  qed
qed simp_all

lemma rx_steps_span:
  assumes G: "rx_good U view s" and S: "(rx_step U view)\<^sup>*\<^sup>* s t"
    and i: "i < length (stream kPipelineQueueCapacity (raw_ch (sys_rx s)))" "sys_returned t \<le> i"
  shows "\<exists>ys. stream kPipelineQueueCapacity (raw_ch (sys_rx t)) = stream kPipelineQueueCapacity (raw_ch (sys_rx s)) @ ys"
    "span_bytes (sys_mem t) (stream kPipelineQueueCapacity (raw_ch (sys_rx s)) ! i) =
     span_bytes (sys_mem s) (stream kPipelineQueueCapacity (raw_ch (sys_rx s)) ! i)"
  using S i(2)
proof (induction rule: rtranclp_induct)
  case base
  {
    case 1
    then show ?case by simp
  next
    case 2
    then show ?case by simp
  }
next
  case (step t u)
  have Gt: "rx_good U view t"
    by (rule rxp.steps_inv [OF step.hyps(1) G])
  note T = rx_step_stream [OF Gt step.hyps(2)]
  {
    case 1
    then show ?case
      using T step.IH(1) by fastforce
  next
    case 2
    have R: "sys_returned t \<le> i"
      using T(2) 2 by simp
    obtain ys where ys: "stream kPipelineQueueCapacity (raw_ch (sys_rx t)) =
        stream kPipelineQueueCapacity (raw_ch (sys_rx s)) @ ys"
      using step.IH(1) [OF R] by blast
    let ?sp = "stream kPipelineQueueCapacity (raw_ch (sys_rx s)) ! i"
    have "?sp = stream kPipelineQueueCapacity (raw_ch (sys_rx t)) ! i"
      "i < length (stream kPipelineQueueCapacity (raw_ch (sys_rx t)))"
      using i(1) by (simp_all add: ys nth_append)
    then have "?sp \<in> set (lent (sys_returned t) (sys_rx t))"
      unfolding lent_def in_set_conv_nth using R
      by (intro exI [of _ "i - sys_returned t"]) simp
    from rx_step_memory [OF Gt step.hyps(2) this] show ?case
      using step.IH(2) [OF R] by simp
  }
qed

subsection \<open>A poll is a sequence of these steps\<close>

lemma drain_cq_steps:
  "drain_cq U fuel k (sys_rx s) = Inr (n, rx') \<Longrightarrow> (rx_step U view)\<^sup>*\<^sup>* s (s\<lparr>sys_rx := rx'\<rparr>)"
proof (induction fuel arbitrary: k s)
  case 0
  then show ?case by simp
next
  case (Suc fuel)
  obtain x r where p: "peek_cqe U (rx_ring (sys_rx s)) = (x, r)"
    by fastforce
  show ?case
  proof (cases x)
    case None
    then have "rx' = (sys_rx s)\<lparr>rx_ring := r\<rparr>"
      using Suc.prems p by simp
    then show ?thesis
      using rx_step.nothing_complete [of U s r view] p None by auto
  next
    case (Some c)
    then obtain rx1 where c: "process_cqe U c ((sys_rx s)\<lparr>rx_ring := r\<rparr>) = Inr rx1"
      "drain_cq U fuel (k + 1) (rx1\<lparr>rx_ring := cqe_seen U (rx_ring rx1) c\<rparr>) = Inr (n, rx')"
      using Suc.prems p by (auto simp: ebind_Inr_iff)
    let ?s = "s\<lparr>sys_rx := rx1\<lparr>rx_ring := cqe_seen U (rx_ring rx1) c\<rparr>\<rparr>"
    have "rx_step U view s ?s"
      using p Some c(1) by (intro rx_step.complete) simp_all
    moreover have "(rx_step U view)\<^sup>*\<^sup>* ?s (?s\<lparr>sys_rx := rx'\<rparr>)"
      using c(2) by (intro Suc.IH) simp
    ultimately show ?thesis
      by (simp add: converse_rtranclp_into_rtranclp)
  qed
qed

lemma rx_poll_steps:
  assumes "rx_poll U fuel (sys_rx s) = Inr (n, rx')"
  shows "(rx_step U view)\<^sup>*\<^sup>* s (s\<lparr>sys_rx := rx'\<rparr>)"
proof -
  obtain rx1 where r: "reclaim_buffers U (sys_rx s) = Inr rx1"
    "drain_cq U fuel 0 (flush_pending U rx1) = Inr (n, rx')"
    using assms by (auto simp: rx_poll_def ebind_Inr_iff)
  let ?s1 = "s\<lparr>sys_rx := rx1\<rparr>" and ?s2 = "s\<lparr>sys_rx := flush_pending U rx1\<rparr>"
  have "rx_step U view s ?s1"
    using r(1) by (rule rx_step.reclaim)
  moreover have "rx_step U view ?s1 ?s2"
    using rx_step.flush [of U view ?s1] by simp
  moreover have "(rx_step U view)\<^sup>*\<^sup>* ?s2 (?s2\<lparr>sys_rx := rx'\<rparr>)"
    using r(2) by (intro drain_cq_steps) simp
  ultimately show ?thesis
    by (simp add: converse_rtranclp_into_rtranclp)
qed

text \<open>The stream only grows along every run, and a silent decoder takes nothing during a poll.\<close>

lemma rx_steps_stream:
  assumes G: "rx_good U view s" and S: "(rx_step U view)\<^sup>*\<^sup>* s t"
  shows "\<exists>ys. stream kPipelineQueueCapacity (raw_ch (sys_rx t)) = stream kPipelineQueueCapacity (raw_ch (sys_rx s)) @ ys"
  using S
proof (induction rule: rtranclp_induct)
  case base
  then show ?case by simp
next
  case (step t u)
  then show ?case
    using rx_step_stream(1) [OF rxp.steps_inv [OF step.hyps(1) G] step.hyps(2)] by fastforce
qed

lemma process_cqe_silent:
  assumes "process_cqe U c rx = Inr rx'" and "raw_ps rx = []"
  shows "raw_ps rx' = [] \<and> snd (raw_ch rx') = snd (raw_ch rx)"
proof (cases "0 < res c")
  case True
  then obtain sp ch ps where "spin_push kPipelineQueueCapacity sp (raw_ch rx) [] = Inr (ch, ps)"
    "raw_ch rx' = ch" "raw_ps rx' = ps"
    using assms by (auto simp: process_cqe_def Let_def ebind_Inr_iff split: if_splits)
  then show ?thesis
    using spin_push_silent by metis
next
  case False
  let ?i = "unat (ucast (user_data c) :: u32)"
  have "arm_buf U ?i (rx\<lparr>cqes_processed := cqes_processed rx + 1, buf_armed := (buf_armed rx)[?i := False],
      errors_seen := if res c = 0 then errors_seen rx else errors_seen rx + 1\<rparr>) = Inr rx'"
    using assms(1) False unfolding process_cqe_def Let_def by (cases "res c = 0") (simp_all split: if_splits)
  then show ?thesis
    using assms(2) by (auto dest!: arm_buf_keeps)
qed

lemma drain_cq_silent:
  "drain_cq U fuel k rx = Inr (n, rx') \<Longrightarrow> raw_ps rx = [] \<Longrightarrow> raw_ps rx' = [] \<and> snd (raw_ch rx') = snd (raw_ch rx)"
proof (induction fuel arbitrary: k rx)
  case 0
  then show ?case by simp
next
  case (Suc fuel)
  obtain x r where p: "peek_cqe U (rx_ring rx) = (x, r)"
    by fastforce
  show ?case
  proof (cases x)
    case None
    then show ?thesis
      using Suc.prems p by auto
  next
    case (Some c)
    then obtain rx1 where c: "process_cqe U c (rx\<lparr>rx_ring := r\<rparr>) = Inr rx1"
      "drain_cq U fuel (k + 1) (rx1\<lparr>rx_ring := cqe_seen U (rx_ring rx1) c\<rparr>) = Inr (n, rx')"
      using Suc.prems p by (auto simp: ebind_Inr_iff)
    then show ?thesis
      using Suc.IH [OF c(2)] process_cqe_silent [OF c(1)] Suc.prems(2) by simp
  qed
qed

lemma reclaim_buffers_silent:
  "reclaim_buffers U rx = Inr rx' \<Longrightarrow> raw_ps rx' = raw_ps rx \<and> raw_ch rx' = raw_ch rx \<and>
    bytes_received rx' = bytes_received rx"
proof (induction U rx arbitrary: rx' rule: reclaim_buffers.induct)
  case (1 U rx)
  obtain x q where p: "try_pop kBufReturnCapacity (ret_q rx) = (x, q)"
    by fastforce
  show ?case
  proof (cases x)
    case None
    then show ?thesis
      using "1.prems" p by (subst (asm) reclaim_buffers.simps) auto
  next
    case (Some b)
    show ?thesis
    proof (cases "unat b < kNumBufs \<and> \<not> buf_armed rx ! unat b")
      case True
      then obtain rx1 where a: "arm_buf U (unat b) (rx\<lparr>ret_q := q\<rparr>) = Inr rx1" "reclaim_buffers U rx1 = Inr rx'"
        using "1.prems" p Some by (subst (asm) reclaim_buffers.simps) (auto split: sum.splits)
      show ?thesis
        using "1.IH"(1) [OF p [symmetric] Some refl _ a(1) a(2)] True arm_buf_keeps [OF a(1)] by simp
    next
      case False
      then have "reclaim_buffers U (rx\<lparr>ret_q := q\<rparr>) = Inr rx'"
        using "1.prems" p Some by (subst (asm) reclaim_buffers.simps) (auto split: if_splits)
      then show ?thesis
        using "1.IH"(2) [OF p [symmetric] Some refl] False by fastforce
    qed
  qed
qed

lemma rx_poll_silent:
  assumes "rx_poll U fuel rx = Inr (n, rx')" and "raw_ps rx = []"
  shows "raw_ps rx' = [] \<and> snd (raw_ch rx') = snd (raw_ch rx)"
proof -
  obtain rx1 where r: "reclaim_buffers U rx = Inr rx1" "drain_cq U fuel 0 (flush_pending U rx1) = Inr (n, rx')"
    using assms(1) by (auto simp: rx_poll_def ebind_Inr_iff)
  have "raw_ps (flush_pending U rx1) = [] \<and> raw_ch (flush_pending U rx1) = raw_ch rx"
    using reclaim_buffers_silent [OF r(1)] assms(2) by (simp add: flush_pending_def)
  then show ?thesis
    using drain_cq_silent [OF r(2)] by simp
qed

subsection \<open>The byte counter\<close>

text \<open>\<open>bytes_received\<close> is the number of bytes in all spans posted so far.\<close>

definition rx_tally :: "'r UringReceiver \<Rightarrow> bool" where
  "rx_tally rx \<longleftrightarrow> bytes_received rx =
     of_nat (sum_list (map (\<lambda>sp. unat (rs_len sp)) (stream kPipelineQueueCapacity (raw_ch rx))))"

lemma process_cqe_bytes:
  "process_cqe U c rx = Inr rx' \<Longrightarrow> bytes_received rx' = bytes_received rx + (if 0 < res c then of_int (res c) else 0)"
  by (auto simp: process_cqe_def Let_def ebind_Inr_iff split: if_splits dest!: arm_buf_keeps)

lemma process_cqe_tally:
  assumes ok: "spsc_ok kPipelineQueueCapacity (fst (raw_ch rx))" and p: "process_cqe U c rx = Inr rx'"
    and len: "res c \<le> int kBufSize" and T: "rx_tally rx"
  shows "rx_tally rx'"
proof -
  have "unat (of_int (res c) :: u32) = nat (res c)" if "0 < res c"
    using that len by (simp add: kBufSize_def unat_eq_nat_uint uint_word_of_int_eq take_bit_int_eq_self)
  then show ?thesis
    using T process_cqe_stream [OF ok p] process_cqe_bytes [OF p] by (simp add: rx_tally_def of_nat_nat)
qed

lemma drain_cq_tally:
  assumes C: "uring_contract U 256 view"
  shows "rx_inv view R rx \<Longrightarrow> rx_tally rx \<Longrightarrow> drain_cq U fuel k rx = Inr (n, rx') \<Longrightarrow> rx_tally rx'"
proof (induction fuel arbitrary: k rx)
  case 0
  then show ?case by simp
next
  case (Suc fuel)
  obtain x r where p: "peek_cqe U (rx_ring rx) = (x, r)"
    by fastforce
  show ?case
  proof (cases x)
    case None
    then show ?thesis
      using p Suc.prems by (auto simp: rx_tally_def)
  next
    case (Some c)
    obtain rx1 where P: "process_cqe U c (rx\<lparr>rx_ring := r\<rparr>) = Inr rx1"
      "rx_inv view R (rx1\<lparr>rx_ring := cqe_seen U (rx_ring rx1) c\<rparr>)"
      using process_cqe_own [OF C Suc.prems(1)] p Some by blast
    have O: "rx_own view R {#} rx" "peeked (view (rx_ring rx)) = None"
      using Suc.prems(1) by (simp_all add: rx_inv_def)
    obtain q where q: "q \<in># inflight (view (rx_ring rx))" "res c \<le> int (rq_len q)"
      "view r = (view (rx_ring rx))\<lparr>inflight := inflight (view (rx_ring rx)) - {#q#}, peeked := Some c\<rparr>"
      using peek_some [OF C _ O(2)] p Some by metis
    have "res c \<le> int kBufSize"
      using q(2) rx_own_take(2) [OF O(1) q(1,3)] by simp
    then have "rx_tally rx1"
      using rx_ownD(2) [OF O(1)] Suc.prems(2) by (intro process_cqe_tally [OF _ P(1)]) (simp_all add: rx_tally_def)
    then have "rx_tally (rx1\<lparr>rx_ring := cqe_seen U (rx_ring rx1) c\<rparr>)"
      by (simp add: rx_tally_def)
    then show ?thesis
      using Suc.IH [OF P(2)] Suc.prems(3) p Some P(1) by simp
  qed
qed

lemma rx_poll_tally:
  assumes C: "uring_contract U 256 view" and I: "rx_inv view R rx" and T: "rx_tally rx"
    and p: "rx_poll U fuel rx = Inr (n, rx')"
  shows "rx_tally rx'"
proof -
  obtain rx1 where r: "reclaim_buffers U rx = Inr rx1" "drain_cq U fuel 0 (flush_pending U rx1) = Inr (n, rx')"
    using p by (auto simp: rx_poll_def ebind_Inr_iff)
  have "rx_inv view R rx1"
    using reclaim_buffers_inv [OF C I] r(1) by auto
  note f = flush_pending_inv(1) [OF C this]
  have "rx_tally (flush_pending U rx1)"
    using T reclaim_buffers_silent [OF r(1)] by (simp add: rx_tally_def flush_pending_def)
  then show ?thesis
    by (rule drain_cq_tally [OF C f _ r(2)])
qed

subsection \<open>A receiver over the reference ring\<close>

definition demo_raw :: "RawByteSpan channel" where
  "demo_raw = (SPSCQueue_new (\<lambda>_. demo_span), [])"

definition demo_ret :: "u32 SPSCQueue" where
  "demo_ret = SPSCQueue_new (\<lambda>_. 0)"

lemma demo_queues:
  "spsc_ok kPipelineQueueCapacity (fst demo_raw)" "stream kPipelineQueueCapacity demo_raw = []"
  "spsc_ok kBufReturnCapacity demo_ret" "contents kBufReturnCapacity demo_ret = []"
proof -
  have "has_single_bit kBufReturnCapacity"
    by (simp add: has_single_bit_def kBufReturnCapacity_def upt_rec)
  note N = spsc_new_ok [OF this, of "\<lambda>_. 0 :: u32"] spsc_new_ok [OF kPipelineQueueCapacity_single_bit, of "\<lambda>_. demo_span"]
  then show "spsc_ok kPipelineQueueCapacity (fst demo_raw)" "stream kPipelineQueueCapacity demo_raw = []"
    "spsc_ok kBufReturnCapacity demo_ret" "contents kBufReturnCapacity demo_ret = []"
    by (simp_all add: demo_raw_def demo_ret_def stream_def)
qed

lemma demo_init_ring: "\<exists>r. rx_init_ring (sim_uring script) = Inr (False, r)"
  by (simp add: rx_init_ring_def sim_uring_def)

lemma demo_rx:
  obtains rx where "UringReceiver_new (sim_uring script) 0 3 demo_raw [] demo_ret = Inr rx"
    "rx_start (sim_uring script) sim_view \<lparr>sys_rx = rx, sys_returned = 0, sys_mem = (\<lambda>_. 0)\<rparr>"
    "ring_ids (sim_view (rx_ring rx)) = mset_set {..<kNumBufs}" "raw_ch rx = demo_raw"
proof -
  obtain r where r: "rx_init_ring (sim_uring script) = Inr (False, r)"
    using demo_init_ring by blast
  obtain rx where rx: "UringReceiver_new (sim_uring script) 0 3 demo_raw [] demo_ret = Inr rx"
    "ring_ids (sim_view (rx_ring rx)) = mset_set {..<kNumBufs}" "raw_ch rx = demo_raw"
    using UringReceiver_new_inv [OF sim_uring_contract _ r demo_queues, of 3 0 "[]"] by auto
  have start: "rx_init (sim_uring script) \<lparr>sys_rx = rx, sys_returned = 0, sys_mem = (\<lambda>_. 0)\<rparr>"
    unfolding rx_init_def using rx(1) demo_queues
    by (intro conjI exI [of _ 0] exI [of _ 3] exI [of _ demo_raw] exI [of _ "[]"] exI [of _ demo_ret]) simp_all
  from rx show thesis
    using that [of rx] sim_uring_contract [of script] start by (simp add: rx_start_def)
qed

lemma demo_first_completion:
  obtains rx rx' sp where "UringReceiver_new (sim_uring [Some 10]) 0 3 demo_raw [] demo_ret = Inr rx"
    "rx_start (sim_uring [Some 10]) sim_view \<lparr>sys_rx = rx, sys_returned = 0, sys_mem = (\<lambda>_. 0)\<rparr>"
    "rx_step (sim_uring [Some 10]) sim_view \<lparr>sys_rx = rx, sys_returned = 0, sys_mem = (\<lambda>_. 0)\<rparr>
       \<lparr>sys_rx = rx', sys_returned = 0, sys_mem = (\<lambda>_. 0)\<rparr>"
    "stream kPipelineQueueCapacity (raw_ch rx') = [sp]" "rs_len sp = 10"
proof -
  let ?U = "sim_uring [Some 10]"
  obtain rx where rx: "UringReceiver_new ?U 0 3 demo_raw [] demo_ret = Inr rx"
    "rx_start ?U sim_view \<lparr>sys_rx = rx, sys_returned = 0, sys_mem = (\<lambda>_. 0)\<rparr>"
    "ring_ids (sim_view (rx_ring rx)) = mset_set {..<kNumBufs}" "raw_ch rx = demo_raw"
    by (rule demo_rx)
  have arm: "sim_script (rx_ring z') = sim_script (rx_ring z)" if "arm_each ?U is z = Inr z'" for "is" z z'
    using that by (induction "is" arbitrary: z)
      (auto simp: arm_buf_def Let_def ebind_Inr_iff sim_uring_def sim_prep_def split: if_splits)
  have sc: "sim_sq (rx_ring rx) = []" "sim_script (rx_ring rx) = [Some 10]"
    using rx(1) by (auto simp: UringReceiver_new_def arm_all_buffers_def rx_init_ring_def init_fixed_buffers_def
        sim_uring_def Let_def ebind_Inr_iff split: sum.splits dest!: arm [unfolded sim_uring_def])
  have I: "rx_inv sim_view 0 rx"
    using rxp.reachable_inv [OF rx(2) rtranclp.rtrancl_refl] by (simp add: rx_good_def sys_inv_def)
  then have O: "rx_own sim_view 0 {#} rx" and hd: "sim_head (rx_ring rx) = None"
    by (simp_all add: rx_inv_def sim_view_def)
  have "size (ring_ids (sim_view (rx_ring rx))) = 64"
    by (simp add: rx(3) kNumBufs_def)
  then obtain q qs where q: "sim_flight (rx_ring rx) = q # qs"
    using sc(1) by (cases "sim_flight (rx_ring rx)") (auto simp: ring_ids_def outstanding_def sim_view_def)
  then have "q \<in># outstanding (sim_view (rx_ring rx))"
    by (simp add: outstanding_def sim_view_def)
  then have "rq_len q = kBufSize"
    using rx_ownD(5) [OF O] by (metis request.select_convs(3) rx_request_def)
  then obtain c r where p: "peek_cqe ?U (rx_ring rx) = (Some c, r)" "res c = 10"
    using q sc(2) hd by (simp add: sim_uring_def sim_peek_def Let_def kBufSize_def)
  obtain rx1 where x: "process_cqe ?U c (rx\<lparr>rx_ring := r\<rparr>) = Inr rx1"
    using process_cqe_own [OF sim_uring_contract I p(1)] by blast
  let ?sp = "\<lparr>rs_data = Some (recv_buf (rx\<lparr>rx_ring := r\<rparr>) (unat (ucast (user_data c) :: u32))),
    rs_len = of_int (res c), rs_buf_id = ucast (user_data c)\<rparr>"
  have "stream kPipelineQueueCapacity (raw_ch rx1) = [?sp]"
    using process_cqe_stream [OF _ x] rx_ownD(2) [OF O] rx(4) demo_queues(2) p(2) by simp
  then show thesis
    using that [OF rx(1,2), of "rx1\<lparr>rx_ring := cqe_seen ?U (rx_ring rx1) c\<rparr>" ?sp] p(2)
      rx_step.complete [of ?U "\<lparr>sys_rx = rx, sys_returned = 0, sys_mem = (\<lambda>_. 0)\<rparr>" c r rx1 sim_view] p(1) x
    by simp
qed

section \<open>Properties of the inbound path\<close>

text \<open>C16: Every receive buffer is in exactly one place. In every state the receiver, the decoder
  and the kernel can reach, each of the 64 buffers is either with the ring, lent to the decoder
  or on its way back in the return queue; the \<open>buf_armed\<close> flags say exactly which ones the ring
  has; and each span lent to the decoder lies within its own buffer.\<close>

theorem rx_buffers_conserved:
  assumes "rx_start U view s0" and "(rx_step U view)\<^sup>*\<^sup>* s0 s" and "i < kNumBufs"
  shows "count (ring_ids (view (rx_ring (sys_rx s)))) i + count (lent_ids (sys_returned s) (sys_rx s)) i +
      count (returned_ids (sys_rx s)) i = 1 \<and>
    (buf_armed (sys_rx s) ! i \<longleftrightarrow> i \<in># ring_ids (view (rx_ring (sys_rx s)))) \<and>
    list_all (span_ok (sys_rx s)) (lent (sys_returned s) (sys_rx s))"
proof -
  have "rx_own view (sys_returned s) {#} (sys_rx s)"
    using rxp.reachable_inv [OF assms(1,2)] by (simp add: rx_good_def sys_inv_def rx_inv_def)
  note D = rx_ownD [OF this]
  show ?thesis
    using D(6,8) arg_cong [OF D(7), of "\<lambda>M. count M i"] assms(3) by simp
qed

theorem rx_buffers_conserved_witness:
  "case UringReceiver_new (sim_uring []) 0 3 demo_raw [] demo_ret of
     Inr rx \<Rightarrow> buf_armed rx ! 5 \<and> count (ring_ids (sim_view (rx_ring rx))) 5 = 1 \<and> count (lent_ids 0 rx) 5 = 0
   | Inl _ \<Rightarrow> False"
proof -
  obtain rx where rx: "UringReceiver_new (sim_uring []) 0 3 demo_raw [] demo_ret = Inr rx"
    "rx_start (sim_uring []) sim_view \<lparr>sys_rx = rx, sys_returned = 0, sys_mem = (\<lambda>_. 0)\<rparr>"
    "ring_ids (sim_view (rx_ring rx)) = mset_set {..<kNumBufs}"
    by (rule demo_rx)
  have "5 < kNumBufs"
    by (simp add: kNumBufs_def)
  from rx_buffers_conserved [OF rx(2) rtranclp.rtrancl_refl this] show ?thesis
    using rx(1,3) \<open>5 < kNumBufs\<close> by simp
qed

text \<open>C15: The bytes of a span stay as they were received until the decoder hands the buffer back.
  From the moment a span is posted, however the threads and the kernel interleave, the decoder
  finds the same bytes in it for as long as it has not returned that buffer: the receiver never
  re-arms a buffer the decoder may still read.\<close>

theorem rx_spans_stable:
  assumes "rx_start U view s0" and "(rx_step U view)\<^sup>*\<^sup>* s0 s" and "(rx_step U view)\<^sup>*\<^sup>* s t"
    and "i < length (stream kPipelineQueueCapacity (raw_ch (sys_rx s)))" and "sys_returned t \<le> i"
  shows "stream kPipelineQueueCapacity (raw_ch (sys_rx t)) ! i = stream kPipelineQueueCapacity (raw_ch (sys_rx s)) ! i \<and>
    span_bytes (sys_mem t) (stream kPipelineQueueCapacity (raw_ch (sys_rx t)) ! i) =
    span_bytes (sys_mem s) (stream kPipelineQueueCapacity (raw_ch (sys_rx s)) ! i)"
proof -
  have G: "rx_good U view s"
    by (rule rxp.reachable_inv [OF assms(1,2)])
  note S = rx_steps_span [OF G assms(3,4,5)]
  have "stream kPipelineQueueCapacity (raw_ch (sys_rx t)) ! i = stream kPipelineQueueCapacity (raw_ch (sys_rx s)) ! i"
    using S(1) assms(4) by (auto simp: nth_append)
  then show ?thesis
    using S(2) by simp
qed

theorem rx_spans_stable_witness:
  "\<exists>rx rx' ch sp. UringReceiver_new (sim_uring [Some 10]) 0 3 demo_raw [] demo_ret = Inr rx \<and>
     ch = consume kPipelineQueueCapacity 1 (raw_ch rx') \<and> stream kPipelineQueueCapacity ch ! 0 = sp \<and> rs_len sp = 10 \<and>
     rx_step (sim_uring [Some 10]) sim_view \<lparr>sys_rx = rx, sys_returned = 0, sys_mem = (\<lambda>_. 0)\<rparr>
       \<lparr>sys_rx = rx', sys_returned = 0, sys_mem = (\<lambda>_. 0)\<rparr>"
proof -
  let ?U = "sim_uring [Some 10]"
  obtain rx rx' sp where s: "UringReceiver_new ?U 0 3 demo_raw [] demo_ret = Inr rx"
    "rx_start ?U sim_view \<lparr>sys_rx = rx, sys_returned = 0, sys_mem = (\<lambda>_. 0)\<rparr>"
    "rx_step ?U sim_view \<lparr>sys_rx = rx, sys_returned = 0, sys_mem = (\<lambda>_. 0)\<rparr>
       \<lparr>sys_rx = rx', sys_returned = 0, sys_mem = (\<lambda>_. 0)\<rparr>"
    "stream kPipelineQueueCapacity (raw_ch rx') = [sp]" "rs_len sp = 10"
    by (rule demo_first_completion)
  let ?s = "\<lparr>sys_rx = rx', sys_returned = 0, sys_mem = (\<lambda>_. 0)\<rparr>"
  have "rx_step ?U sim_view ?s (?s\<lparr>sys_rx := rx'\<lparr>raw_ch := consume kPipelineQueueCapacity 1 (raw_ch rx')\<rparr>\<rparr>)"
    using rx_step.take_span [of ?U sim_view ?s] by simp
  from rx_spans_stable [OF s(2) r_into_rtranclp [of "rx_step ?U sim_view", OF s(3)]
      r_into_rtranclp [of "rx_step ?U sim_view", OF this], of 0] s
  show ?thesis
    by auto
qed

text \<open>C21: The receiver thread never gets stuck. In every reachable state \<open>poll\<close> returns after at most
  64 completions, without failing an assertion and without waiting for room in the raw queue,
  and what it does is a sequence of the machine's steps; and the decoder always finds room in the
  return queue.\<close>

theorem rx_poll_returns:
  assumes "rx_start U view s0" and "(rx_step U view)\<^sup>*\<^sup>* s0 s" and "65 \<le> fuel"
  shows "(\<exists>n rx'. rx_poll U fuel (sys_rx s) = Inr (n, rx') \<and> (rx_step U view)\<^sup>*\<^sup>* s (s\<lparr>sys_rx := rx'\<rparr>)) \<and>
    (sys_returned s < length (snd (raw_ch (sys_rx s))) \<longrightarrow>
      (\<exists>q. try_push kBufReturnCapacity (ret_q (sys_rx s))
        (rs_buf_id (snd (raw_ch (sys_rx s)) ! sys_returned s)) = (True, q)))"
proof -
  have C: "uring_contract U 256 view" and I: "rx_inv view (sys_returned s) (sys_rx s)"
    using rxp.reachable_inv [OF assms(1,2)] by (simp_all add: rx_good_def sys_inv_def)
  have "kNumBufs < fuel"
    using assms(3) by (simp add: kNumBufs_def)
  from rx_poll_inv [OF C I this] show ?thesis
    using rx_poll_steps return_buffer_inv [OF I] by blast
qed

theorem rx_poll_returns_witness:
  "case UringReceiver_new (sim_uring [Some 10]) 0 3 demo_raw [] demo_ret of
     Inr rx \<Rightarrow> \<exists>n rx'. rx_poll (sim_uring [Some 10]) 65 rx = Inr (n, rx')
   | Inl _ \<Rightarrow> False"
proof -
  obtain rx where rx: "UringReceiver_new (sim_uring [Some 10]) 0 3 demo_raw [] demo_ret = Inr rx"
    "rx_start (sim_uring [Some 10]) sim_view \<lparr>sys_rx = rx, sys_returned = 0, sys_mem = (\<lambda>_. 0)\<rparr>"
    by (rule demo_rx)
  from rx_poll_returns [OF rx(2) rtranclp.rtrancl_refl, of 65] show ?thesis
    using rx(1) by auto
qed

text \<open>Construction. A negative descriptor aborts; when neither a polled nor a plain ring can be
  set up, the constructor throws the error of the second attempt; otherwise it ends with all 64
  buffers with the ring, and it uses a polled ring exactly when the first attempt succeeded.\<close>

theorem receiver_construction:
  assumes "uring_contract U 256 view"
    and "spsc_ok kPipelineQueueCapacity (fst raw)" "stream kPipelineQueueCapacity raw = []"
    and "spsc_ok kBufReturnCapacity ret" "contents kBufReturnCapacity ret = []"
  shows "if fd < 0 then UringReceiver_new U base fd raw ps ret = Inl (Aborted AssertFailed)
    else if fst (queue_init_params U kRxRingDepth IORING_SETUP_SQPOLL kRxSqPollIdle) \<noteq> 0 \<and>
      fst (queue_init U kRxRingDepth 0) < 0
    then UringReceiver_new U base fd raw ps ret = Inl (RingInitFailed (fst (queue_init U kRxRingDepth 0)))
    else \<exists>rx. UringReceiver_new U base fd raw ps ret = Inr rx \<and>
      ring_ids (view (rx_ring rx)) = mset_set {..<kNumBufs} \<and> rx_inv view 0 rx \<and>
      recv_base rx = base"
proof -
  let ?p = "queue_init_params U kRxRingDepth IORING_SETUP_SQPOLL kRxSqPollIdle"
  let ?q = "queue_init U kRxRingDepth 0"
  have i: "rx_init_ring U = (if fst ?p = 0 then Inr (True, snd ?p)
      else if fst ?q < 0 then Inl (RingInitFailed (fst ?q)) else Inr (False, snd ?q))"
    by (simp add: rx_init_ring_def split: prod.split)
  have neg: "UringReceiver_new U base fd raw ps ret = Inl (Aborted AssertFailed)" if "fd < 0"
    using that by (simp add: UringReceiver_new_def)
  have err: "UringReceiver_new U base fd raw ps ret = Inl (RingInitFailed (fst ?q))"
    if "\<not> fd < 0" "fst ?p \<noteq> 0 \<and> fst ?q < 0"
    using that unfolding UringReceiver_new_def i by simp
  have ok: "\<exists>rx. UringReceiver_new U base fd raw ps ret = Inr rx \<and>
      ring_ids (view (rx_ring rx)) = mset_set {..<kNumBufs} \<and> rx_inv view 0 rx \<and> recv_base rx = base"
    if "\<not> fd < 0" "\<not> (fst ?p \<noteq> 0 \<and> fst ?q < 0)"
  proof -
    have "\<exists>sq r. rx_init_ring U = Inr (sq, r)"
      unfolding i using that by auto
    then obtain sq r where sq: "rx_init_ring U = Inr (sq, r)"
      by blast
    have fd: "0 \<le> fd"
      using that(1) by simp
    from UringReceiver_new_inv [OF assms(1) fd sq assms(2-5), of base ps] show ?thesis
      by blast
  qed
  show ?thesis
    using neg err ok by presburger
qed

theorem receiver_construction_witness:
  "\<exists>rx. UringReceiver_new (sim_uring []) 4096 3 demo_raw [] demo_ret = Inr rx \<and> recv_base rx = 4096 \<and>
     ring_ids (sim_view (rx_ring rx)) = mset_set {..<64}"
proof -
  have "fst (queue_init (sim_uring []) kRxRingDepth 0) = 0"
    by (simp add: sim_uring_def)
  then show ?thesis
    using receiver_construction [OF sim_uring_contract [of "[]"] demo_queues, where fd = 3 and base = 4096 and ps = "[]"]
    by (auto simp: kNumBufs_def)
qed

end
