(* ===== verification/Uring_Sender.thy ===== *)
theory Uring_Sender
  imports Uring
begin

section \<open>The sender (\<open>src/src/io/uring_sender.hpp\<close>)\<close>

text \<open>
  \<open>UringSender\<close> takes execution reports from the outbound queue, writes each into a free one
  of its 256 send buffers of 48 bytes and prepares a send request for it. A buffer is free
  again once its completion has been drained. The buffers lie one after the other from
  \<open>send_base\<close> in the sender's memory \<open>tx_mem\<close>.

  All loops have fuel. Draining completions needs at most one unit more than there are requests
  in flight, the loop over the outbound queue one more than there are reports; the busy-wait
  for a free buffer may have no bound at all, see \<open>tx_poll_livelock\<close>.
\<close>

definition kTxRingDepth :: u32 where
  "kTxRingDepth = 256"

definition kNumSendBufs :: nat where
  "kNumSendBufs = 256"

definition kTxSqPollIdle :: u32 where
  "kTxSqPollIdle = 2000"

record 'r UringSender =
  tx_sock_fd :: int
  tx_ring :: 'r
  tx_sqpoll_active :: bool
  tx_pending_sqes :: u32
  send_base :: nat
  tx_mem :: memory
  buf_in_flight :: "bool list"
  free_count :: u32
  out_q :: "ExecutionReport SPSCQueue"
  reports_sent :: u64
  tx_errors :: u64

definition send_buf :: "'r UringSender \<Rightarrow> nat \<Rightarrow> nat" where
  "send_buf tx i = send_base tx + i * sizeof_WireExecReport"

fun alloc_scan :: "bool list \<Rightarrow> nat list \<Rightarrow> nat option" where
  "alloc_scan in_flight [] = None"
| "alloc_scan in_flight (i # is) = (if \<not> in_flight ! i then Some i else alloc_scan in_flight is)"

definition alloc_send_buf :: "'r UringSender \<Rightarrow> fault + (nat \<times> 'r UringSender)" where
  "alloc_send_buf tx =
     (case alloc_scan (buf_in_flight tx) [0..<kNumSendBufs] of
        None \<Rightarrow> Inl AssertFailed
      | Some i \<Rightarrow>
          Inr (i, tx\<lparr>buf_in_flight := (buf_in_flight tx)[i := True], free_count := free_count tx - 1\<rparr>))"

definition free_send_buf :: "nat \<Rightarrow> 'r UringSender \<Rightarrow> fault + 'r UringSender" where
  "free_send_buf i tx =
     (if \<not> i < kNumSendBufs then Inl AssertFailed
      else if \<not> buf_in_flight tx ! i then Inl AssertFailed
      else Inr (tx\<lparr>buf_in_flight := (buf_in_flight tx)[i := False], free_count := free_count tx + 1\<rparr>))"

fun drain_completions :: "'r liburing \<Rightarrow> nat \<Rightarrow> 'r UringSender \<Rightarrow> fault + 'r UringSender" where
  "drain_completions U 0 tx = Inl OutOfFuel"
| "drain_completions U (Suc fuel) tx =
     (case peek_cqe U (tx_ring tx) of
        (None, r) \<Rightarrow> Inr (tx\<lparr>tx_ring := r\<rparr>)
      | (Some c, r) \<Rightarrow>
          let tx = tx\<lparr>tx_ring := cqe_seen U r c\<rparr>;
              tx = (if res c < 0 then tx\<lparr>tx_errors := tx_errors tx + 1\<rparr> else tx)
          in ebind (free_send_buf (unat (ucast (user_data c) :: u32)) tx) (drain_completions U fuel))"

definition flush_sqes :: "'r liburing \<Rightarrow> 'r UringSender \<Rightarrow> 'r UringSender" where
  "flush_sqes U tx =
     (if 0 < tx_pending_sqes tx
      then tx\<lparr>tx_ring := snd (uring_submit U (tx_ring tx)), tx_pending_sqes := 0\<rparr> else tx)"

text \<open>The busy-wait for a free buffer: \<open>n\<close> turns, each draining with \<open>fuel\<close>.\<close>

fun wait_free :: "'r liburing \<Rightarrow> nat \<Rightarrow> nat \<Rightarrow> 'r UringSender \<Rightarrow> fault + 'r UringSender" where
  "wait_free U fuel 0 tx = Inl OutOfFuel"
| "wait_free U fuel (Suc n) tx =
     (if free_count tx = 0 then ebind (drain_completions U fuel tx) (wait_free U fuel n) else Inr tx)"

definition post_send :: "'r liburing \<Rightarrow> nat \<Rightarrow> nat \<Rightarrow> nat \<Rightarrow> 'r UringSender \<Rightarrow> 'r UringSender" where
  "post_send U i len sqe tx =
     (let r1 = prep_send U (tx_ring tx) sqe (tx_sock_fd tx) (send_buf tx i) len MSG_NOSIGNAL;
          r2 = sqe_set_data64 U r1 sqe (of_nat i)
      in tx\<lparr>tx_ring := r2, tx_pending_sqes := tx_pending_sqes tx + 1, reports_sent := reports_sent tx + 1\<rparr>)"

text \<open>One turn of the send loop; the result says whether the report was submitted.\<close>

definition send_report ::
  "'r liburing \<Rightarrow> nat \<Rightarrow> ExecutionReport \<Rightarrow> 'r UringSender \<Rightarrow> fault + (bool \<times> 'r UringSender)" where
  "send_report U fuel report tx =
     ebind (wait_free U fuel fuel tx) (\<lambda>tx.
     ebind (alloc_send_buf tx) (\<lambda>(i, tx).
       let (len, mem) = encode_exec_report report (send_buf tx i) (tx_mem tx);
           tx = tx\<lparr>tx_mem := mem\<rparr>
       in if len \<noteq> sizeof_WireExecReport then Inl AssertFailed
          else case get_sqe U (tx_ring tx) of
              (Some sqe, r) \<Rightarrow> Inr (True, post_send U i len sqe (tx\<lparr>tx_ring := r\<rparr>))
            | (None, r) \<Rightarrow>
                ebind (drain_completions U fuel (flush_sqes U (tx\<lparr>tx_ring := r\<rparr>))) (\<lambda>tx.
                  case get_sqe U (tx_ring tx) of
                    (Some sqe, r) \<Rightarrow> Inr (True, post_send U i len sqe (tx\<lparr>tx_ring := r\<rparr>))
                  | (None, r) \<Rightarrow>
                      ebind (free_send_buf i (tx\<lparr>tx_ring := r\<rparr>)) (\<lambda>tx.
                        Inr (False, tx\<lparr>tx_errors := tx_errors tx + 1\<rparr>)))))"

fun send_loop ::
  "'r liburing \<Rightarrow> nat \<Rightarrow> nat \<Rightarrow> int \<Rightarrow> 'r UringSender \<Rightarrow> fault + (int \<times> 'r UringSender)" where
  "send_loop U fuel 0 submitted tx = Inl OutOfFuel"
| "send_loop U fuel (Suc n) submitted tx =
     (case try_pop kPipelineQueueCapacity (out_q tx) of
        (None, q) \<Rightarrow> Inr (submitted, tx\<lparr>out_q := q\<rparr>)
      | (Some report, q) \<Rightarrow>
          ebind (send_report U fuel report (tx\<lparr>out_q := q\<rparr>)) (\<lambda>(sent, tx).
            send_loop U fuel n (if sent then submitted + 1 else submitted) tx))"

definition tx_poll :: "'r liburing \<Rightarrow> nat \<Rightarrow> 'r UringSender \<Rightarrow> fault + (int \<times> 'r UringSender)" where
  "tx_poll U fuel tx =
     ebind (drain_completions U fuel tx) (\<lambda>tx. send_loop U fuel fuel 0 (flush_sqes U tx))"

subsection \<open>Construction\<close>

definition tx_init_ring :: "'r liburing \<Rightarrow> uring_error + (bool \<times> 'r)" where
  "tx_init_ring U =
     (case queue_init_params U kTxRingDepth IORING_SETUP_SQPOLL kTxSqPollIdle of
        (ret, r) \<Rightarrow>
          if ret = 0 then Inr (True, r)
          else case queue_init U kTxRingDepth 0 of
              (ret, r) \<Rightarrow> if ret < 0 then Inl (RingInitFailed ret) else Inr (False, r))"

definition UringSender_new ::
  "'r liburing \<Rightarrow> nat \<Rightarrow> memory \<Rightarrow> int \<Rightarrow> ExecutionReport SPSCQueue \<Rightarrow> uring_error + 'r UringSender" where
  "UringSender_new U base mem fd out =
     (if fd < 0 then Inl (Aborted AssertFailed)
      else case tx_init_ring U of
          Inl e \<Rightarrow> Inl e
        | Inr (sqpoll, r) \<Rightarrow>
            Inr \<lparr>tx_sock_fd = fd, tx_ring = r, tx_sqpoll_active = sqpoll, tx_pending_sqes = 0,
                 send_base = base, tx_mem = mem, buf_in_flight = replicate kNumSendBufs False,
                 free_count = of_nat kNumSendBufs, out_q = out, reports_sent = 0, tx_errors = 0\<rparr>)"

definition UringSender_destroy :: "'r UringSender \<Rightarrow> os_call list" where
  "UringSender_destroy tx = [TxQueueExit]"

subsection \<open>Which buffers are taken\<close>

text \<open>
  The flags mark exactly the buffers of requests the ring still has, plus those the sender
  holds itself (\<open>hand\<close>), and \<open>free_count\<close> counts the rest.
\<close>

definition tx_request :: "'r UringSender \<Rightarrow> nat \<Rightarrow> request" where
  "tx_request tx i = \<lparr>rq_data = of_nat i, rq_buf = send_buf tx i, rq_len = sizeof_WireExecReport\<rparr>"

definition slot_ids :: "ring_view \<Rightarrow> nat multiset" where
  "slot_ids v = image_mset (\<lambda>q. unat (rq_data q)) (outstanding v)"

definition taken_slots :: "'r UringSender \<Rightarrow> nat set" where
  "taken_slots tx = {i. i < kNumSendBufs \<and> buf_in_flight tx ! i}"

definition tx_own :: "('r \<Rightarrow> ring_view) \<Rightarrow> nat multiset \<Rightarrow> 'r UringSender \<Rightarrow> bool" where
  "tx_own view hand tx \<longleftrightarrow>
     length (buf_in_flight tx) = kNumSendBufs \<and> spsc_ok kPipelineQueueCapacity (out_q tx) \<and>
     (\<forall>q \<in># outstanding (view (tx_ring tx)). q = tx_request tx (unat (rq_data q))) \<and>
     slot_ids (view (tx_ring tx)) + hand = mset_set (taken_slots tx) \<and>
     unat (free_count tx) + card (taken_slots tx) = kNumSendBufs"

definition tx_inv :: "('r \<Rightarrow> ring_view) \<Rightarrow> 'r UringSender \<Rightarrow> bool" where
  "tx_inv view tx \<longleftrightarrow> tx_own view {#} tx \<and> peeked (view (tx_ring tx)) = None"

lemma tx_ownD:
  assumes "tx_own view hand tx"
  shows "length (buf_in_flight tx) = kNumSendBufs" "spsc_ok kPipelineQueueCapacity (out_q tx)"
    "\<And>q. q \<in># outstanding (view (tx_ring tx)) \<Longrightarrow> q = tx_request tx (unat (rq_data q))"
    "slot_ids (view (tx_ring tx)) + hand = mset_set (taken_slots tx)"
    "unat (free_count tx) + card (taken_slots tx) = kNumSendBufs"
  using assms unfolding tx_own_def by blast+

lemma finite_taken [simp]: "finite (taken_slots tx)"
  by (simp add: taken_slots_def)

lemma tx_own_frame:
  assumes "buf_in_flight tx' = buf_in_flight tx" "free_count tx' = free_count tx" "send_base tx' = send_base tx"
    "out_q tx' = out_q tx" "outstanding (view (tx_ring tx')) = outstanding (view (tx_ring tx))"
  shows "tx_own view hand tx' = tx_own view hand tx"
proof -
  have "taken_slots tx' = taken_slots tx" "tx_request tx' = tx_request tx"
    using assms by (simp_all add: taken_slots_def tx_request_def send_buf_def fun_eq_iff)
  then show ?thesis
    unfolding tx_own_def slot_ids_def assms by simp
qed

lemma tx_own_size:
  assumes "tx_own view hand tx"
  shows "size (outstanding (view (tx_ring tx))) + size hand + unat (free_count tx) = kNumSendBufs"
  using arg_cong [OF tx_ownD(4) [OF assms], of size] tx_ownD(5) [OF assms] by (simp add: slot_ids_def)

lemma taken_free: "i < kNumSendBufs \<Longrightarrow> length (buf_in_flight tx) = kNumSendBufs \<Longrightarrow>
  taken_slots (tx\<lparr>buf_in_flight := (buf_in_flight tx)[i := False], free_count := k\<rparr>) = taken_slots tx - {i}"
  by (auto simp: taken_slots_def nth_list_update)

lemma taken_alloc: "i < kNumSendBufs \<Longrightarrow> length (buf_in_flight tx) = kNumSendBufs \<Longrightarrow>
  taken_slots (tx\<lparr>buf_in_flight := (buf_in_flight tx)[i := True], free_count := k\<rparr>) = insert i (taken_slots tx)"
  by (auto simp: taken_slots_def nth_list_update)

lemma mset_set_member:
  assumes "add_mset x A = mset_set B" and "finite B"
  shows "x \<in> B" "A = mset_set (B - {x})"
proof -
  have "x \<in># mset_set B"
    by (simp add: assms(1) [symmetric])
  then show "x \<in> B"
    using assms(2) by simp
  then show "A = mset_set (B - {x})"
    using assms by (metis add_mset_remove_trivial mset_set_Diff finite.intros(1) mset_set.insert_remove
        mset_set_empty_iff insert_Diff_single mset_set.remove add_mset_add_single add_right_cancel)
qed

lemma free_send_buf_own:
  assumes O: "tx_own view (add_mset i H) tx"
  shows "\<exists>tx'. free_send_buf i tx = Inr tx' \<and> tx_own view H tx' \<and>
    tx' = tx\<lparr>buf_in_flight := (buf_in_flight tx)[i := False], free_count := free_count tx + 1\<rparr>"
proof -
  let ?tx = "tx\<lparr>buf_in_flight := (buf_in_flight tx)[i := False], free_count := free_count tx + 1\<rparr>"
  note D = tx_ownD [OF O]
  have "add_mset i (slot_ids (view (tx_ring tx)) + H) = mset_set (taken_slots tx)"
    using D(4) by simp
  note M = mset_set_member [OF this finite_taken]
  have i: "i < kNumSendBufs" "buf_in_flight tx ! i"
    using M(1) by (simp_all add: taken_slots_def)
  have t: "taken_slots ?tx = taken_slots tx - {i}"
    using i D(1) by (simp add: taken_free)
  have c: "Suc (card (taken_slots ?tx)) = card (taken_slots tx)"
    unfolding t using M(1) by (metis card_Suc_Diff1 finite_taken)
  then have "unat (free_count tx) < 256"
    using D(5) by (simp add: kNumSendBufs_def)
  then have "unat (free_count tx + 1) = Suc (unat (free_count tx))"
    by (intro unat_Suc_word) simp
  then have f: "unat (free_count ?tx) + card (taken_slots ?tx) = kNumSendBufs"
    using D(5) c by simp
  have r: "tx_request ?tx = tx_request tx"
    by (simp add: tx_request_def send_buf_def fun_eq_iff)
  have "tx_own view H ?tx"
    unfolding tx_own_def r using D f M(2) t by simp
  then show ?thesis
    using i by (simp add: free_send_buf_def)
qed

lemma alloc_scan_Some: "alloc_scan fl is = Some i \<Longrightarrow> i \<in> set is \<and> \<not> fl ! i"
  by (induction "is") (auto split: if_splits)

lemma alloc_scan_None: "alloc_scan fl is = None \<Longrightarrow> i \<in> set is \<Longrightarrow> fl ! i"
  by (induction "is") (auto split: if_splits)

lemma alloc_send_buf_own:
  assumes O: "tx_own view H tx" and f: "free_count tx \<noteq> 0"
  shows "\<exists>i tx'. alloc_send_buf tx = Inr (i, tx') \<and> tx_own view (add_mset i H) tx' \<and> i \<notin> taken_slots tx \<and>
    i < kNumSendBufs \<and>
    tx' = tx\<lparr>buf_in_flight := (buf_in_flight tx)[i := True], free_count := free_count tx - 1\<rparr>"
proof -
  note D = tx_ownD [OF O]
  have "alloc_scan (buf_in_flight tx) [0..<kNumSendBufs] \<noteq> None"
  proof
    assume "alloc_scan (buf_in_flight tx) [0..<kNumSendBufs] = None"
    then have "taken_slots tx = {..<kNumSendBufs}"
      by (auto simp: taken_slots_def dest: alloc_scan_None)
    then show False
      using D(5) f by (simp add: unat_eq_0)
  qed
  then obtain i where s: "alloc_scan (buf_in_flight tx) [0..<kNumSendBufs] = Some i"
    by blast
  let ?tx = "tx\<lparr>buf_in_flight := (buf_in_flight tx)[i := True], free_count := free_count tx - 1\<rparr>"
  have i: "i < kNumSendBufs" "i \<notin> taken_slots tx"
    using alloc_scan_Some [OF s] by (auto simp: taken_slots_def)
  have t: "taken_slots ?tx = insert i (taken_slots tx)"
    using i D(1) by (simp add: taken_alloc)
  obtain k where k: "unat (free_count tx) = Suc k"
    using f by (cases "unat (free_count tx)") (auto simp: unat_eq_0)
  have c: "unat (free_count ?tx) + card (taken_slots ?tx) = kNumSendBufs"
    using D(5) i(2) k unat_pred_word [OF k] by (simp add: t)
  have r: "tx_request ?tx = tx_request tx"
    by (simp add: tx_request_def send_buf_def fun_eq_iff)
  have "slot_ids (view (tx_ring tx)) + add_mset i H = mset_set (insert i (taken_slots tx))"
    using D(4) i(2) by simp
  then have "tx_own view (add_mset i H) ?tx"
    unfolding tx_own_def r t using D c t by simp
  then show ?thesis
    using s i by (simp add: alloc_send_buf_def)
qed

subsection \<open>Draining completions\<close>

definition drained :: "('r \<Rightarrow> ring_view) \<Rightarrow> 'r UringSender \<Rightarrow> 'r UringSender \<Rightarrow> bool" where
  "drained view tx tx' \<longleftrightarrow>
     tx_inv view tx' \<and> prepared (view (tx_ring tx')) = prepared (view (tx_ring tx)) \<and>
     inflight (view (tx_ring tx')) \<subseteq># inflight (view (tx_ring tx)) \<and>
     unat (free_count tx) \<le> unat (free_count tx') \<and>
     out_q tx' = out_q tx \<and> tx_mem tx' = tx_mem tx \<and> send_base tx' = send_base tx \<and>
     tx_pending_sqes tx' = tx_pending_sqes tx \<and> reports_sent tx' = reports_sent tx"

lemma drained_trans: "drained view a b \<Longrightarrow> drained view b c \<Longrightarrow> drained view a c"
  unfolding drained_def by (auto intro: subset_mset.order_trans)

lemma drain_one:
  assumes C: "uring_contract U 256 view" and I: "tx_inv view tx"
    and p: "peek_cqe U (tx_ring tx) = (Some c, r)"
  defines "tx1 \<equiv> tx\<lparr>tx_ring := cqe_seen U r c, tx_errors := if res c < 0 then tx_errors tx + 1 else tx_errors tx\<rparr>"
  shows "\<exists>tx'. free_send_buf (unat (ucast (user_data c) :: u32)) tx1 = Inr tx' \<and> drained view tx tx' \<and>
    size (inflight (view (tx_ring tx'))) < size (inflight (view (tx_ring tx)))"
proof -
  let ?v = "view (tx_ring tx)"
  have O: "tx_own view {#} tx" and pk: "peeked ?v = None"
    using I by (simp_all add: tx_inv_def)
  note D = tx_ownD [OF O]
  obtain q where q: "q \<in># inflight ?v" "user_data c = rq_data q"
    "view r = ?v\<lparr>inflight := inflight ?v - {#q#}, peeked := Some c\<rparr>"
    using peek_some [OF C p pk] by blast
  define i where "i = unat (rq_data q)"
  have v: "view (cqe_seen U r c) = ?v\<lparr>inflight := inflight ?v - {#q#}, peeked := None\<rparr>"
    using seen_view [OF C, of r c] q(3) by simp
  have out: "outstanding ?v = add_mset q (outstanding (view (cqe_seen U r c)))"
    using q(1) by (simp add: outstanding_def v)
  have ids: "slot_ids ?v = add_mset i (slot_ids (view (cqe_seen U r c)))"
    by (simp add: slot_ids_def out i_def)
  have "i \<in> taken_slots tx"
    using mset_set_member(1) [OF _ finite_taken] D(4) by (simp add: ids)
  then have il: "i < kNumSendBufs"
    by (simp add: taken_slots_def)
  then have id: "unat (ucast (user_data c) :: u32) = i"
    by (simp add: q(2) i_def unsigned_ucast_eq kNumSendBufs_def take_bit_nat_eq_self)
  have t: "taken_slots tx1 = taken_slots tx" "tx_request tx1 = tx_request tx"
    by (simp_all add: taken_slots_def tx1_def tx_request_def send_buf_def fun_eq_iff)
  have "tx_own view {#i#} tx1"
    unfolding tx_own_def t using D ids out by (simp add: tx1_def)
  from free_send_buf_own [OF this] obtain tx' where F: "free_send_buf i tx1 = Inr tx'" "tx_own view {#} tx'"
    "tx' = tx1\<lparr>buf_in_flight := (buf_in_flight tx1)[i := False], free_count := free_count tx1 + 1\<rparr>"
    by blast
  have "size (outstanding (view (tx_ring tx'))) < size (outstanding ?v)"
    by (simp add: F(3) tx1_def out)
  then have "unat (free_count tx) \<le> unat (free_count tx')"
    using tx_own_size [OF F(2)] tx_own_size [OF O] by simp
  then have "drained view tx tx'"
    unfolding drained_def tx_inv_def using F(2) v by (simp add: F(3) tx1_def)
  moreover have "size (inflight (view (tx_ring tx'))) < size (inflight ?v)"
    using size_Diff1_less [OF q(1)] by (simp add: F(3) tx1_def v)
  ultimately show ?thesis
    using F(1) id by auto
qed

lemma drain_completions_result:
  assumes C: "uring_contract U 256 view"
  shows "tx_inv view tx \<Longrightarrow>
    (\<forall>tx'. drain_completions U fuel tx = Inr tx' \<longrightarrow> drained view tx tx') \<and>
    (\<forall>f. drain_completions U fuel tx = Inl f \<longrightarrow> f = OutOfFuel) \<and>
    (size (inflight (view (tx_ring tx))) < fuel \<longrightarrow> (\<exists>tx'. drain_completions U fuel tx = Inr tx'))"
proof (induction fuel arbitrary: tx)
  case 0
  then show ?case by simp
next
  case (Suc fuel)
  obtain x r where p: "peek_cqe U (tx_ring tx) = (x, r)"
    by fastforce
  show ?case
  proof (cases x)
    case None
    have v: "view r = view (tx_ring tx)"
      using peek_none [OF C] p None by simp
    have "tx_own view {#} (tx\<lparr>tx_ring := r\<rparr>) = tx_own view {#} tx"
      by (rule tx_own_frame) (simp_all add: v)
    then have "drained view tx (tx\<lparr>tx_ring := r\<rparr>)"
      using Suc.prems v by (simp add: drained_def tx_inv_def)
    then show ?thesis
      using p None by simp
  next
    case (Some c)
    let ?tx1 = "tx\<lparr>tx_ring := cqe_seen U r c, tx_errors := if res c < 0 then tx_errors tx + 1 else tx_errors tx\<rparr>"
    obtain tx2 where F: "free_send_buf (unat (ucast (user_data c) :: u32)) ?tx1 = Inr tx2" "drained view tx tx2"
      "size (inflight (view (tx_ring tx2))) < size (inflight (view (tx_ring tx)))"
      using drain_one [OF C Suc.prems] p Some by blast
    have e: "(if res c < 0 then tx\<lparr>tx_ring := cqe_seen U r c, tx_errors := tx_errors tx + 1\<rparr>
        else tx\<lparr>tx_ring := cqe_seen U r c\<rparr>) = ?tx1"
      by simp
    have step: "drain_completions U (Suc fuel) tx = drain_completions U fuel tx2"
      using p Some F(1) e by (cases "res c < 0") (simp_all add: Let_def)
    have "tx_inv view tx2"
      using F(2) by (simp add: drained_def)
    note IH = Suc.IH [OF this]
    have "size (inflight (view (tx_ring tx2))) < fuel" if "size (inflight (view (tx_ring tx))) < Suc fuel"
      using that F(3) by simp
    then show ?thesis
      unfolding step using IH drained_trans [OF F(2)] by blast
  qed
qed

lemma drained_nothing:
  assumes "drained view tx tx'" and "inflight (view (tx_ring tx)) = {#}" and "tx_inv view tx"
  shows "inflight (view (tx_ring tx')) = {#}" "free_count tx' = free_count tx"
proof -
  show e: "inflight (view (tx_ring tx')) = {#}"
    using assms(1,2) by (simp add: drained_def)
  have "outstanding (view (tx_ring tx')) = outstanding (view (tx_ring tx))"
    using assms(1,2) e by (simp add: drained_def outstanding_def)
  then have "unat (free_count tx') = unat (free_count tx)"
    using assms(1,3) tx_own_size [of view "{#}" tx] tx_own_size [of view "{#}" tx']
    by (simp add: drained_def tx_inv_def)
  then show "free_count tx' = free_count tx"
    by (simp add: word_unat_eq_iff)
qed

subsection \<open>Sending one report\<close>

text \<open>
  What one turn of the loop does when a buffer is free: the report's bytes are in a buffer no
  other request uses, and its request is the last prepared one. The branch that gives up on
  a report is never taken, because a full submission queue would need 256 requests, and the
  allocated buffer belongs to none yet.
\<close>

definition sent_report ::
  "('r \<Rightarrow> ring_view) \<Rightarrow> ExecutionReport \<Rightarrow> nat \<Rightarrow> 'r UringSender \<Rightarrow> 'r UringSender \<Rightarrow> bool" where
  "sent_report view rep i tx tx' \<longleftrightarrow>
     tx_inv view tx' \<and> i < kNumSendBufs \<and> i \<notin> taken_slots tx \<and>
     prepared (view (tx_ring tx')) = prepared (view (tx_ring tx)) @ [tx_request tx i] \<and>
     inflight (view (tx_ring tx')) = inflight (view (tx_ring tx)) \<and>
     taken_slots tx' = insert i (taken_slots tx) \<and> Suc (unat (free_count tx')) = unat (free_count tx) \<and>
     tx_mem tx' = memcpy_to (tx_mem tx) (send_buf tx i) (bytes_of_WireExecReport (wire_of_report rep)) \<and>
     out_q tx' = out_q tx \<and> send_base tx' = send_base tx \<and> tx_errors tx' = tx_errors tx \<and>
     reports_sent tx' = reports_sent tx + 1"

lemma send_report_free:
  assumes C: "uring_contract U 256 view" and I: "tx_inv view tx" and f: "free_count tx \<noteq> 0" and n: "0 < fuel"
  shows "\<exists>i tx'. send_report U fuel rep tx = Inr (True, tx') \<and> sent_report view rep i tx tx'"
proof -
  let ?v = "view (tx_ring tx)"
  have O: "tx_own view {#} tx" and pk: "peeked ?v = None"
    using I by (simp_all add: tx_inv_def)
  have w: "wait_free U fuel fuel tx = Inr tx"
    using f n by (cases fuel) simp_all
  obtain i tx1 where A: "alloc_send_buf tx = Inr (i, tx1)" "tx_own view {#i#} tx1" "i \<notin> taken_slots tx" "i < kNumSendBufs"
    "tx1 = tx\<lparr>buf_in_flight := (buf_in_flight tx)[i := True], free_count := free_count tx - 1\<rparr>"
    using alloc_send_buf_own [OF O f] by auto
  define mem where "mem = memcpy_to (tx_mem tx) (send_buf tx i) (bytes_of_WireExecReport (wire_of_report rep))"
  have "length (prepared ?v) + size (inflight ?v) < 256"
    using tx_own_size [OF A(2)] by (simp add: A(5) size_outstanding kNumSendBufs_def)
  then obtain s r where g: "get_sqe U (tx_ring tx) = (Some s, r)"
    using get_sqe_room [OF C] by blast
  let ?tx2 = "post_send U i sizeof_WireExecReport s (tx1\<lparr>tx_mem := mem, tx_ring := r\<rparr>)"
  have run: "send_report U fuel rep tx = Inr (True, ?tx2)"
    using w A(1) g by (simp add: send_report_def encode_exec_report_def mem_def A(5) send_buf_def)
  have v: "view (tx_ring ?tx2) = ?v\<lparr>prepared := prepared ?v @ [tx_request tx i]\<rparr>"
    using get_sqe_some(2) [OF C g] by (simp add: post_send_def Let_def tx_request_def A(5) send_buf_def)
  have id: "unat (rq_data (tx_request tx i)) = i"
    using A(4) by (simp add: tx_request_def kNumSendBufs_def unat_of_nat_small)
  have f2: "buf_in_flight ?tx2 = buf_in_flight tx1" "free_count ?tx2 = free_count tx1" "out_q ?tx2 = out_q tx1"
    "send_base ?tx2 = send_base tx" "tx_errors ?tx2 = tx_errors tx" "reports_sent ?tx2 = reports_sent tx + 1"
    "tx_mem ?tx2 = mem" "tx_ring tx1 = tx_ring tx"
    by (simp_all add: post_send_def Let_def A(5))
  have t: "taken_slots ?tx2 = taken_slots tx1" "tx_request ?tx2 = tx_request tx"
    by (simp_all add: taken_slots_def tx_request_def send_buf_def fun_eq_iff f2)
  have t1: "tx_request tx1 = tx_request tx"
    by (simp add: tx_request_def send_buf_def fun_eq_iff A(5))
  have out: "outstanding (view (tx_ring ?tx2)) = add_mset (tx_request tx i) (outstanding ?v)"
    by (simp add: v outstanding_def)
  have "tx_own view {#} ?tx2"
    unfolding tx_own_def t f2(1,2,3) using tx_ownD [OF A(2)] f2(8) t1
    by (auto simp: out id slot_ids_def)
  then have inv: "tx_inv view ?tx2"
    using pk by (simp add: tx_inv_def v)
  have tk: "taken_slots tx1 = insert i (taken_slots tx)"
    using A(4,5) tx_ownD(1) [OF O] by (simp add: taken_alloc)
  obtain k where k: "unat (free_count tx) = Suc k"
    using f by (cases "unat (free_count tx)") (auto simp: unat_eq_0)
  have fc: "Suc (unat (free_count ?tx2)) = unat (free_count tx)"
    unfolding f2(2) using unat_pred_word [OF k] k by (simp add: A(5))
  have q: "out_q tx1 = out_q tx"
    by (simp add: A(5))
  have "sent_report view rep i tx ?tx2"
    unfolding sent_report_def using inv A(3,4) v t(1) tk fc f2 q by (simp add: mem_def)
  then show ?thesis
    using run by blast
qed

lemma wait_free_result:
  assumes C: "uring_contract U 256 view"
  shows "tx_inv view tx \<Longrightarrow>
    (\<forall>tx'. wait_free U fuel n tx = Inr tx' \<longrightarrow> drained view tx tx' \<and> free_count tx' \<noteq> 0) \<and>
    (\<forall>f. wait_free U fuel n tx = Inl f \<longrightarrow> f = OutOfFuel)"
proof (induction n arbitrary: tx)
  case 0
  then show ?case by simp
next
  case (Suc n)
  show ?case
  proof (cases "free_count tx = 0")
    case False
    then show ?thesis
      using Suc.prems by (simp add: drained_def)
  next
    case True
    note R = drain_completions_result [OF C Suc.prems, of fuel]
    show ?thesis
    proof (cases "drain_completions U fuel tx")
      case (Inl f)
      then show ?thesis
        using R True by simp
    next
      case (Inr tx1)
      then have d: "drained view tx tx1"
        using R by blast
      then have "tx_inv view tx1"
        by (simp add: drained_def)
      note IH = Suc.IH [OF this]
      have "wait_free U fuel (Suc n) tx = wait_free U fuel n tx1"
        using True Inr by simp
      then show ?thesis
        using IH drained_trans [OF d] by auto
    qed
  qed
qed

lemma send_report_result:
  assumes C: "uring_contract U 256 view" and I: "tx_inv view tx" and r: "send_report U fuel rep tx = Inr (b, tx')"
  shows "b \<and> (\<exists>i tx1. drained view tx tx1 \<and> sent_report view rep i tx1 tx')"
proof -
  obtain tx1 where w: "wait_free U fuel fuel tx = Inr tx1"
    using r by (auto simp: send_report_def ebind_Inr_iff)
  have d: "drained view tx tx1" "free_count tx1 \<noteq> 0"
    using wait_free_result [OF C I] w by blast+
  have n: "0 < fuel"
    using w by (cases fuel) auto
  have I1: "tx_inv view tx1"
    using d(1) by (simp add: drained_def)
  have "send_report U fuel rep tx = send_report U fuel rep tx1"
    using w d(2) n by (cases fuel) (simp_all add: send_report_def)
  then obtain i where "b" "sent_report view rep i tx1 tx'"
    using send_report_free [OF C I1 d(2) n, of rep] r by auto
  then show ?thesis
    using d(1) by blast
qed

subsection \<open>The send loop\<close>

text \<open>
  \<open>rs\<close> were sent from the buffers \<open>slots\<close>: their requests are the last prepared ones in the
  order of the reports, each buffer holds the encoding of its report, and no buffer that was
  taken before has been touched.
\<close>

definition sent_all ::
  "('r \<Rightarrow> ring_view) \<Rightarrow> ExecutionReport list \<Rightarrow> nat list \<Rightarrow> 'r UringSender \<Rightarrow> 'r UringSender \<Rightarrow> bool" where
  "sent_all view rs slots tx tx' \<longleftrightarrow>
     tx_inv view tx' \<and> length slots = length rs \<and> distinct slots \<and> set slots \<inter> taken_slots tx = {} \<and>
     taken_slots tx' = taken_slots tx \<union> set slots \<and>
     prepared (view (tx_ring tx')) = prepared (view (tx_ring tx)) @ map (tx_request tx) slots \<and>
     inflight (view (tx_ring tx')) = inflight (view (tx_ring tx)) \<and>
     (\<forall>j < length rs. bytes_at (tx_mem tx') (send_buf tx (slots ! j)) sizeof_WireExecReport =
        bytes_of_WireExecReport (wire_of_report (rs ! j))) \<and>
     (\<forall>i \<in> taken_slots tx. bytes_at (tx_mem tx') (send_buf tx i) sizeof_WireExecReport =
        bytes_at (tx_mem tx) (send_buf tx i) sizeof_WireExecReport) \<and>
     send_base tx' = send_base tx \<and> tx_errors tx' = tx_errors tx \<and>
     reports_sent tx' = reports_sent tx + of_nat (length rs)"

lemma send_bufs_apart:
  assumes "i \<noteq> j"
  shows "bytes_at (memcpy_to mem (send_buf tx i) (bytes_of_WireExecReport w)) (send_buf tx j) sizeof_WireExecReport =
    bytes_at mem (send_buf tx j) sizeof_WireExecReport"
proof (rule bytes_at_memcpy_other)
  show "send_buf tx j + sizeof_WireExecReport \<le> send_buf tx i \<or>
      send_buf tx i + length (bytes_of_WireExecReport w) \<le> send_buf tx j"
    using slices_apart [OF assms, of sizeof_WireExecReport] by (auto simp: send_buf_def exec_report.enc_length)
qed

lemma sent_all_Nil: "tx_inv view tx \<Longrightarrow> sent_all view [] [] tx tx"
  by (simp add: sent_all_def)

lemma sent_all_Cons:
  assumes A: "sent_report view r i tx tx1" and B: "sent_all view rs slots tx1 tx2"
  shows "sent_all view (r # rs) (i # slots) tx tx2"
proof -
  have base: "send_base tx1 = send_base tx"
    using A by (simp add: sent_report_def)
  then have e: "send_buf tx1 = send_buf tx" "tx_request tx1 = tx_request tx"
    by (simp_all add: send_buf_def tx_request_def fun_eq_iff)
  have t: "taken_slots tx1 = insert i (taken_slots tx)" "i \<notin> taken_slots tx"
    using A by (simp_all add: sent_report_def)
  have m: "tx_mem tx1 = memcpy_to (tx_mem tx) (send_buf tx i) (bytes_of_WireExecReport (wire_of_report r))"
    using A by (simp add: sent_report_def)
  have i1: "bytes_at (tx_mem tx1) (send_buf tx i) sizeof_WireExecReport = bytes_of_WireExecReport (wire_of_report r)"
    by (simp add: m exec_report.enc_length)
  have keep: "bytes_at (tx_mem tx2) (send_buf tx j) sizeof_WireExecReport =
      bytes_at (tx_mem tx1) (send_buf tx j) sizeof_WireExecReport" if "j \<in> insert i (taken_slots tx)" for j
    using B that by (auto simp: sent_all_def e t(1))
  have old: "bytes_at (tx_mem tx2) (send_buf tx j) sizeof_WireExecReport =
      bytes_at (tx_mem tx) (send_buf tx j) sizeof_WireExecReport" if "j \<in> taken_slots tx" for j
    using keep [of j] that t(2) send_bufs_apart [of i j] by (auto simp: m)
  have new: "bytes_at (tx_mem tx2) (send_buf tx ((i # slots) ! j)) sizeof_WireExecReport =
      bytes_of_WireExecReport (wire_of_report ((r # rs) ! j))" if "j < Suc (length rs)" for j
    using that keep [of i] i1 B by (cases j) (simp_all add: sent_all_def e)
  show ?thesis
    unfolding sent_all_def using A B t old new
    by (auto simp: sent_all_def sent_report_def e base)
qed

lemma tx_inv_out_q:
  "tx_inv view tx \<Longrightarrow> spsc_ok kPipelineQueueCapacity q \<Longrightarrow> tx_inv view (tx\<lparr>out_q := q\<rparr>)"
  by (simp add: tx_inv_def tx_own_def taken_slots_def tx_request_def send_buf_def)

lemma sent_all_out_q:
  "sent_all view rs slots (tx\<lparr>out_q := q\<rparr>) tx' = sent_all view rs slots tx tx'"
proof -
  have "taken_slots (tx\<lparr>out_q := q\<rparr>) = taken_slots tx" "send_buf (tx\<lparr>out_q := q\<rparr>) = send_buf tx"
    "tx_request (tx\<lparr>out_q := q\<rparr>) = tx_request tx"
    by (simp_all add: taken_slots_def send_buf_def tx_request_def fun_eq_iff)
  then show ?thesis
    by (simp add: sent_all_def)
qed

lemma send_loop_sends:
  assumes C: "uring_contract U 256 view" and F: "0 < fuel"
  shows "tx_inv view tx \<Longrightarrow> contents kPipelineQueueCapacity (out_q tx) = rs \<Longrightarrow> length rs \<le> unat (free_count tx) \<Longrightarrow>
    length rs < n \<Longrightarrow> \<exists>slots tx'. send_loop U fuel n k tx = Inr (k + int (length rs), tx') \<and>
      sent_all view rs slots tx tx' \<and> contents kPipelineQueueCapacity (out_q tx') = []"
proof (induction rs arbitrary: n k tx)
  case Nil
  then obtain m where n: "n = Suc m"
    by (cases n) simp_all
  have "try_pop kPipelineQueueCapacity (out_q tx) = (None, out_q tx)"
    using Nil.prems(2) by (rule try_pop_empty)
  then show ?case
    using n Nil.prems sent_all_Nil [OF Nil.prems(1)] by auto
next
  case (Cons r rs)
  obtain m where n: "n = Suc m"
    using Cons.prems(4) by (cases n) simp_all
  have "spsc_ok kPipelineQueueCapacity (out_q tx)"
    using Cons.prems(1) tx_ownD(2) by (auto simp: tx_inv_def)
  from try_pop_cons [OF this Cons.prems(2)]
  obtain q where q: "try_pop kPipelineQueueCapacity (out_q tx) = (Some r, q)" "spsc_ok kPipelineQueueCapacity q"
    "contents kPipelineQueueCapacity q = rs"
    by blast
  let ?tx = "tx\<lparr>out_q := q\<rparr>"
  have I: "tx_inv view ?tx"
    using Cons.prems(1) q(2) by (rule tx_inv_out_q)
  have fc: "free_count ?tx \<noteq> 0"
    using Cons.prems(3) by auto
  obtain i tx1 where s: "send_report U fuel r ?tx = Inr (True, tx1)" "sent_report view r i ?tx tx1"
    using send_report_free [OF C I fc F] by blast
  have "tx_inv view tx1" "contents kPipelineQueueCapacity (out_q tx1) = rs" "length rs \<le> unat (free_count tx1)"
    using s(2) q(3) Cons.prems(3) by (simp_all add: sent_report_def)
  moreover have "length rs < m"
    using Cons.prems(4) n by simp
  ultimately obtain slots tx2 where L: "send_loop U fuel m (k + 1) tx1 = Inr (k + 1 + int (length rs), tx2)"
    "sent_all view rs slots tx1 tx2" "contents kPipelineQueueCapacity (out_q tx2) = []"
    using Cons.IH by blast
  have "send_loop U fuel n k tx = Inr (k + int (length (r # rs)), tx2)"
    using n q(1) s(1) L(1) by simp
  then show ?case
    using sent_all_Cons [OF s(2) L(2)] L(3) by (auto simp: sent_all_out_q)
qed

text \<open>Whatever the number of reports: a loop that returns has submitted all of them.\<close>

lemma send_loop_complete:
  assumes C: "uring_contract U 256 view"
  shows "tx_inv view tx \<Longrightarrow> send_loop U fuel n k tx = Inr (k', tx') \<Longrightarrow>
    tx_inv view tx' \<and> k' = k + int (length (contents kPipelineQueueCapacity (out_q tx))) \<and>
    contents kPipelineQueueCapacity (out_q tx') = [] \<and>
    reports_sent tx' = reports_sent tx + of_nat (length (contents kPipelineQueueCapacity (out_q tx)))"
proof (induction n arbitrary: k tx)
  case 0
  then show ?case by simp
next
  case (Suc n)
  have ok: "spsc_ok kPipelineQueueCapacity (out_q tx)"
    using Suc.prems(1) tx_ownD(2) by (auto simp: tx_inv_def)
  show ?case
  proof (cases "contents kPipelineQueueCapacity (out_q tx)")
    case Nil
    then show ?thesis
      using Suc.prems try_pop_empty [OF Nil] by simp
  next
    case (Cons r rs)
    obtain q where q: "try_pop kPipelineQueueCapacity (out_q tx) = (Some r, q)" "spsc_ok kPipelineQueueCapacity q"
      "contents kPipelineQueueCapacity q = rs"
      using try_pop_cons [OF ok Cons] by blast
    let ?tx = "tx\<lparr>out_q := q\<rparr>"
    have I: "tx_inv view ?tx"
      using Suc.prems(1) q(2) by (rule tx_inv_out_q)
    obtain b tx1 where s: "send_report U fuel r ?tx = Inr (b, tx1)"
      "send_loop U fuel n (if b then k + 1 else k) tx1 = Inr (k', tx')"
      using Suc.prems(2) q(1) by (auto simp: ebind_Inr_iff)
    obtain i tx0 where R: "b" "drained view ?tx tx0" "sent_report view r i tx0 tx1"
      using send_report_result [OF C I s(1)] by blast
    have T: "tx_inv view tx1" "out_q tx1 = q" "reports_sent tx1 = reports_sent tx + 1"
      using R(2,3) by (simp_all add: drained_def sent_report_def)
    show ?thesis
      using Suc.IH [OF T(1) s(2)] R(1) T q(3) by (simp add: Cons del: length_contents)
  qed
qed

subsection \<open>The loop that never ends\<close>

lemma wait_free_stuck:
  assumes C: "uring_contract U 256 view"
  shows "tx_inv view tx \<Longrightarrow> inflight (view (tx_ring tx)) = {#} \<Longrightarrow> free_count tx = 0 \<Longrightarrow>
    wait_free U fuel n tx = Inl OutOfFuel"
proof (induction n arbitrary: tx)
  case 0
  then show ?case by simp
next
  case (Suc n)
  note R = drain_completions_result [OF C Suc.prems(1), of fuel]
  show ?case
  proof (cases "drain_completions U fuel tx")
    case (Inl f)
    then show ?thesis
      using R Suc.prems(3) by simp
  next
    case (Inr tx1)
    then have d: "drained view tx tx1"
      using R by blast
    note N = drained_nothing [OF d Suc.prems(2,1)]
    have "tx_inv view tx1"
      using d by (simp add: drained_def)
    from Suc.IH [OF this N(1)] show ?thesis
      using N(2) Suc.prems(3) Inr by simp
  qed
qed

lemma send_loop_stuck:
  assumes C: "uring_contract U 256 view"
  shows "tx_inv view tx \<Longrightarrow> inflight (view (tx_ring tx)) = {#} \<Longrightarrow>
    unat (free_count tx) < length (contents kPipelineQueueCapacity (out_q tx)) \<Longrightarrow>
    send_loop U fuel n k tx = Inl OutOfFuel"
proof (induction n arbitrary: k tx)
  case 0
  then show ?case by simp
next
  case (Suc n)
  have ok: "spsc_ok kPipelineQueueCapacity (out_q tx)"
    using Suc.prems(1) tx_ownD(2) by (auto simp: tx_inv_def)
  obtain r rs where c: "contents kPipelineQueueCapacity (out_q tx) = r # rs"
    using Suc.prems(3) by (cases "contents kPipelineQueueCapacity (out_q tx)") (auto simp del: length_contents)
  obtain q where q: "try_pop kPipelineQueueCapacity (out_q tx) = (Some r, q)" "spsc_ok kPipelineQueueCapacity q"
    "contents kPipelineQueueCapacity q = rs"
    using try_pop_cons [OF ok c] by blast
  let ?tx = "tx\<lparr>out_q := q\<rparr>"
  have I: "tx_inv view ?tx" "inflight (view (tx_ring ?tx)) = {#}"
    using Suc.prems(1,2) q(2) by (auto intro: tx_inv_out_q)
  show ?case
  proof (cases "free_count tx = 0 \<or> fuel = 0")
    case True
    then have "wait_free U fuel fuel ?tx = Inl OutOfFuel"
      using wait_free_stuck [OF C I] by auto
    then show ?thesis
      using q(1) by (simp add: send_report_def)
  next
    case False
    then obtain i tx1 where s: "send_report U fuel r ?tx = Inr (True, tx1)" "sent_report view r i ?tx tx1"
      using send_report_free [OF C I(1), of fuel r] by auto
    have "tx_inv view tx1" "inflight (view (tx_ring tx1)) = {#}"
      "unat (free_count tx1) < length (contents kPipelineQueueCapacity (out_q tx1))"
      using s(2) I(2) Suc.prems(3) q(3) c by (simp_all add: sent_report_def del: length_contents)
    from Suc.IH [OF this] show ?thesis
      using q(1) s(1) by simp
  qed
qed

subsection \<open>Polling and construction\<close>

lemma flush_sqes_result:
  assumes C: "uring_contract U 256 view" and I: "tx_inv view tx"
  obtains k where "tx_inv view (flush_sqes U tx)"
    "prepared (view (tx_ring (flush_sqes U tx))) = drop k (prepared (view (tx_ring tx)))"
    "outstanding (view (tx_ring (flush_sqes U tx))) = outstanding (view (tx_ring tx))"
    "0 < tx_pending_sqes tx \<or> view (tx_ring (flush_sqes U tx)) = view (tx_ring tx)"
    "free_count (flush_sqes U tx) = free_count tx" "out_q (flush_sqes U tx) = out_q tx"
    "tx_mem (flush_sqes U tx) = tx_mem tx" "send_base (flush_sqes U tx) = send_base tx"
    "reports_sent (flush_sqes U tx) = reports_sent tx"
proof (cases "0 < tx_pending_sqes tx")
  case True
  let ?v = "view (tx_ring tx)"
  obtain ret r where s: "uring_submit U (tx_ring tx) = (ret, r)"
    by fastforce
  obtain k where k: "view r = ?v\<lparr>prepared := drop k (prepared ?v), inflight := inflight ?v + mset (take k (prepared ?v))\<rparr>"
    using submit_view [OF C s] by blast
  note S = submit_outstanding [OF k]
  have f: "flush_sqes U tx = tx\<lparr>tx_ring := r, tx_pending_sqes := 0\<rparr>"
    using True by (simp add: flush_sqes_def s)
  have "tx_own view {#} (flush_sqes U tx) = tx_own view {#} tx"
    by (rule tx_own_frame) (simp_all add: f S)
  then show thesis
    using that [of k] True I S k by (simp add: f tx_inv_def)
next
  case False
  then show thesis
    using that [of 0] I by (simp add: flush_sqes_def)
qed

lemma tx_poll_complete:
  assumes C: "uring_contract U 256 view" and I: "tx_inv view tx" and P: "tx_poll U fuel tx = Inr (n, tx')"
  shows "n = int (length (contents kPipelineQueueCapacity (out_q tx))) \<and>
    contents kPipelineQueueCapacity (out_q tx') = [] \<and>
    reports_sent tx' = reports_sent tx + of_int n \<and> tx_inv view tx'"
proof -
  obtain tx1 where d: "drain_completions U fuel tx = Inr tx1" "send_loop U fuel fuel 0 (flush_sqes U tx1) = Inr (n, tx')"
    using P by (auto simp: tx_poll_def ebind_Inr_iff)
  have D: "drained view tx tx1"
    using drain_completions_result [OF C I, of fuel] d(1) by blast
  then have I1: "tx_inv view tx1"
    by (simp add: drained_def)
  obtain k where f: "tx_inv view (flush_sqes U tx1)" "out_q (flush_sqes U tx1) = out_q tx1"
    "reports_sent (flush_sqes U tx1) = reports_sent tx1"
    by (rule flush_sqes_result [OF C I1])
  show ?thesis
    using send_loop_complete [OF C f(1) d(2)] f(2,3) D by (simp add: drained_def del: length_contents)
qed

lemma taken_slots_outstanding:
  assumes "tx_inv view tx"
  shows "taken_slots tx = (\<lambda>q. unat (rq_data q)) ` set_mset (outstanding (view (tx_ring tx)))"
    "\<And>q. q \<in># outstanding (view (tx_ring tx)) \<Longrightarrow> q = tx_request tx (unat (rq_data q))"
proof -
  have O: "tx_own view {#} tx"
    using assms by (simp add: tx_inv_def)
  have "set_mset (mset_set (taken_slots tx)) = set_mset (slot_ids (view (tx_ring tx)))"
    using tx_ownD(4) [OF O] by simp
  then show "taken_slots tx = (\<lambda>q. unat (rq_data q)) ` set_mset (outstanding (view (tx_ring tx)))"
    by (simp add: slot_ids_def)
  show "\<And>q. q \<in># outstanding (view (tx_ring tx)) \<Longrightarrow> q = tx_request tx (unat (rq_data q))"
    using tx_ownD(3) [OF O] .
qed

lemma tx_init_ring_view:
  assumes "uring_contract U depth view" and "tx_init_ring U = Inr (sq, r)"
  shows "view r = \<lparr>prepared = [], inflight = {#}, peeked = None\<rparr>"
  using assms unfolding tx_init_ring_def uring_contract_def init_law_def
  by (fastforce split: prod.splits if_splits)

lemma UringSender_new_inv:
  assumes C: "uring_contract U depth view" and n: "UringSender_new U base mem fd out = Inr tx"
    and q: "spsc_ok kPipelineQueueCapacity out"
  shows "tx_inv view tx" "unat (free_count tx) = kNumSendBufs" "out_q tx = out"
    "view (tx_ring tx) = \<lparr>prepared = [], inflight = {#}, peeked = None\<rparr>" "tx_pending_sqes tx = 0"
proof -
  obtain sq r where i: "tx_init_ring U = Inr (sq, r)"
    using n by (auto simp: UringSender_new_def split: if_splits sum.splits)
  note v = tx_init_ring_view [OF C i]
  have t: "tx = \<lparr>tx_sock_fd = fd, tx_ring = r, tx_sqpoll_active = sq, tx_pending_sqes = 0,
      send_base = base, tx_mem = mem, buf_in_flight = replicate kNumSendBufs False,
      free_count = of_nat kNumSendBufs, out_q = out, reports_sent = 0, tx_errors = 0\<rparr>"
    using n i by (auto simp: UringSender_new_def split: if_splits)
  have e: "taken_slots tx = {}"
    by (auto simp: t taken_slots_def)
  show "tx_inv view tx"
    unfolding tx_inv_def tx_own_def e using v q
    by (simp add: t slot_ids_def outstanding_def kNumSendBufs_def)
  show "unat (free_count tx) = kNumSendBufs" "out_q tx = out" "tx_pending_sqes tx = 0"
    "view (tx_ring tx) = \<lparr>prepared = [], inflight = {#}, peeked = None\<rparr>"
    using v by (simp_all add: t kNumSendBufs_def)
qed

subsection \<open>What the kernel gets to send\<close>

text \<open>
  \<open>tx_wire view tx rs\<close>: of the reports \<open>rs\<close> taken so far, the last ones are spelled by the
  prepared requests, in order, and every request in flight spells one of the earlier ones.
\<close>

definition report_bytes :: "ExecutionReport \<Rightarrow> u8 list" where
  "report_bytes r = bytes_of_WireExecReport (wire_of_report r)"

definition req_bytes :: "'r UringSender \<Rightarrow> request \<Rightarrow> u8 list" where
  "req_bytes tx q = bytes_at (tx_mem tx) (rq_buf q) (rq_len q)"

definition tx_wire :: "('r \<Rightarrow> ring_view) \<Rightarrow> 'r UringSender \<Rightarrow> ExecutionReport list \<Rightarrow> bool" where
  "tx_wire view tx rs \<longleftrightarrow>
     (\<exists>done. map report_bytes rs = done @ map (req_bytes tx) (prepared (view (tx_ring tx))) \<and>
        image_mset (req_bytes tx) (inflight (view (tx_ring tx))) \<subseteq># mset done)"

lemma tx_wire_out_q [simp]: "tx_wire view (tx\<lparr>out_q := q\<rparr>) rs = tx_wire view tx rs"
  by (simp add: tx_wire_def req_bytes_def [abs_def])

lemma tx_wire_drained:
  assumes "tx_wire view tx rs" and "drained view tx tx'"
  shows "tx_wire view tx' rs"
proof -
  have "req_bytes tx' = req_bytes tx"
    using assms(2) by (simp add: req_bytes_def [abs_def] drained_def)
  then show ?thesis
    using assms image_mset_subseteq_mono subset_mset.order_trans unfolding tx_wire_def drained_def by metis
qed

lemma tx_wire_flush:
  assumes C: "uring_contract U 256 view" and W: "tx_wire view tx rs"
  shows "tx_wire view (flush_sqes U tx) rs"
proof (cases "0 < tx_pending_sqes tx")
  case True
  let ?v = "view (tx_ring tx)"
  obtain ret r where s: "uring_submit U (tx_ring tx) = (ret, r)"
    by fastforce
  obtain k where k: "view r = ?v\<lparr>prepared := drop k (prepared ?v), inflight := inflight ?v + mset (take k (prepared ?v))\<rparr>"
    using submit_view [OF C s] by blast
  obtain ds where ds: "map report_bytes rs = ds @ map (req_bytes tx) (prepared ?v)"
    "image_mset (req_bytes tx) (inflight ?v) \<subseteq># mset ds"
    using W by (auto simp: tx_wire_def)
  have f: "flush_sqes U tx = tx\<lparr>tx_ring := r, tx_pending_sqes := 0\<rparr>"
    using True by (simp add: flush_sqes_def s)
  have b: "req_bytes (flush_sqes U tx) = req_bytes tx"
    by (simp add: f req_bytes_def [abs_def])
  let ?ds = "ds @ map (req_bytes tx) (take k (prepared ?v))"
  have "map report_bytes rs = ?ds @ map (req_bytes tx) (drop k (prepared ?v))"
    unfolding ds(1) append.assoc map_append [symmetric] append_take_drop_id ..
  moreover have "image_mset (req_bytes tx) (inflight ?v + mset (take k (prepared ?v))) \<subseteq># mset ?ds"
    using ds(2) by simp
  ultimately show ?thesis
    unfolding tx_wire_def b by (auto simp: f k intro!: exI [of _ ?ds])
next
  case False
  then show ?thesis
    using W by (simp add: flush_sqes_def)
qed

lemma tx_wire_sent:
  assumes I: "tx_inv view tx" and W: "tx_wire view tx rs" and S: "sent_report view r i tx tx'"
  shows "tx_wire view tx' (rs @ [r])"
proof -
  let ?v = "view (tx_ring tx)"
  obtain ds where ds: "map report_bytes rs = ds @ map (req_bytes tx) (prepared ?v)"
    "image_mset (req_bytes tx) (inflight ?v) \<subseteq># mset ds"
    using W by (auto simp: tx_wire_def)
  have m: "tx_mem tx' = memcpy_to (tx_mem tx) (send_buf tx i) (report_bytes r)" and i: "i \<notin> taken_slots tx"
    and v: "prepared (view (tx_ring tx')) = prepared ?v @ [tx_request tx i]" "inflight (view (tx_ring tx')) = inflight ?v"
    using S by (simp_all add: sent_report_def report_bytes_def)
  have keep: "req_bytes tx' q = req_bytes tx q" if "q \<in># outstanding ?v" for q
  proof -
    have "q = tx_request tx (unat (rq_data q))" "unat (rq_data q) \<in> taken_slots tx"
      using taken_slots_outstanding [OF I] that by blast+
    then show ?thesis
      using send_bufs_apart [of i "unat (rq_data q)" "tx_mem tx" tx "wire_of_report r"] i
      by (metis req_bytes_def m report_bytes_def request.select_convs(2,3) tx_request_def)
  qed
  have "map (req_bytes tx') (prepared ?v) = map (req_bytes tx) (prepared ?v)"
    using keep by (simp add: outstanding_def)
  moreover have "image_mset (req_bytes tx') (inflight ?v) = image_mset (req_bytes tx) (inflight ?v)"
    using keep by (intro image_mset_cong) (simp add: outstanding_def)
  moreover have "req_bytes tx' (tx_request tx i) = report_bytes r"
    by (simp add: req_bytes_def tx_request_def m report_bytes_def exec_report.enc_length)
  ultimately show ?thesis
    unfolding tx_wire_def v using ds by (auto intro!: exI [of _ ds])
qed

lemma send_loop_wire:
  assumes C: "uring_contract U 256 view"
  shows "tx_inv view tx \<Longrightarrow> tx_wire view tx rs \<Longrightarrow> send_loop U fuel n k tx = Inr (k', tx') \<Longrightarrow>
    tx_wire view tx' (rs @ contents kPipelineQueueCapacity (out_q tx))"
proof (induction n arbitrary: k tx rs)
  case 0
  then show ?case by simp
next
  case (Suc n)
  have ok: "spsc_ok kPipelineQueueCapacity (out_q tx)"
    using Suc.prems(1) tx_ownD(2) by (auto simp: tx_inv_def)
  show ?case
  proof (cases "contents kPipelineQueueCapacity (out_q tx)")
    case Nil
    then show ?thesis
      using Suc.prems try_pop_empty [OF Nil] by auto
  next
    case (Cons r cs)
    obtain q where q: "try_pop kPipelineQueueCapacity (out_q tx) = (Some r, q)" "spsc_ok kPipelineQueueCapacity q"
      "contents kPipelineQueueCapacity q = cs"
      using try_pop_cons [OF ok Cons] by blast
    let ?tx = "tx\<lparr>out_q := q\<rparr>"
    have I: "tx_inv view ?tx"
      using Suc.prems(1) q(2) by (rule tx_inv_out_q)
    obtain b tx1 where s: "send_report U fuel r ?tx = Inr (b, tx1)"
      "send_loop U fuel n (if b then k + 1 else k) tx1 = Inr (k', tx')"
      using Suc.prems(3) q(1) by (auto simp: ebind_Inr_iff)
    obtain i tx0 where R: "drained view ?tx tx0" "sent_report view r i tx0 tx1"
      using send_report_result [OF C I s(1)] by blast
    have W: "tx_wire view tx0 rs" and I0: "tx_inv view tx0"
      using tx_wire_drained [OF _ R(1)] Suc.prems(2) R(1) by (simp_all add: drained_def)
    have T: "tx_inv view tx1" "out_q tx1 = q"
      using R by (simp_all add: drained_def sent_report_def)
    show ?thesis
      using Suc.IH [OF T(1) tx_wire_sent [OF I0 W R(2)] s(2)] T(2) q(3) by (simp add: Cons)
  qed
qed

lemma tx_poll_wire:
  assumes C: "uring_contract U 256 view" and I: "tx_inv view tx" and W: "tx_wire view tx rs"
    and P: "tx_poll U fuel tx = Inr (n, tx')"
  shows "tx_wire view tx' (rs @ contents kPipelineQueueCapacity (out_q tx))"
proof -
  obtain tx1 where d: "drain_completions U fuel tx = Inr tx1" "send_loop U fuel fuel 0 (flush_sqes U tx1) = Inr (n, tx')"
    using P by (auto simp: tx_poll_def ebind_Inr_iff)
  have D: "drained view tx tx1"
    using drain_completions_result [OF C I, of fuel] d(1) by blast
  then have I1: "tx_inv view tx1"
    by (simp add: drained_def)
  obtain k where f: "tx_inv view (flush_sqes U tx1)" "out_q (flush_sqes U tx1) = out_q tx1"
    by (rule flush_sqes_result [OF C I1])
  show ?thesis
    using send_loop_wire [OF C f(1) tx_wire_flush [OF C tx_wire_drained [OF W D]] d(2)] f(2) D by (simp add: drained_def)
qed

subsection \<open>A sender over the reference ring\<close>

definition demo_report :: ExecutionReport where
  "demo_report = \<lparr>er_kind = Fill, er_order_id = 1, er_counterpart_order_id = 2, er_exec_price = 100,
     er_exec_quantity = 5, er_leaves_quantity = 0, er_timestamp_ns = 77\<rparr>"

definition demo_outbound :: "nat \<Rightarrow> ExecutionReport SPSCQueue" where
  "demo_outbound n = \<lparr>write_idx = of_nat n, read_idx = 0, buffer = (\<lambda>_. demo_report)\<rparr>"

lemma demo_outbound_ok:
  assumes "n \<le> 65536"
  shows "spsc_ok kPipelineQueueCapacity (demo_outbound n)"
    "contents kPipelineQueueCapacity (demo_outbound n) = replicate n demo_report"
proof -
  have "unat (of_nat n :: u64) = n"
    using assms by (intro unat_of_nat_small) simp
  then show "spsc_ok kPipelineQueueCapacity (demo_outbound n)"
    "contents kPipelineQueueCapacity (demo_outbound n) = replicate n demo_report"
    using assms by (simp_all add: spsc_ok_def demo_outbound_def contents_def map_replicate_const)
      (simp add: kPipelineQueueCapacity_def)
qed

lemma demo_tx:
  obtains tx where "UringSender_new (sim_uring script) 0 (\<lambda>_. 0) 4 out = Inr tx"
  by (simp add: UringSender_new_def tx_init_ring_def sim_uring_def)

text \<open>A poll with a free buffer for every waiting report.\<close>

lemma tx_poll_room:
  assumes C: "uring_contract U 256 view" and I: "tx_inv view tx"
    and rs: "contents kPipelineQueueCapacity (out_q tx) = rs" "length rs \<le> unat (free_count tx)"
    and F: "257 \<le> fuel" "length rs < fuel"
  shows "\<exists>k slots tx'. tx_poll U fuel tx = Inr (int (length rs), tx') \<and> tx_inv view tx' \<and>
    contents kPipelineQueueCapacity (out_q tx') = [] \<and>
    reports_sent tx' = reports_sent tx + of_nat (length rs) \<and>
    prepared (view (tx_ring tx')) = drop k (prepared (view (tx_ring tx))) @ map (tx_request tx) slots \<and>
    length slots = length rs \<and> distinct slots \<and>
    (\<forall>j < length rs. bytes_at (tx_mem tx') (send_buf tx (slots ! j)) sizeof_WireExecReport =
      bytes_of_WireExecReport (wire_of_report (rs ! j))) \<and>
    (\<forall>q \<in># inflight (view (tx_ring tx')). bytes_at (tx_mem tx') (rq_buf q) (rq_len q) =
      bytes_at (tx_mem tx) (rq_buf q) (rq_len q))"
proof -
  have "size (inflight (view (tx_ring tx))) < fuel"
    using tx_own_size [of view "{#}" tx] I F by (simp add: tx_inv_def size_outstanding kNumSendBufs_def)
  then obtain tx1 where d: "drain_completions U fuel tx = Inr tx1" "drained view tx tx1"
    using drain_completions_result [OF C I, of fuel] by blast
  have I1: "tx_inv view tx1"
    using d(2) by (simp add: drained_def)
  let ?tx2 = "flush_sqes U tx1"
  obtain k where f: "tx_inv view ?tx2" "prepared (view (tx_ring ?tx2)) = drop k (prepared (view (tx_ring tx1)))"
    "free_count ?tx2 = free_count tx1" "out_q ?tx2 = out_q tx1" "tx_mem ?tx2 = tx_mem tx1"
    "send_base ?tx2 = send_base tx1" "reports_sent ?tx2 = reports_sent tx1"
    by (rule flush_sqes_result [OF C I1])
  have "contents kPipelineQueueCapacity (out_q ?tx2) = rs" "length rs \<le> unat (free_count ?tx2)" "0 < fuel"
    using rs d(2) f F by (simp_all add: drained_def)
  from send_loop_sends [OF C this(3) f(1) this(1,2) F(2), of 0] obtain slots tx'
    where S: "send_loop U fuel fuel 0 ?tx2 = Inr (int (length rs), tx')" "sent_all view rs slots ?tx2 tx'"
      "contents kPipelineQueueCapacity (out_q tx') = []"
    by auto
  have e: "send_buf ?tx2 = send_buf tx" "tx_request ?tx2 = tx_request tx"
    using f(6) d(2) by (simp_all add: send_buf_def tx_request_def drained_def fun_eq_iff)
  have keep: "bytes_at (tx_mem tx') (rq_buf q) (rq_len q) = bytes_at (tx_mem tx) (rq_buf q) (rq_len q)"
    if "q \<in># inflight (view (tx_ring tx'))" for q
  proof -
    have "q \<in># outstanding (view (tx_ring ?tx2))"
      using that S(2) by (simp add: sent_all_def outstanding_def)
    then have "unat (rq_data q) \<in> taken_slots ?tx2" "q = tx_request ?tx2 (unat (rq_data q))"
      using taken_slots_outstanding [OF f(1)] by blast+
    moreover have "rq_buf q = send_buf tx (unat (rq_data q))" "rq_len q = sizeof_WireExecReport"
      using calculation(2) e by (metis request.select_convs tx_request_def)+
    ultimately show ?thesis
      using S(2) f(5) d(2) by (simp add: sent_all_def e drained_def)
  qed
  have "tx_poll U fuel tx = Inr (int (length rs), tx')"
    using d(1) S(1) by (simp add: tx_poll_def)
  moreover have "tx_inv view tx'" "reports_sent tx' = reports_sent tx + of_nat (length rs)"
    "prepared (view (tx_ring tx')) = drop k (prepared (view (tx_ring tx))) @ map (tx_request tx) slots"
    "length slots = length rs" "distinct slots"
    "\<forall>j < length rs. bytes_at (tx_mem tx') (send_buf tx (slots ! j)) sizeof_WireExecReport =
      bytes_of_WireExecReport (wire_of_report (rs ! j))"
    using S(2) f d(2) e by (simp_all add: sent_all_def drained_def)
  ultimately show ?thesis
    using S(3) keep by blast
qed

section \<open>Properties of the sender\<close>

text \<open>C19: A poll sends the queued reports in order. With at most as many reports waiting as there
  are free buffers, \<open>poll\<close> returns, empties the queue, and leaves one prepared request per report,
  in the order of the queue, each in a buffer of its own that holds the wire form of that report;
  the bytes of requests the kernel is still sending are not touched.\<close>

theorem tx_poll_sends:
  assumes C: "uring_contract U 256 view" and I: "tx_inv view tx"
    and rs: "contents kPipelineQueueCapacity (out_q tx) = rs" "length rs \<le> unat (free_count tx)"
    and F: "257 \<le> fuel" "length rs < fuel"
  shows "\<exists>k slots tx'. tx_poll U fuel tx = Inr (int (length rs), tx') \<and> tx_inv view tx' \<and>
    contents kPipelineQueueCapacity (out_q tx') = [] \<and>
    reports_sent tx' = reports_sent tx + of_nat (length rs) \<and>
    prepared (view (tx_ring tx')) = drop k (prepared (view (tx_ring tx))) @ map (tx_request tx) slots \<and>
    length slots = length rs \<and> distinct slots \<and>
    (\<forall>j < length rs. bytes_at (tx_mem tx') (send_buf tx (slots ! j)) sizeof_WireExecReport =
      bytes_of_WireExecReport (wire_of_report (rs ! j))) \<and>
    (\<forall>q \<in># inflight (view (tx_ring tx')). bytes_at (tx_mem tx') (rq_buf q) (rq_len q) =
      bytes_at (tx_mem tx) (rq_buf q) (rq_len q))"
  using assms by (rule tx_poll_room)

theorem tx_poll_sends_witness:
  "case UringSender_new (sim_uring []) 0 (\<lambda>_. 0) 4 (demo_outbound 2) of
     Inr tx \<Rightarrow> (\<exists>i j tx'. tx_poll (sim_uring []) 257 tx = Inr (2, tx') \<and> i \<noteq> j \<and>
       prepared (sim_view (tx_ring tx')) = [tx_request tx i, tx_request tx j] \<and>
       bytes_at (tx_mem tx') (send_buf tx j) 48 = bytes_of_WireExecReport (wire_of_report demo_report))
   | Inl _ \<Rightarrow> False"
proof -
  obtain tx where tx: "UringSender_new (sim_uring []) 0 (\<lambda>_. 0) 4 (demo_outbound 2) = Inr tx"
    by (rule demo_tx)
  note O = demo_outbound_ok [of 2, simplified]
  note N = UringSender_new_inv [OF sim_uring_contract tx O(1)]
  have rs: "contents kPipelineQueueCapacity (out_q tx) = [demo_report, demo_report]"
    "length [demo_report, demo_report] \<le> unat (free_count tx)"
    using N(2,3) O(2) by (simp_all add: kNumSendBufs_def numeral_2_eq_2)
  have F: "257 \<le> (257 :: nat)" "length [demo_report, demo_report] < 257"
    by simp_all
  from tx_poll_sends [OF sim_uring_contract [of "[]"] N(1) rs F]
  obtain k slots tx' where P: "tx_poll (sim_uring []) 257 tx = Inr (int (length [demo_report, demo_report]), tx')"
    "prepared (sim_view (tx_ring tx')) = drop k (prepared (sim_view (tx_ring tx))) @ map (tx_request tx) slots"
    "length slots = length [demo_report, demo_report]" "distinct slots"
    "\<forall>j < length [demo_report, demo_report]. bytes_at (tx_mem tx') (send_buf tx (slots ! j)) sizeof_WireExecReport =
      bytes_of_WireExecReport (wire_of_report ([demo_report, demo_report] ! j))"
    by blast
  obtain i j where s: "slots = [i, j]"
    using P(3) by (auto simp: length_Suc_conv)
  have "bytes_at (tx_mem tx') (send_buf tx j) 48 = bytes_of_WireExecReport (wire_of_report demo_report)"
    using P(5) [rule_format, of 1] by (simp add: s sizeof_WireExecReport_def)
  moreover have "tx_poll (sim_uring []) 257 tx = Inr (2, tx')" "i \<noteq> j"
    "prepared (sim_view (tx_ring tx')) = [tx_request tx i, tx_request tx j]"
    using P s N(4) by simp_all
  ultimately show ?thesis
    using tx by auto
qed

text \<open>No report is dropped. Whenever \<open>poll\<close> returns, it has taken every waiting report from the
  queue and submitted each of them: the branch that gives up on a report because the submission
  queue is full cannot be reached. The flags and the count of free buffers stay exact.\<close>

theorem tx_never_drops:
  assumes "uring_contract U 256 view" and "tx_inv view tx" and "tx_poll U fuel tx = Inr (n, tx')"
  shows "n = int (length (contents kPipelineQueueCapacity (out_q tx))) \<and>
    contents kPipelineQueueCapacity (out_q tx') = [] \<and>
    reports_sent tx' = reports_sent tx + of_int n \<and> tx_inv view tx'"
  using assms by (rule tx_poll_complete)

theorem tx_never_drops_witness:
  "case UringSender_new (sim_uring []) 0 (\<lambda>_. 0) 4 (demo_outbound 1) of
     Inr tx \<Rightarrow> (\<exists>tx'. tx_poll (sim_uring []) 257 tx = Inr (1, tx') \<and> reports_sent tx' = reports_sent tx + 1)
   | Inl _ \<Rightarrow> False"
proof -
  obtain tx where tx: "UringSender_new (sim_uring []) 0 (\<lambda>_. 0) 4 (demo_outbound 1) = Inr tx"
    by (rule demo_tx)
  note O = demo_outbound_ok [of 1, simplified]
  note N = UringSender_new_inv [OF sim_uring_contract tx [unfolded One_nat_def] O(1)]
  have "size (inflight (sim_view (tx_ring tx))) < 257"
    using N(4) by simp
  then obtain tx1 where d: "drain_completions (sim_uring []) 257 tx = Inr tx1" "drained sim_view tx tx1"
    using drain_completions_result [OF sim_uring_contract [of "[]"] N(1), of 257] by blast
  have f: "flush_sqes (sim_uring []) tx1 = tx1" "tx_inv sim_view tx1" "out_q tx1 = demo_outbound 1"
    "256 \<le> unat (free_count tx1)"
    using d(2) N by (simp_all add: drained_def flush_sqes_def kNumSendBufs_def)
  then have "\<exists>n tx'. send_loop (sim_uring []) 257 257 0 tx1 = Inr (n, tx')"
    using send_loop_sends [OF sim_uring_contract [of "[]"], of 257 tx1 "[demo_report]" 257 0] O(2) by fastforce
  then obtain n tx' where p: "tx_poll (sim_uring []) 257 tx = Inr (n, tx')"
    using d(1) f(1) by (auto simp: tx_poll_def)
  from tx_never_drops [OF sim_uring_contract N(1) p] show ?thesis
    using tx N(3) O(2) p by (simp del: length_contents)
qed

text \<open>C20: A burst of more than 256 reports hangs the sender. Starting with no request in flight and
  nothing left to submit, \<open>poll\<close> never returns when more reports are waiting than there are free
  buffers: it prepares a request per buffer without submitting any, then waits for completions
  that cannot arrive.\<close>

theorem tx_poll_livelock:
  assumes C: "uring_contract U 256 view" and I: "tx_inv view tx"
    and idle: "inflight (view (tx_ring tx)) = {#}" "tx_pending_sqes tx = 0"
    and many: "unat (free_count tx) < length (contents kPipelineQueueCapacity (out_q tx))"
  shows "tx_poll U fuel tx = Inl OutOfFuel"
proof (cases "drain_completions U fuel tx")
  case (Inl f)
  then show ?thesis
    using drain_completions_result [OF C I, of fuel] by (simp add: tx_poll_def)
next
  case (Inr tx1)
  then have d: "drained view tx tx1"
    using drain_completions_result [OF C I, of fuel] by blast
  note N = drained_nothing [OF d idle(1) I]
  have "flush_sqes U tx1 = tx1" "tx_inv view tx1" "out_q tx1 = out_q tx"
    using d idle(2) by (simp_all add: drained_def flush_sqes_def)
  then show ?thesis
    using send_loop_stuck [OF C, of tx1 fuel fuel 0] N many Inr by (simp add: tx_poll_def del: length_contents)
qed

theorem tx_poll_livelock_witness:
  "case UringSender_new (sim_uring [Some 48]) 0 (\<lambda>_. 0) 4 (demo_outbound 257) of
     Inr tx \<Rightarrow> tx_poll (sim_uring [Some 48]) 100000 tx = Inl OutOfFuel
   | Inl _ \<Rightarrow> False"
proof -
  obtain tx where tx: "UringSender_new (sim_uring [Some 48]) 0 (\<lambda>_. 0) 4 (demo_outbound 257) = Inr tx"
    by (rule demo_tx)
  note O = demo_outbound_ok [of 257, simplified]
  note N = UringSender_new_inv [OF sim_uring_contract tx O(1)]
  have "unat (free_count tx) < length (contents kPipelineQueueCapacity (out_q tx))"
    using N(2,3) O(2) by (simp add: kNumSendBufs_def del: length_contents)
  then have "tx_poll (sim_uring [Some 48]) 100000 tx = Inl OutOfFuel"
    using N by (intro tx_poll_livelock [OF sim_uring_contract N(1)]) simp_all
  then show ?thesis
    using tx by simp
qed

end
