(* ===== verification/Daemon.thy ===== *)
theory Daemon
  imports Rx_Path Uring_Sender Engine_Run
begin

section \<open>The daemon (\<open>src/src/main.cpp\<close>)\<close>

text \<open>
  \<open>main\<close> builds the four queues, the decoder, the engine with its default instrument, the
  receiver and the sender, and starts one thread per stage; each thread polls its stage while
  \<open>g_running\<close> is set, and a signal clears it. This theory is about the polls themselves, whatever
  the threads do around them; their control flow, shutdown and the rest of \<open>main\<close> are in
  \<open>Main_Program\<close>. A turn is one complete poll of one stage on the state they share: the raw and the return queue are those of the receiver's record, the inbound and the
  outbound queue those of the engine's. Turns of different threads interleave in any order, with
  each other, with the kernel's writes into receive buffers and with signals; how the queue
  operations inside two turns interleave is the subject of \<open>Spsc_Concurrent\<close> and \<open>Rx_Path\<close>.

  Two fields are not in the program: \<open>heard\<close> is the list of the messages the engine has taken
  from the inbound queue, \<open>posted_bytes\<close> records the bytes of every span at the moment the
  receiver posted it.
\<close>

definition SIGINT :: int where
  "SIGINT = 2"

definition SIGTERM :: int where
  "SIGTERM = 15"

definition signal_handler :: "int \<Rightarrow> bool \<Rightarrow> bool" where
  "signal_handler signum running = (if signum = SIGINT \<or> signum = SIGTERM then False else running)"

record 'r Daemon =
  g_running :: bool
  receiver :: "'r UringReceiver"
  decoder :: Decoder
  engine :: MatchingEngine
  sender :: "'r UringSender"
  d_mem :: memory
  heard :: "InboundOrderMsg list"
  posted_bytes :: "u8 list list"

text \<open>The exception or failed assertion that ends the construction, with what was built before.\<close>

datatype 'r main_error =
    EngineFailed pool_error
  | ReceiverFailed uring_error MatchingEngine
  | SenderFailed uring_error MatchingEngine "'r UringReceiver"

definition main_setup ::
  "'r liburing \<Rightarrow> (bool \<Rightarrow> nat \<Rightarrow> heap option) \<Rightarrow> (nat \<Rightarrow> u64 \<times> u64) \<Rightarrow> nat \<Rightarrow> nat \<Rightarrow> memory \<Rightarrow> int \<Rightarrow> int \<Rightarrow>
   'r main_error + 'r Daemon" where
  "main_setup U mmap clk rx_base tx_base mem fd0 fd1 =
     (let raw_queue = SPSCQueue_new (\<lambda>_. \<lparr>rs_data = None, rs_len = 0, rs_buf_id = 0\<rparr>);
          buf_ret_queue = SPSCQueue_new (\<lambda>_. 0);
          inbound_queue = SPSCQueue_new (\<lambda>_. \<lparr>im_kind = NewOrder, im_order_id = 0, im_price = 0, im_quantity = 0,
            im_instrument_id = 0, im_client_id = 0, im_side = 0, im_type = 0\<rparr>);
          outbound_queue = SPSCQueue_new (\<lambda>_. \<lparr>er_kind = Fill, er_order_id = 0, er_counterpart_order_id = 0,
            er_exec_price = 0, er_exec_quantity = 0, er_leaves_quantity = 0, er_timestamp_ns = 0\<rparr>)
      in case MatchingEngine_new mmap inbound_queue (outbound_queue, []) clk [] of
           Inl e \<Rightarrow> Inl (EngineFailed e)
         | Inr me0 \<Rightarrow>
             (let me = add_instrument me0 1 1000 100000 1
              in case UringReceiver_new U rx_base fd0 (raw_queue, []) [] buf_ret_queue of
                   Inl e \<Rightarrow> Inl (ReceiverFailed e me)
                 | Inr rx \<Rightarrow>
                     (case UringSender_new U tx_base mem fd1 outbound_queue of
                        Inl e \<Rightarrow> Inl (SenderFailed e me rx)
                      | Inr tx \<Rightarrow>
                          Inr \<lparr>g_running = True, receiver = rx, decoder = Decoder_new, engine = me, sender = tx,
                               d_mem = mem, heard = [], posted_bytes = []\<rparr>)))"

subsection \<open>The bodies of the four threads\<close>

definition receiver_turn :: "'r liburing \<Rightarrow> 'r Daemon \<Rightarrow> fault + 'r Daemon" where
  "receiver_turn U s =
     ebind (rx_poll U 65 (receiver s)) (\<lambda>(_, rx).
       let old = stream kPipelineQueueCapacity (raw_ch (receiver s));
           now = stream kPipelineQueueCapacity (raw_ch rx)
       in Inr (s\<lparr>receiver := rx,
                 posted_bytes := posted_bytes s @ map (span_bytes (d_mem s)) (drop (length old) now)\<rparr>))"

definition decoder_turn :: "'r Daemon \<Rightarrow> fault + 'r Daemon" where
  "decoder_turn s =
     (let rx = receiver s;
          me = engine s;
          spans = contents kPipelineQueueCapacity (fst (raw_ch rx));
          io = \<lparr>raw_q = fst (raw_ch rx), inbound_ch = (inbound me, heard s), inbound_ps = [],
                returns_ch = (ret_q rx, []), returns_ps = []\<rparr>
      in ebind (decoder_poll (d_mem s) 64 (decoder s) io) (\<lambda>(_, d, io').
           let left = contents kPipelineQueueCapacity (raw_q io');
               taken = take (length spans - length left) spans
           in Inr (s\<lparr>decoder := d,
                     receiver := rx\<lparr>raw_ch := (raw_q io', snd (raw_ch rx) @ taken), ret_q := fst (returns_ch io')\<rparr>,
                     engine := me\<lparr>inbound := fst (inbound_ch io')\<rparr>\<rparr>)))"

definition matching_turn :: "'r Daemon \<Rightarrow> fault + 'r Daemon" where
  "matching_turn s =
     ebind (engine_poll 64 (engine s)) (\<lambda>(k, me).
       Inr (s\<lparr>engine := me, heard := heard s @ take k (contents kPipelineQueueCapacity (inbound (engine s)))\<rparr>))"

definition sender_turn :: "'r liburing \<Rightarrow> nat \<Rightarrow> 'r Daemon \<Rightarrow> fault + 'r Daemon" where
  "sender_turn U fuel s =
     (let me = engine s;
          waiting = contents kPipelineQueueCapacity (fst (outbound me))
      in ebind (tx_poll U fuel ((sender s)\<lparr>out_q := fst (outbound me)\<rparr>)) (\<lambda>(_, tx).
           let left = contents kPipelineQueueCapacity (out_q tx);
               taken = take (length waiting - length left) waiting
           in Inr (s\<lparr>sender := tx, engine := me\<lparr>outbound := (out_q tx, snd (outbound me) @ taken)\<rparr>\<rparr>)))"

inductive daemon_step :: "'r liburing \<Rightarrow> ('r \<Rightarrow> ring_view) \<Rightarrow> 'r Daemon \<Rightarrow> 'r Daemon \<Rightarrow> bool"
  for U :: "'r liburing" and view :: "'r \<Rightarrow> ring_view" where
  receiver_thread: "receiver_turn U s = Inr t \<Longrightarrow> daemon_step U view s t"
| decoder_thread: "decoder_turn s = Inr t \<Longrightarrow> daemon_step U view s t"
| matching_thread: "matching_turn s = Inr t \<Longrightarrow> daemon_step U view s t"
| sender_thread: "sender_turn U fuel s = Inr t \<Longrightarrow> daemon_step U view s t"
| kernel: "q \<in># inflight (view (rx_ring (receiver s))) \<Longrightarrow> rq_buf q \<le> a \<Longrightarrow> a < rq_buf q + rq_len q \<Longrightarrow>
    daemon_step U view s (s\<lparr>d_mem := (d_mem s)(a := b)\<rparr>)"
| signal: "daemon_step U view s (s\<lparr>g_running := signal_handler signum (g_running s)\<rparr>)"

subsection \<open>The invariant of the whole pipeline\<close>

text \<open>
  Each stage is in a good state, the bytes of the spans the decoder still has to read are the
  ones that were received, and the messages on their way to the engine are exactly those the
  decoded spans spell.
\<close>

definition delivered :: "'r Daemon \<Rightarrow> bool" where
  "delivered s \<longleftrightarrow>
     (let ch = raw_ch (receiver s); spans = stream kPipelineQueueCapacity ch in
      length (posted_bytes s) = length spans \<and>
      (\<forall>i < length spans. length (snd ch) \<le> i \<longrightarrow> span_bytes (d_mem s) (spans ! i) = posted_bytes s ! i) \<and>
      heard s @ contents kPipelineQueueCapacity (inbound (engine s)) =
        concat (map (\<lambda>bs. fst (parse_stream bs)) (take (length (snd ch)) (posted_bytes s))))"

definition daemon_inv :: "('r \<Rightarrow> ring_view) \<Rightarrow> 'r Daemon \<Rightarrow> bool" where
  "daemon_inv view s \<longleftrightarrow>
     engine_inv (engine s) \<and> rx_inv view (length (snd (raw_ch (receiver s)))) (receiver s) \<and>
     raw_ps (receiver s) = [] \<and> tx_inv view (sender s) \<and> delivered s"

lemma daemon_invD:
  assumes "daemon_inv view s"
  shows "engine_inv (engine s)" "rx_inv view (length (snd (raw_ch (receiver s)))) (receiver s)"
    "raw_ps (receiver s) = []" "tx_inv view (sender s)" "delivered s"
  using assms by (simp_all add: daemon_inv_def)

lemma deliveredD:
  assumes "delivered s"
  shows "length (posted_bytes s) = length (stream kPipelineQueueCapacity (raw_ch (receiver s)))"
    "\<And>i. i < length (stream kPipelineQueueCapacity (raw_ch (receiver s))) \<Longrightarrow> length (snd (raw_ch (receiver s))) \<le> i \<Longrightarrow>
       span_bytes (d_mem s) (stream kPipelineQueueCapacity (raw_ch (receiver s)) ! i) = posted_bytes s ! i"
    "heard s @ contents kPipelineQueueCapacity (inbound (engine s)) =
       concat (map (\<lambda>bs. fst (parse_stream bs)) (take (length (snd (raw_ch (receiver s)))) (posted_bytes s)))"
  using assms unfolding delivered_def Let_def by blast+

text \<open>The receiver and the queues to and from the decoder alone.\<close>

definition lines_ok :: "('r \<Rightarrow> ring_view) \<Rightarrow> 'r Daemon \<Rightarrow> bool" where
  "lines_ok view s \<longleftrightarrow> rx_inv view (length (snd (raw_ch (receiver s)))) (receiver s) \<and> raw_ps (receiver s) = [] \<and>
     spsc_ok kPipelineQueueCapacity (inbound (engine s))"

lemma daemon_inv_lines: "daemon_inv view s \<Longrightarrow> lines_ok view s"
  by (simp add: daemon_inv_def lines_ok_def engine_invD)

lemma receiver_turn_result:
  assumes C: "uring_contract U 256 view" and I: "lines_ok view s" and t: "receiver_turn U s = Inr t"
  obtains n rx ys where "rx_poll U 65 (receiver s) = Inr (n, rx)"
    "stream kPipelineQueueCapacity (raw_ch rx) = stream kPipelineQueueCapacity (raw_ch (receiver s)) @ ys"
    "rx_inv view (length (snd (raw_ch (receiver s)))) rx"
    "t = s\<lparr>receiver := rx, posted_bytes := posted_bytes s @ map (span_bytes (d_mem s)) ys\<rparr>"
proof -
  let ?rx = "receiver s" and ?R = "length (snd (raw_ch (receiver s)))"
  let ?sys = "\<lparr>sys_rx = ?rx, sys_returned = ?R, sys_mem = d_mem s\<rparr>"
  have D: "rx_inv view ?R ?rx"
    using I by (simp add: lines_ok_def)
  obtain n rx where p: "rx_poll U 65 ?rx = Inr (n, rx)"
    and teq: "t = s\<lparr>receiver := rx, posted_bytes := posted_bytes s @
      map (span_bytes (d_mem s)) (drop (length (stream kPipelineQueueCapacity (raw_ch ?rx)))
        (stream kPipelineQueueCapacity (raw_ch rx)))\<rparr>"
    using t by (auto simp: receiver_turn_def ebind_Inr_iff Let_def)
  have F: "kNumBufs < 65"
    by (simp add: kNumBufs_def)
  have inv: "rx_inv view ?R rx"
    using rx_poll_inv [OF C D F] p by auto
  have "(rx_step U view)\<^sup>*\<^sup>* ?sys (?sys\<lparr>sys_rx := rx\<rparr>)"
    using p by (intro rx_poll_steps) simp
  moreover have "rx_good U view ?sys"
    using C D by (simp add: rx_good_def sys_inv_def)
  ultimately obtain ys where "stream kPipelineQueueCapacity (raw_ch rx) = stream kPipelineQueueCapacity (raw_ch ?rx) @ ys"
    using rx_steps_stream [of U view ?sys "?sys\<lparr>sys_rx := rx\<rparr>"] by auto
  then show thesis
    using that p inv teq by simp
qed

lemma receiver_turn_inv [inv_pres]:
  assumes C: "uring_contract U 256 view" and I: "daemon_inv view s" and t: "receiver_turn U s = Inr t"
  shows "daemon_inv view t"
proof -
  let ?old = "stream kPipelineQueueCapacity (raw_ch (receiver s))" and ?R = "length (snd (raw_ch (receiver s)))"
  note D = daemon_invD [OF I] and L = deliveredD [OF daemon_invD(5) [OF I]]
  obtain n rx ys where p: "rx_poll U 65 (receiver s) = Inr (n, rx)"
    and ys: "stream kPipelineQueueCapacity (raw_ch rx) = ?old @ ys" and inv: "rx_inv view ?R rx"
    and teq: "t = s\<lparr>receiver := rx, posted_bytes := posted_bytes s @ map (span_bytes (d_mem s)) ys\<rparr>"
    by (rule receiver_turn_result [OF C daemon_inv_lines [OF I] t])
  have S: "raw_ps rx = []" "snd (raw_ch rx) = snd (raw_ch (receiver s))"
    using rx_poll_silent [OF p D(3)] by simp_all
  have le: "?R \<le> length ?old"
    by (simp add: stream_def del: length_contents)
  then have tk: "take ?R (posted_bytes s @ map (span_bytes (d_mem s)) ys) = take ?R (posted_bytes s)"
    using L(1) by simp
  have "span_bytes (d_mem s) ((?old @ ys) ! i) = (posted_bytes s @ map (span_bytes (d_mem s)) ys) ! i"
    if "?R \<le> i" "i < length (?old @ ys)" for i
    using that L(1) L(2) [of i] by (auto simp: nth_append)
  then have "delivered t"
    unfolding delivered_def Let_def using L(1,3) ys tk le by (simp add: teq S(2))
  then show ?thesis
    using D inv S by (simp add: daemon_inv_def teq)
qed

lemma hand_over_inv:
  assumes I: "rx_inv view (length (snd (raw_ch rx))) rx"
    and q: "spsc_ok kPipelineQueueCapacity q"
      "contents kPipelineQueueCapacity q = drop k (contents kPipelineQueueCapacity (fst (raw_ch rx)))"
    and r: "spsc_ok kBufReturnCapacity ret"
      "contents kBufReturnCapacity ret = contents kBufReturnCapacity (ret_q rx) @
        map rs_buf_id (take k (contents kPipelineQueueCapacity (fst (raw_ch rx))))"
  defines "ch \<equiv> (q, snd (raw_ch rx) @ take k (contents kPipelineQueueCapacity (fst (raw_ch rx))))"
  shows "rx_inv view (length (snd ch)) (rx\<lparr>raw_ch := ch, ret_q := ret\<rparr>)"
    "stream kPipelineQueueCapacity ch = stream kPipelineQueueCapacity (raw_ch rx)"
proof -
  let ?spans = "contents kPipelineQueueCapacity (fst (raw_ch rx))" and ?R = "length (snd (raw_ch rx))"
  let ?rx = "rx\<lparr>raw_ch := ch, ret_q := ret\<rparr>"
  have O: "rx_own view ?R {#} rx"
    using I by (simp add: rx_inv_def)
  note D = rx_ownD [OF O]
  show str: "stream kPipelineQueueCapacity ch = stream kPipelineQueueCapacity (raw_ch rx)"
    by (simp add: ch_def stream_def q(2))
  have old: "lent ?R rx = take k ?spans @ drop k ?spans"
    by (simp add: lent_def stream_def)
  have "lent (length (snd ch)) ?rx = drop (length (take k ?spans)) ?spans"
    by (simp add: lent_def str) (simp add: ch_def stream_def)
  then have new: "lent (length (snd ch)) ?rx = drop k ?spans"
    by (metis drop_min_length length_take min.commute)
  have ids: "lent_ids ?R rx = mset (map (\<lambda>s. unat (rs_buf_id s)) (take k ?spans)) + lent_ids (length (snd ch)) ?rx"
    unfolding lent_ids_def old new by (simp only: map_append mset_append)
  have ret: "returned_ids ?rx = returned_ids rx + mset (map (\<lambda>s. unat (rs_buf_id s)) (take k ?spans))"
    by (simp add: returned_ids_def r(2) image_mset.compositionality comp_def)
  have fr: "rx_request ?rx = rx_request rx" "span_ok ?rx = span_ok rx"
    by (simp_all add: rx_request_frame [of ?rx rx])
  have sum: "ring_ids (view (rx_ring rx)) + lent_ids (length (snd ch)) ?rx + returned_ids ?rx + {#} =
      mset_set {..<kNumBufs}"
    using D(7) by (simp add: ids ret ac_simps)
  have "list_all (span_ok rx) (drop k ?spans)"
    using D(8) unfolding old by (auto simp: list_all_iff dest: in_set_dropD)
  then have "rx_own view (length (snd ch)) {#} ?rx"
    unfolding rx_own_def fr using D q(1) r(1) sum new by (simp add: ch_def)
  then show "rx_inv view (length (snd ch)) ?rx"
    using I by (simp add: rx_inv_def)
qed

text \<open>The next \<open>k\<close> spans still spell what was received.\<close>

lemma pending_bytes:
  assumes "delivered s"
  defines "spans \<equiv> contents kPipelineQueueCapacity (fst (raw_ch (receiver s)))"
    and "R \<equiv> length (snd (raw_ch (receiver s)))"
  shows "map (span_bytes (d_mem s)) (take k spans) = take (length (take k spans)) (drop R (posted_bytes s))"
proof -
  note L = deliveredD [OF assms(1)]
  have str: "stream kPipelineQueueCapacity (raw_ch (receiver s)) = snd (raw_ch (receiver s)) @ spans"
    by (simp add: stream_def spans_def)
  have len: "length (posted_bytes s) = R + length spans"
    using L(1) by (simp add: str R_def)
  have "span_bytes (d_mem s) (spans ! i) = posted_bytes s ! (R + i)" if "i < length spans" for i
    using L(2) [of "R + i"] that by (simp add: str R_def)
  then show ?thesis
    by (intro nth_equalityI) (simp_all add: len)
qed

lemma pending_msgs:
  assumes "delivered s"
  defines "spans \<equiv> contents kPipelineQueueCapacity (fst (raw_ch (receiver s)))"
    and "R \<equiv> length (snd (raw_ch (receiver s)))"
  shows "batch_msgs (d_mem s) (take k spans) =
    concat (map (\<lambda>bs. fst (parse_stream bs)) (take (length (take k spans)) (drop R (posted_bytes s))))"
  unfolding pending_bytes [OF assms(1), of k, folded spans_def R_def, symmetric] batch_msgs_def map_map comp_def ..

lemma decoder_turn_result:
  assumes I: "lines_ok view s" and t: "decoder_turn s = Inr t"
  defines "spans \<equiv> contents kPipelineQueueCapacity (fst (raw_ch (receiver s)))"
  obtains rq inb ret where
    "t = s\<lparr>decoder := batch_counted (d_mem s) (take 64 spans) (decoder s),
       receiver := (receiver s)\<lparr>raw_ch := (rq, snd (raw_ch (receiver s)) @ take 64 spans), ret_q := ret\<rparr>,
       engine := (engine s)\<lparr>inbound := inb\<rparr>\<rparr>"
    "spsc_ok kPipelineQueueCapacity rq" "contents kPipelineQueueCapacity rq = drop 64 spans"
    "spsc_ok kPipelineQueueCapacity inb" "contents kPipelineQueueCapacity inb =
       contents kPipelineQueueCapacity (inbound (engine s)) @ batch_msgs (d_mem s) (take 64 spans)"
    "spsc_ok kBufReturnCapacity ret" "contents kBufReturnCapacity ret =
       contents kBufReturnCapacity (ret_q (receiver s)) @ map rs_buf_id (take 64 spans)"
proof -
  let ?rx = "receiver s" and ?me = "engine s"
  let ?io = "\<lparr>raw_q = fst (raw_ch ?rx), inbound_ch = (inbound ?me, heard s), inbound_ps = [],
    returns_ch = (ret_q ?rx, []), returns_ps = []\<rparr>"
  have O: "rx_own view (length (snd (raw_ch ?rx))) {#} ?rx"
    using I by (simp add: rx_inv_def lines_ok_def)
  have sint64: "nat (sint (ucast (64 :: u64) :: u32)) = 64"
    by simp
  obtain n d io where p: "decoder_poll_loop (d_mem s) 64 0 (decoder s) ?io = Inr (n, d, io)"
    and t1: "t = s\<lparr>decoder := d, receiver := ?rx\<lparr>raw_ch := (raw_q io, snd (raw_ch ?rx) @
        take (length spans - length (contents kPipelineQueueCapacity (raw_q io))) spans), ret_q := fst (returns_ch io)\<rparr>,
      engine := ?me\<lparr>inbound := fst (inbound_ch io)\<rparr>\<rparr>"
    using t by (auto simp: decoder_turn_def ebind_Inr_iff Let_def decoder_poll_def sint64 spans_def simp del: length_contents)
  have ok: "io_ok ?io"
    using rx_ownD(2,3) [OF O] I by (simp add: io_ok_def lines_ok_def)
  have R: "io_ok io" "contents kPipelineQueueCapacity (raw_q io) = drop 64 spans"
    "stream kPipelineQueueCapacity (inbound_ch io) = heard s @ contents kPipelineQueueCapacity (inbound ?me) @
       batch_msgs (d_mem s) (take 64 spans)"
    "stream kBufReturnCapacity (returns_ch io) = contents kBufReturnCapacity (ret_q ?rx) @ map rs_buf_id (take 64 spans)"
    "d = batch_counted (d_mem s) (take 64 spans) (decoder s)"
    using decoder_poll_loop_result [OF ok p, of spans] by (simp_all add: stream_def spans_def)
  have Q: "snd (inbound_ch io) = heard s" "snd (returns_ch io) = []"
    using decoder_poll_loop_silent [OF p] by simp_all
  have tk: "take (length spans - length (contents kPipelineQueueCapacity (raw_q io))) spans = take 64 spans"
    unfolding R(2) length_drop by (cases "length spans \<le> 64") (simp_all add: spans_def del: length_contents)
  show thesis
  proof (rule that [OF t1 [unfolded tk R(5)]])
    show "contents kPipelineQueueCapacity (fst (inbound_ch io)) =
        contents kPipelineQueueCapacity (inbound ?me) @ batch_msgs (d_mem s) (take 64 spans)"
      "contents kBufReturnCapacity (fst (returns_ch io)) =
        contents kBufReturnCapacity (ret_q ?rx) @ map rs_buf_id (take 64 spans)"
      using R(3,4) Q by (simp_all add: stream_def)
  qed (use R(1,2) in \<open>simp_all add: io_ok_def\<close>)
qed

lemma decoder_turn_inv [inv_pres]:
  assumes I: "daemon_inv view s" and t: "decoder_turn s = Inr t"
  shows "daemon_inv view t"
proof -
  let ?me = "engine s" and ?R = "length (snd (raw_ch (receiver s)))"
  let ?spans = "contents kPipelineQueueCapacity (fst (raw_ch (receiver s)))"
  note D = daemon_invD [OF I] and L = deliveredD [OF daemon_invD(5) [OF I]]
  obtain rq inb ret where R: "t = s\<lparr>decoder := batch_counted (d_mem s) (take 64 ?spans) (decoder s),
       receiver := (receiver s)\<lparr>raw_ch := (rq, snd (raw_ch (receiver s)) @ take 64 ?spans), ret_q := ret\<rparr>,
       engine := ?me\<lparr>inbound := inb\<rparr>\<rparr>"
    "spsc_ok kPipelineQueueCapacity rq" "contents kPipelineQueueCapacity rq = drop 64 ?spans"
    "spsc_ok kPipelineQueueCapacity inb" "contents kPipelineQueueCapacity inb =
       contents kPipelineQueueCapacity (inbound ?me) @ batch_msgs (d_mem s) (take 64 ?spans)"
    "spsc_ok kBufReturnCapacity ret" "contents kBufReturnCapacity ret =
       contents kBufReturnCapacity (ret_q (receiver s)) @ map rs_buf_id (take 64 ?spans)"
    by (rule decoder_turn_result [OF daemon_inv_lines [OF I] t])
  note H = hand_over_inv [OF D(2) R(2,3,6,7)]
  have eng: "engine_inv (?me\<lparr>inbound := inb\<rparr>)"
    using engine_inv_same(1) [OF D(1), of "?me\<lparr>inbound := inb\<rparr>"] engine_invD(1) [OF D(1)] R(4)
    by (simp add: out_ok_def)
  have "heard s @ contents kPipelineQueueCapacity inb =
      concat (map (\<lambda>bs. fst (parse_stream bs)) (take (?R + length (take 64 ?spans)) (posted_bytes s)))"
    unfolding R(5) pending_msgs [OF D(5), of 64] using L(3) by (simp add: take_add)
  then have "delivered t"
    unfolding delivered_def Let_def using L(1,2) H(2) by (simp add: R(1) del: length_contents)
  then show ?thesis
    using D H(1) eng by (simp add: daemon_inv_def R(1))
qed

lemma matching_turn_inv [inv_pres]:
  assumes I: "daemon_inv view s" and t: "matching_turn s = Inr t"
  shows "daemon_inv view t"
proof -
  let ?cs = "contents kPipelineQueueCapacity (inbound (engine s))"
  note D = daemon_invD [OF I] and L = deliveredD [OF daemon_invD(5) [OF I]]
  obtain k me where p: "engine_poll 64 (engine s) = Inr (k, me)"
    and teq: "t = s\<lparr>engine := me, heard := heard s @ take k ?cs\<rparr>"
    using t by (auto simp: matching_turn_def ebind_Inr_iff)
  have E: "engine_inv me" "contents kPipelineQueueCapacity (inbound me) = drop k ?cs"
    using run_meetsD(1) [OF engine_poll_meets [OF D(1) refl, of 64] p] by auto
  have "delivered t"
    unfolding delivered_def Let_def using L E(2) by (simp add: teq)
  then show ?thesis
    using D E(1) by (simp add: daemon_inv_def teq)
qed

lemma sender_turn_result:
  assumes C: "uring_contract U 256 view" and I: "daemon_inv view s" and t: "sender_turn U fuel s = Inr t"
  defines "tx0 \<equiv> (sender s)\<lparr>out_q := fst (outbound (engine s))\<rparr>"
  obtains n tx where "t = s\<lparr>sender := tx, engine := (engine s)\<lparr>outbound := (out_q tx, sent (engine s))\<rparr>\<rparr>"
    "tx_inv view tx0" "tx_poll U fuel tx0 = Inr (n, tx)" "tx_inv view tx"
    "spsc_ok kPipelineQueueCapacity (out_q tx)" "contents kPipelineQueueCapacity (out_q tx) = []"
proof -
  let ?me = "engine s" and ?cs = "contents kPipelineQueueCapacity (fst (outbound (engine s)))"
  note D = daemon_invD [OF I]
  obtain n tx where p: "tx_poll U fuel tx0 = Inr (n, tx)"
    and teq: "t = s\<lparr>sender := tx, engine := ?me\<lparr>outbound := (out_q tx, snd (outbound ?me) @
      take (length ?cs - length (contents kPipelineQueueCapacity (out_q tx))) ?cs)\<rparr>\<rparr>"
    using t by (auto simp: sender_turn_def ebind_Inr_iff Let_def tx0_def simp del: length_contents)
  have "spsc_ok kPipelineQueueCapacity (fst (outbound ?me))"
    using engine_invD(1) [OF D(1)] by (simp add: out_ok_def)
  then have T0: "tx_inv view tx0"
    unfolding tx0_def by (rule tx_inv_out_q [OF D(4)])
  note T = tx_poll_complete [OF C T0 p]
  have "spsc_ok kPipelineQueueCapacity (out_q tx)"
    using T tx_ownD(2) by (auto simp: tx_inv_def)
  then show thesis
    using that teq T0 p T by (simp add: sent_def stream_def del: length_contents)
qed

lemma sender_turn_inv [inv_pres]:
  assumes C: "uring_contract U 256 view" and I: "daemon_inv view s" and t: "sender_turn U fuel s = Inr t"
  shows "daemon_inv view t"
proof -
  let ?me = "engine s"
  note D = daemon_invD [OF I] and L = deliveredD [OF daemon_invD(5) [OF I]]
  obtain n tx where R: "t = s\<lparr>sender := tx, engine := ?me\<lparr>outbound := (out_q tx, sent ?me)\<rparr>\<rparr>"
    "tx_inv view tx" "spsc_ok kPipelineQueueCapacity (out_q tx)"
    by (rule sender_turn_result [OF C I t])
  have "engine_inv (?me\<lparr>outbound := (out_q tx, sent ?me)\<rparr>)"
    using engine_inv_same(1) [OF D(1), of "?me\<lparr>outbound := (out_q tx, sent ?me)\<rparr>"] engine_invD(2) [OF D(1)] R(3)
    by (simp add: out_ok_def)
  moreover have "delivered t"
    using L by (simp add: delivered_def R(1))
  ultimately show ?thesis
    using D R(2) by (simp add: daemon_inv_def R(1))
qed

lemma kernel_inv [inv_pres]:
  assumes I: "daemon_inv view s" and q: "q \<in># inflight (view (rx_ring (receiver s)))"
    and a: "rq_buf q \<le> a" "a < rq_buf q + rq_len q"
  shows "daemon_inv view (s\<lparr>d_mem := (d_mem s)(a := b)\<rparr>)"
proof -
  let ?ch = "raw_ch (receiver s)" and ?m = "(d_mem s)(a := b)"
  note D = daemon_invD [OF I] and L = deliveredD [OF daemon_invD(5) [OF I]]
  have keep: "span_bytes ?m (stream kPipelineQueueCapacity ?ch ! i) = span_bytes (d_mem s) (stream kPipelineQueueCapacity ?ch ! i)"
    if "length (snd ?ch) \<le> i" "i < length (stream kPipelineQueueCapacity ?ch)" for i
  proof -
    let ?sp = "stream kPipelineQueueCapacity ?ch ! i"
    have "?sp \<in> set (lent (length (snd ?ch)) (receiver s))"
      unfolding lent_def in_set_conv_nth using that by (intro exI [of _ "i - length (snd ?ch)"]) simp
    from lent_not_inflight [OF D(2) this q a] show ?thesis
      by (auto simp: span_bytes_def split: option.split intro!: bytes_at_cong)
  qed
  then have "delivered (s\<lparr>d_mem := ?m\<rparr>)"
    unfolding delivered_def Let_def using L by simp
  then show ?thesis
    using D by (simp add: daemon_inv_def)
qed

lemma daemon_step_inv:
  assumes C: "uring_contract U 256 view" and I: "daemon_inv view s" and S: "daemon_step U view s t"
  shows "daemon_inv view t"
  using S
proof cases
  case (signal n)
  then show ?thesis
    using I by (simp add: daemon_inv_def delivered_def)
qed (auto intro: inv_pres C I)

lemma pipeline_queue_new:
  "spsc_ok kPipelineQueueCapacity (SPSCQueue_new f)" "contents kPipelineQueueCapacity (SPSCQueue_new f) = []"
  using spsc_new_ok [OF kPipelineQueueCapacity_single_bit, of f] by simp_all

text \<open>What \<open>main_setup\<close> has built when it succeeds.\<close>

definition fresh_inbound :: "InboundOrderMsg SPSCQueue" where
  "fresh_inbound = SPSCQueue_new (\<lambda>_. \<lparr>im_kind = NewOrder, im_order_id = 0, im_price = 0, im_quantity = 0,
     im_instrument_id = 0, im_client_id = 0, im_side = 0, im_type = 0\<rparr>)"

definition fresh_outbound :: "ExecutionReport SPSCQueue" where
  "fresh_outbound = SPSCQueue_new (\<lambda>_. \<lparr>er_kind = Fill, er_order_id = 0, er_counterpart_order_id = 0,
     er_exec_price = 0, er_exec_quantity = 0, er_leaves_quantity = 0, er_timestamp_ns = 0\<rparr>)"

definition fresh_raw :: "RawByteSpan SPSCQueue" where
  "fresh_raw = SPSCQueue_new (\<lambda>_. \<lparr>rs_data = None, rs_len = 0, rs_buf_id = 0\<rparr>)"

lemma fresh_queues:
  "spsc_ok kPipelineQueueCapacity fresh_inbound" "contents kPipelineQueueCapacity fresh_inbound = []"
  "spsc_ok kPipelineQueueCapacity fresh_outbound" "contents kPipelineQueueCapacity fresh_outbound = []"
  "spsc_ok kPipelineQueueCapacity fresh_raw" "contents kPipelineQueueCapacity fresh_raw = []"
  by (simp_all add: fresh_inbound_def fresh_outbound_def fresh_raw_def pipeline_queue_new)

lemma main_setup_parts:
  assumes "main_setup U mmap clk rb tb mem fd0 fd1 = Inr s"
  obtains p rx tx where "OrderPool_new mmap kDefaultPoolCapacity = Inr p" "0 \<le> fd0" "0 \<le> fd1"
    "UringReceiver_new U rb fd0 (fresh_raw, []) [] (SPSCQueue_new (\<lambda>_. 0)) = Inr rx"
    "UringSender_new U tb mem fd1 fresh_outbound = Inr tx"
    "s = \<lparr>g_running = True, receiver = rx, decoder = Decoder_new,
       engine = add_instrument (MatchingEngine_over p fresh_inbound (fresh_outbound, []) clk []) 1 1000 100000 1,
       sender = tx, d_mem = mem, heard = [], posted_bytes = []\<rparr>"
proof -
  obtain me rx tx where me: "MatchingEngine_new mmap fresh_inbound (fresh_outbound, []) clk [] = Inr me"
    and rx: "UringReceiver_new U rb fd0 (fresh_raw, []) [] (SPSCQueue_new (\<lambda>_. 0)) = Inr rx"
    and tx: "UringSender_new U tb mem fd1 fresh_outbound = Inr tx"
    and s: "s = \<lparr>g_running = True, receiver = rx, decoder = Decoder_new, engine = add_instrument me 1 1000 100000 1,
      sender = tx, d_mem = mem, heard = [], posted_bytes = []\<rparr>"
    using assms by (auto simp: main_setup_def Let_def fresh_inbound_def fresh_outbound_def fresh_raw_def split: sum.splits)
  obtain p where "OrderPool_new mmap kDefaultPoolCapacity = Inr p"
    "me = MatchingEngine_over p fresh_inbound (fresh_outbound, []) clk []"
    using me by (auto simp: MatchingEngine_new_def split: sum.splits)
  moreover have "0 \<le> fd0" "0 \<le> fd1"
    using rx tx by (simp_all add: UringReceiver_new_def UringSender_new_def split: if_splits)
  ultimately show thesis
    using that rx tx s by blast
qed

lemma setup_geometry: "valid_geometry 1000 100000 1"
  by (simp add: valid_geometry_def)

lemma main_setup_inv:
  assumes C: "uring_contract U 256 view" and m: "main_setup U mmap clk rb tb mem fd0 fd1 = Inr s"
  shows "daemon_inv view s"
proof -
  have rb: "has_single_bit kBufReturnCapacity"
    by (simp add: has_single_bit_def kBufReturnCapacity_def upt_rec)
  note R = spsc_new_ok [OF rb, of "\<lambda>_. 0 :: u32"]
  obtain p rx tx where P: "OrderPool_new mmap kDefaultPoolCapacity = Inr p" "0 \<le> fd0"
    "UringReceiver_new U rb fd0 (fresh_raw, []) [] (SPSCQueue_new (\<lambda>_. 0)) = Inr rx"
    "UringSender_new U tb mem fd1 fresh_outbound = Inr tx"
    and s: "s = \<lparr>g_running = True, receiver = rx, decoder = Decoder_new,
       engine = add_instrument (MatchingEngine_over p fresh_inbound (fresh_outbound, []) clk []) 1 1000 100000 1,
       sender = tx, d_mem = mem, heard = [], posted_bytes = []\<rparr>"
    by (rule main_setup_parts [OF m])
  have "pool_ok p" "Capacity p < 2 ^ 32"
    using OrderPool_new_ok [OF _ P(1)] by (simp_all add: kDefaultPoolCapacity_def)
  then have "engine_inv (MatchingEngine_over p fresh_inbound (fresh_outbound, []) clk [])"
    by (intro MatchingEngine_over_inv) (simp_all add: fresh_queues)
  from add_instrument_inv(1) [OF this setup_geometry, of 1] have E: "engine_inv (engine s)"
    by (simp add: s)
  have inb: "inbound (engine s) = fresh_inbound"
    by (simp add: s add_instrument_def MatchingEngine_over_def)
  obtain sq r where "rx_init_ring U = Inr (sq, r)"
    using P(2,3) by (auto simp: UringReceiver_new_def split: sum.splits)
  from UringReceiver_new_inv [OF C P(2) this, of "(fresh_raw, [])" "SPSCQueue_new (\<lambda>_. 0)" rb "[]"] P(3) R
  have X: "rx_inv view 0 rx" "raw_ch rx = (fresh_raw, [])" "raw_ps rx = []"
    by (auto simp: stream_def fresh_queues)
  have T: "tx_inv view tx"
    by (rule UringSender_new_inv(1) [OF C P(4) fresh_queues(3)])
  have "delivered s"
    using X(2) inb by (simp add: delivered_def s stream_def fresh_queues del: length_contents)
  then show ?thesis
    using E X T by (simp add: daemon_inv_def s)
qed

text \<open>The daemon over a library that keeps the contract is a safety machine.\<close>

definition daemon_start :: "'r liburing \<Rightarrow> ('r \<Rightarrow> ring_view) \<Rightarrow> 'r Daemon \<Rightarrow> bool" where
  "daemon_start U view s \<longleftrightarrow> uring_contract U 256 view \<and>
     (\<exists>mmap clk rx_base tx_base mem fd0 fd1. main_setup U mmap clk rx_base tx_base mem fd0 fd1 = Inr s)"

definition daemon_good :: "'r liburing \<Rightarrow> ('r \<Rightarrow> ring_view) \<Rightarrow> 'r Daemon \<Rightarrow> bool" where
  "daemon_good U view s \<longleftrightarrow> uring_contract U 256 view \<and> daemon_inv view s"

interpretation dmn: safety_machine "daemon_start U view" "daemon_step U view" "daemon_good U view" for U view
  by unfold_locales (auto simp: daemon_start_def daemon_good_def intro: main_setup_inv daemon_step_inv)

subsection \<open>Polls that return\<close>

lemma receiver_turn_returns:
  assumes "uring_contract U 256 view" and "daemon_inv view s"
  shows "\<exists>t. receiver_turn U s = Inr t"
proof -
  have "kNumBufs < 65"
    by (simp add: kNumBufs_def)
  from rx_poll_inv [OF assms(1) daemon_invD(2) [OF assms(2)] this] show ?thesis
    by (auto simp: receiver_turn_def Let_def)
qed

text \<open>The decoder's poll returns exactly when its messages fit the inbound queue; the return queue always has room.\<close>

lemma returns_room:
  assumes "rx_inv view (length (snd (raw_ch rx))) rx"
  shows "length (contents kBufReturnCapacity (ret_q rx)) + length (contents kPipelineQueueCapacity (fst (raw_ch rx))) \<le> kNumBufs"
proof -
  let ?R = "length (snd (raw_ch rx))"
  have "rx_own view ?R {#} rx"
    using assms by (simp add: rx_inv_def)
  from rx_ownD(7) [OF this] have "size (ring_ids (view (rx_ring rx)) + lent_ids ?R rx + returned_ids rx) = kNumBufs"
    by simp
  moreover have "size (lent_ids ?R rx) = length (contents kPipelineQueueCapacity (fst (raw_ch rx)))"
    by (simp add: lent_ids_def lent_def stream_def del: length_contents)
  moreover have "size (returned_ids rx) = length (contents kBufReturnCapacity (ret_q rx))"
    by (simp add: returned_ids_def del: length_contents)
  ultimately show ?thesis
    by (simp del: length_contents)
qed

lemma decoder_turn_returns_iff:
  assumes I: "daemon_inv view s"
  defines "spans \<equiv> contents kPipelineQueueCapacity (fst (raw_ch (receiver s)))"
  shows "(\<exists>t. decoder_turn s = Inr t) \<longleftrightarrow>
    length (contents kPipelineQueueCapacity (inbound (engine s))) + length (batch_msgs (d_mem s) (take 64 spans))
      \<le> unat kPipelineQueueCapacity"
proof
  assume "\<exists>t. decoder_turn s = Inr t"
  then obtain t where t: "decoder_turn s = Inr t" ..
  obtain rq inb ret where "spsc_ok kPipelineQueueCapacity inb" "contents kPipelineQueueCapacity inb =
       contents kPipelineQueueCapacity (inbound (engine s)) @ batch_msgs (d_mem s) (take 64 spans)"
    unfolding spans_def by (rule decoder_turn_result [OF daemon_inv_lines [OF I] t])
  then show "length (contents kPipelineQueueCapacity (inbound (engine s))) + length (batch_msgs (d_mem s) (take 64 spans))
      \<le> unat kPipelineQueueCapacity"
    using sq.bounded by (metis length_append)
next
  assume room: "length (contents kPipelineQueueCapacity (inbound (engine s))) + length (batch_msgs (d_mem s) (take 64 spans))
      \<le> unat kPipelineQueueCapacity"
  let ?rx = "receiver s"
  let ?io = "\<lparr>raw_q = fst (raw_ch ?rx), inbound_ch = (inbound (engine s), heard s), inbound_ps = [],
    returns_ch = (ret_q ?rx, []), returns_ps = []\<rparr>"
  note D = daemon_invD [OF I]
  have O: "rx_own view (length (snd (raw_ch ?rx))) {#} ?rx"
    using D(2) by (simp add: rx_inv_def)
  have ok: "io_ok ?io"
    using rx_ownD(2,3) [OF O] engine_invD(2) [OF D(1)] by (simp add: io_ok_def)
  have "length (take 64 spans) \<le> unat kBufReturnCapacity - length (contents kBufReturnCapacity (ret_q ?rx))"
    using returns_room [OF D(2)] by (simp add: spans_def kNumBufs_def kBufReturnCapacity_def del: length_contents)
  then have "io_room (length (batch_msgs (d_mem s) (take 64 spans)) + 0) (length (take 64 spans) + 0) ?io"
    using room by (auto simp: io_room_def can_post_def simp del: length_contents)
  from decoder_poll_loop_meets [OF ok this, of 0 "decoder s"]
  show "\<exists>t. decoder_turn s = Inr t"
    by (auto simp: decoder_turn_def decoder_poll_def Let_def spans_def)
qed

text \<open>The sender's poll returns when there is a free send buffer for every waiting report.\<close>

lemma sender_turn_returns:
  assumes C: "uring_contract U 256 view" and I: "daemon_inv view s"
    and room: "length (contents kPipelineQueueCapacity (fst (outbound (engine s)))) \<le> unat (UringSender.free_count (sender s))"
  shows "\<exists>fuel t. sender_turn U fuel s = Inr t"
proof -
  let ?rs = "contents kPipelineQueueCapacity (fst (outbound (engine s)))" and ?tx = "(sender s)\<lparr>out_q := fst (outbound (engine s))\<rparr>"
  note D = daemon_invD [OF I]
  have "tx_inv view ?tx"
    using engine_invD(1) [OF D(1)] by (intro tx_inv_out_q [OF D(4)]) (simp add: out_ok_def)
  from tx_poll_room [OF C this, of ?rs "257 + length ?rs"] room
  obtain n tx where "tx_poll U (257 + length ?rs) ?tx = Inr (n, tx)"
    by (auto simp del: length_contents)
  then have "\<exists>t. sender_turn U (257 + length ?rs) s = Inr t"
    by (simp add: sender_turn_def Let_def del: length_contents)
  then show ?thesis ..
qed

subsection \<open>A daemon over the reference ring\<close>

definition demo_over :: "memory \<Rightarrow> int option list \<Rightarrow> sim_ring main_error + sim_ring Daemon" where
  "demo_over mem script = main_setup (sim_uring script) (\<lambda>_ _. Some (\<lambda>_. undefined)) (\<lambda>n. (0, of_nat n)) 0 262144 mem 3 4"

definition demo_main :: "int option list \<Rightarrow> sim_ring main_error + sim_ring Daemon" where
  "demo_main script = demo_over (\<lambda>_. 0) script"

lemma demo_over_daemon:
  obtains s where "demo_over mem script = Inr s" "daemon_start (sim_uring script) sim_view s"
proof -
  let ?raw = "SPSCQueue_new (\<lambda>_. \<lparr>rs_data = None, rs_len = 0, rs_buf_id = 0\<rparr>)"
  let ?ret = "SPSCQueue_new (\<lambda>_. 0 :: u32)"
  have rb: "has_single_bit kBufReturnCapacity"
    by (simp add: has_single_bit_def kBufReturnCapacity_def upt_rec)
  obtain r where r: "rx_init_ring (sim_uring script) = Inr (False, r)"
    using demo_init_ring by blast
  have "\<exists>rx. UringReceiver_new (sim_uring script) 0 3 (?raw, []) [] ?ret = Inr rx"
    using UringReceiver_new_inv [OF sim_uring_contract [of script] _ r, of 3 "(?raw, [])" ?ret 0 "[]"]
      spsc_new_ok [OF rb, of "\<lambda>_. 0 :: u32"] by (auto simp: stream_def pipeline_queue_new)
  moreover have "\<exists>tx. UringSender_new (sim_uring script) 262144 mem 4 out = Inr tx" for out
    by (simp add: UringSender_new_def tx_init_ring_def sim_uring_def)
  moreover have "\<exists>me. MatchingEngine_new (\<lambda>_ _. Some (\<lambda>_. undefined)) inb outb clk [] = Inr me" for inb outb clk
    by (simp add: MatchingEngine_new_def OrderPool_new_def Let_def)
  ultimately obtain s where "demo_over mem script = Inr s"
    unfolding demo_over_def main_setup_def Let_def by (metis (no_types, lifting) sum.simps(6))
  moreover from this have "daemon_start (sim_uring script) sim_view s"
    unfolding daemon_start_def demo_over_def using sim_uring_contract by blast
  ultimately show thesis
    by (rule that)
qed

lemma demo_daemon:
  obtains s where "demo_main script = Inr s" "daemon_start (sim_uring script) sim_view s"
  unfolding demo_main_def by (rule demo_over_daemon)

end
