(* ===== verification/Live_Run.thy ===== *)
theory Live_Run
  imports Daemon
begin

section \<open>A run of the reference daemon\<close>

text \<open>
  The daemon of \<open>Daemon\<close> over the reference ring, with real bytes in its receive buffers: the
  kernel completes one receive, and the first turns of the threads take its bytes through the
  pipeline. The witnesses of the properties of the whole daemon rest on it. At the end are the first of
  these properties.
\<close>

text \<open>A memory in which every receive buffer starts with the bytes \<open>bs\<close>.\<close>

definition every_buffer :: "u8 list \<Rightarrow> memory" where
  "every_buffer bs a = (if a mod kBufSize < length bs then bs ! (a mod kBufSize) else 0)"

lemma every_buffer_bytes:
  assumes "length bs \<le> kBufSize"
  shows "bytes_at (every_buffer bs) (i * kBufSize) (length bs) = bs"
proof (rule nth_equalityI)
  fix j assume "j < length (bytes_at (every_buffer bs) (i * kBufSize) (length bs))"
  then have j: "j < length bs"
    by (simp add: bytes_at_def)
  then have "(i * kBufSize + j) mod kBufSize = j"
    using assms by simp
  then show "bytes_at (every_buffer bs) (i * kBufSize) (length bs) ! j = bs ! j"
    using j by (simp add: bytes_at_def every_buffer_def)
qed (simp add: bytes_at_def)

lemma sim_new_receiver:
  assumes "UringReceiver_new (sim_uring script) 0 fd raw [] ret = Inr rx"
  shows "sim_sq (rx_ring rx) = []" "sim_script (rx_ring rx) = script" "rx_pending_sqes rx = 0"
proof -
  let ?U = "sim_uring script"
  have arm: "sim_script (rx_ring z') = sim_script (rx_ring z)" if "arm_each ?U is z = Inr z'" for "is" z z'
    using that by (induction "is" arbitrary: z)
      (auto simp: arm_buf_def Let_def ebind_Inr_iff sim_uring_def sim_prep_def split: if_splits)
  show "sim_sq (rx_ring rx) = []" "sim_script (rx_ring rx) = script" "rx_pending_sqes rx = 0"
    using assms by (auto simp: UringReceiver_new_def arm_all_buffers_def rx_init_ring_def init_fixed_buffers_def
        sim_uring_def Let_def ebind_Inr_iff split: sum.splits if_splits dest!: arm [unfolded sim_uring_def])
qed

text \<open>The receiver's count of prepared requests agrees with the ring, and nothing but a peek uses up the script.\<close>

definition synced :: "sim_ring UringReceiver \<Rightarrow> bool" where
  "synced rx \<longleftrightarrow> rx_pending_sqes rx = of_nat (length (sim_sq (rx_ring rx)))"

lemma arm_buf_synced:
  "arm_buf (sim_uring script) i rx = Inr rx' \<Longrightarrow> synced rx \<Longrightarrow>
   synced rx' \<and> sim_script (rx_ring rx') = sim_script (rx_ring rx)"
  by (auto simp: arm_buf_def Let_def synced_def sim_uring_def sim_prep_def split: if_splits)

lemma reclaim_synced:
  "reclaim_buffers (sim_uring script) rx = Inr rx' \<Longrightarrow> synced rx \<Longrightarrow>
   synced rx' \<and> sim_script (rx_ring rx') = sim_script (rx_ring rx)"
proof (induction "sim_uring script" rx rule: reclaim_buffers.induct)
  case (1 rx)
  obtain x q where p: "try_pop kBufReturnCapacity (ret_q rx) = (x, q)"
    by fastforce
  have keep: "synced (rx\<lparr>ret_q := q\<rparr>)"
    using "1.prems"(2) by (simp add: synced_def)
  show ?case
  proof (cases x)
    case None
    then show ?thesis
      using "1.prems" p keep by (subst (asm) reclaim_buffers.simps) auto
  next
    case (Some b)
    show ?thesis
    proof (cases "unat b < kNumBufs \<and> \<not> buf_armed (rx\<lparr>ret_q := q\<rparr>) ! unat b")
      case True
      then obtain rx1 where a: "arm_buf (sim_uring script) (unat b) (rx\<lparr>ret_q := q\<rparr>) = Inr rx1"
        and r: "reclaim_buffers (sim_uring script) rx1 = Inr rx'"
        using "1.prems"(1) p Some by (subst (asm) reclaim_buffers.simps) (auto split: sum.splits)
      note A = arm_buf_synced [OF a keep]
      show ?thesis
        using "1.hyps"(1) [OF p [symmetric, unfolded Some] refl refl True a r] A by simp
    next
      case False
      then have "reclaim_buffers (sim_uring script) (rx\<lparr>ret_q := q\<rparr>) = Inr rx'"
        using "1.prems"(1) p Some by (subst (asm) reclaim_buffers.simps) auto
      then show ?thesis
        using "1.hyps"(2) [OF p [symmetric, unfolded Some] refl refl False] keep by simp
    qed
  qed
qed

lemma flush_synced:
  assumes "synced rx" and "length (sim_sq (rx_ring rx)) \<le> 64"
  shows "sim_sq (rx_ring (flush_pending (sim_uring script) rx)) = []" "synced (flush_pending (sim_uring script) rx)"
    "sim_script (rx_ring (flush_pending (sim_uring script) rx)) = sim_script (rx_ring rx)"
proof -
  have "unat (rx_pending_sqes rx) = length (sim_sq (rx_ring rx))"
    using assms by (simp add: synced_def unat_of_nat_small)
  then have "rx_pending_sqes rx = 0 \<longleftrightarrow> sim_sq (rx_ring rx) = []"
    by (metis length_0_conv unat_eq_0)
  then show "sim_sq (rx_ring (flush_pending (sim_uring script) rx)) = []" "synced (flush_pending (sim_uring script) rx)"
    "sim_script (rx_ring (flush_pending (sim_uring script) rx)) = sim_script (rx_ring rx)"
    by (auto simp: flush_pending_def synced_def sim_uring_def word_gt_0)
qed

text \<open>A poll that finds one receive completed, and no span waiting, posts one span.\<close>

lemma sim_poll:
  assumes I: "rx_inv sim_view (length (snd (raw_ch rx))) rx" and sy: "synced rx"
    and sc: "sim_script (rx_ring rx) = Some n # sc" "sc = [] \<or> hd sc = None" and n: "0 < n" "n \<le> int kBufSize"
    and raw: "contents kPipelineQueueCapacity (fst (raw_ch rx)) = []" and ps: "raw_ps rx = []"
  obtains i b rx' where "rx_poll (sim_uring script) 65 rx = Inr (1, rx')" "snd (raw_ch rx') = snd (raw_ch rx)"
    "contents kPipelineQueueCapacity (fst (raw_ch rx')) =
       [\<lparr>rs_data = Some (recv_base rx + i * kBufSize), rs_len = of_int n, rs_buf_id = b\<rparr>]"
    "synced rx'" "sim_script (rx_ring rx') = tl sc" "recv_base rx' = recv_base rx"
proof -
  let ?U = "sim_uring script" and ?R = "length (snd (raw_ch rx))"
  note C = sim_uring_contract [of script]
  obtain rx0 where r: "reclaim_buffers ?U rx = Inr rx0" "rx_inv sim_view ?R rx0" "recv_base rx0 = recv_base rx"
    "raw_ch rx0 = raw_ch rx" "contents kBufReturnCapacity (ret_q rx0) = []"
    using reclaim_buffers_inv [OF C I] by blast
  define rx1 where "rx1 = flush_pending ?U rx0"
  note f = flush_pending_inv [OF C r(2), folded rx1_def]
  have same: "raw_ch rx1 = raw_ch rx" "ret_q rx1 = ret_q rx0"
    using r(4) by (simp_all add: rx1_def flush_pending_def)
  have O: "rx_own sim_view ?R {#} rx1" "rx_own sim_view ?R {#} rx0" and hd: "sim_head (rx_ring rx1) = None"
    using f(1) r(2) by (simp_all add: rx_inv_def sim_view_def)
  have "length (sim_sq (rx_ring rx0)) \<le> 64"
    using rx_own_sizes [OF O(2)] by (simp add: size_outstanding sim_view_def kNumBufs_def del: length_contents)
  note S = flush_synced [OF conjunct1 [OF reclaim_synced [OF r(1) sy]] this, of script, folded rx1_def,
    unfolded conjunct2 [OF reclaim_synced [OF r(1) sy]] sc(1)]
  have "length (sim_flight (rx_ring rx1)) = 64"
    using rx_own_sizes [OF O(1)] raw r(5) S(1)
    by (simp add: same lent_def stream_def size_outstanding sim_view_def kNumBufs_def del: length_contents)
  then obtain q qs where q: "sim_flight (rx_ring rx1) = q # qs"
    by (cases "sim_flight (rx_ring rx1)") auto
  let ?i = "unat (rq_data q)" and ?c = "\<lparr>user_data = rq_data q, res = n\<rparr>"
  let ?r = "(rx_ring rx1)\<lparr>sim_script := sc, sim_flight := qs, sim_head := Some ?c\<rparr>"
  have v: "q \<in># inflight (sim_view (rx_ring rx1))"
    "sim_view ?r = (sim_view (rx_ring rx1))\<lparr>inflight := inflight (sim_view (rx_ring rx1)) - {#q#}, peeked := Some ?c\<rparr>"
    by (simp_all add: sim_view_def q)
  note T = rx_own_take [OF O(1) v]
  have p: "peek_cqe ?U (rx_ring rx1) = (Some ?c, ?r)"
    using q S(3) hd n T(2) by (simp add: sim_uring_def sim_peek_def Let_def)
  obtain rx2 where x: "process_cqe ?U ?c (rx1\<lparr>rx_ring := ?r\<rparr>) = Inr rx2" "recv_base rx2 = recv_base rx1"
    using process_cqe_own [OF C f(1) p] by blast
  then have r2: "rx_ring rx2 = ?r" "rx_pending_sqes rx2 = rx_pending_sqes rx1"
    using n(1) by (auto simp: process_cqe_def Let_def ebind_Inr_iff split: if_splits)
  let ?rx3 = "rx2\<lparr>rx_ring := (cqe_seen ?U (rx_ring rx2) ?c)\<lparr>sim_script := tl sc\<rparr>\<rparr>"
  have last: "peek_cqe ?U (cqe_seen ?U (rx_ring rx2) ?c) = (None, (cqe_seen ?U (rx_ring rx2) ?c)\<lparr>sim_script := tl sc\<rparr>)"
    using sc(2) by (cases sc) (simp_all add: r2(1) sim_uring_def sim_peek_def split: list.split)
  have run: "rx_poll ?U 65 rx = Inr (1, ?rx3)"
    using p x last r(1) by (simp add: rx_poll_def rx1_def [symmetric] numeral_eq_Suc)
  have q0: "snd (raw_ch rx2) = snd (raw_ch rx)"
    using rx_poll_silent [OF run ps] by simp
  have id: "unat (ucast (rq_data q) :: u32) = ?i"
    using T(1) by (simp add: unsigned_ucast_eq take_bit_nat_eq_self kNumBufs_def)
  have "stream kPipelineQueueCapacity (raw_ch rx2) = stream kPipelineQueueCapacity (raw_ch rx) @
      [\<lparr>rs_data = Some (recv_base rx + ?i * kBufSize), rs_len = of_int n, rs_buf_id = ucast (rq_data q)\<rparr>]"
    using process_cqe_stream [OF _ x(1)] rx_ownD(2) [OF O(1)] n(1) same(1) f(2) r(3) id by (simp add: recv_buf_def)
  then have "contents kPipelineQueueCapacity (fst (raw_ch ?rx3)) =
      [\<lparr>rs_data = Some (recv_base rx + ?i * kBufSize), rs_len = of_int n, rs_buf_id = ucast (rq_data q)\<rparr>]"
    using q0 raw by (simp add: stream_def)
  moreover have "synced ?rx3" "recv_base ?rx3 = recv_base rx"
    using S(1,2) r2 x(2) f(2) r(3) by (simp_all add: synced_def sim_uring_def)
  ultimately show thesis
    using that [OF run, of ?i "ucast (rq_data q)"] q0 by simp
qed

text \<open>
  A daemon in whose receive buffers the bytes \<open>bs\<close> wait, with nothing between the receiver and the
  decoder: the next completion of the script takes the bytes to the engine's queue.
\<close>

definition ready :: "u8 list \<Rightarrow> int option list \<Rightarrow> sim_ring Daemon \<Rightarrow> bool" where
  "ready bs sc s \<longleftrightarrow> daemon_inv sim_view s \<and> synced (receiver s) \<and> sim_script (rx_ring (receiver s)) = sc \<and>
     recv_base (receiver s) = 0 \<and> contents kPipelineQueueCapacity (fst (raw_ch (receiver s))) = [] \<and> d_mem s = every_buffer bs"

lemma demo_over_ready:
  assumes "demo_over (every_buffer bs) sc = Inr s"
  shows "ready bs sc s" "inbound (engine s) = fresh_inbound" "outbound (engine s) = (fresh_outbound, [])" "heard s = []" "g_running s"
proof -
  note C = sim_uring_contract [of sc]
  obtain p rx tx where rx: "UringReceiver_new (sim_uring sc) 0 3 (fresh_raw, []) [] (SPSCQueue_new (\<lambda>_. 0)) = Inr rx"
    and seq: "s = \<lparr>g_running = True, receiver = rx, decoder = Decoder_new,
       engine = add_instrument (MatchingEngine_over p fresh_inbound (fresh_outbound, []) (\<lambda>n. (0, of_nat n)) []) 1 1000 100000 1,
       sender = tx, d_mem = every_buffer bs, heard = [], posted_bytes = []\<rparr>"
    using assms unfolding demo_over_def by (rule main_setup_parts)
  obtain r0 where r0: "rx_init_ring (sim_uring sc) = Inr (False, r0)"
    using demo_init_ring by blast
  have rb: "has_single_bit kBufReturnCapacity"
    by (simp add: has_single_bit_def kBufReturnCapacity_def upt_rec)
  have "recv_base rx = 0" "raw_ch rx = (fresh_raw, [])"
    using UringReceiver_new_inv [OF C _ r0, of 3 "(fresh_raw, [])" "SPSCQueue_new (\<lambda>_. 0)" 0 "[]"] rx
      spsc_new_ok [OF rb, of "\<lambda>_. 0 :: u32"] by (auto simp: stream_def fresh_queues)
  then show "ready bs sc s"
    using main_setup_inv [OF C assms [unfolded demo_over_def]] sim_new_receiver [OF rx]
    by (simp add: ready_def synced_def seq fresh_queues)
  show "inbound (engine s) = fresh_inbound" "outbound (engine s) = (fresh_outbound, [])" "heard s = []" "g_running s"
    by (simp_all add: seq add_instrument_def MatchingEngine_over_def)
qed

text \<open>The bytes of some messages, received, decoded and waiting for the engine.\<close>

definition live_start :: "InboundOrderMsg list \<Rightarrow> sim_ring main_error + sim_ring Daemon" where
  "live_start ms = (let bs = concat (map wire_of_msg ms) in demo_over (every_buffer bs) [Some (int (length bs))])"

definition live_ring :: "InboundOrderMsg list \<Rightarrow> sim_ring liburing" where
  "live_ring ms = sim_uring [Some (int (length (concat (map wire_of_msg ms))))]"

lemma messages_length: "length ms \<le> length (concat (map wire_of_msg ms))"
  by (induction ms) (simp_all add: wire_of_msg_length wire_sizes)

lemma ready_feeds:
  assumes ms: "list_all wire_encodable ms" "ms \<noteq> []" and len: "length (concat (map wire_of_msg ms)) \<le> kBufSize"
    and bs: "bs = concat (map wire_of_msg ms)" and R: "ready bs (Some (int (length bs)) # sc) s"
    and sc: "sc = [] \<or> hd sc = None" and idle: "contents kPipelineQueueCapacity (inbound (engine s)) = []"
  obtains t u inb where "receiver_turn (sim_uring script) s = Inr t" "decoder_turn t = Inr u" "ready bs (tl sc) u"
    "engine t = engine s" "engine u = (engine s)\<lparr>inbound := inb\<rparr>" "contents kPipelineQueueCapacity inb = ms" "heard u = heard s"
proof -
  let ?U = "sim_uring script" and ?n = "int (length bs)"
  note C = sim_uring_contract [of script]
  have I: "daemon_inv sim_view s" and R': "synced (receiver s)" "sim_script (rx_ring (receiver s)) = Some ?n # sc"
    "recv_base (receiver s) = 0" "contents kPipelineQueueCapacity (fst (raw_ch (receiver s))) = []" "d_mem s = every_buffer bs"
    using R by (simp_all add: ready_def)
  have "0 < length bs"
    unfolding bs by (rule less_le_trans [OF _ messages_length]) (simp add: ms(2))
  then have n: "0 < ?n" "?n \<le> int kBufSize"
    using len by (simp_all add: bs)
  obtain i b rx where p: "rx_poll ?U 65 (receiver s) = Inr (1, rx)" "snd (raw_ch rx) = snd (raw_ch (receiver s))"
    "contents kPipelineQueueCapacity (fst (raw_ch rx)) = [\<lparr>rs_data = Some (0 + i * kBufSize), rs_len = of_int ?n, rs_buf_id = b\<rparr>]"
    "synced rx" "sim_script (rx_ring rx) = tl sc" "recv_base rx = 0"
    by (rule sim_poll [OF daemon_invD(2) [OF I] R'(1,2) sc n R'(4) daemon_invD(3) [OF I], of script, unfolded R'(3)])
  let ?sp = "\<lparr>rs_data = Some (0 + i * kBufSize), rs_len = of_int ?n, rs_buf_id = b\<rparr>"
  have "unat (rs_len ?sp) = length bs"
    using n(2) by (simp add: kBufSize_def unat_of_nat_small)
  then have b: "span_bytes (every_buffer bs) ?sp = bs"
    using every_buffer_bytes [of bs i] n(2) by (simp add: span_bytes_def)
  obtain t where t: "receiver_turn ?U s = Inr t" "receiver t = rx" "engine t = engine s" "heard t = heard s" "d_mem t = every_buffer bs"
    using p(1) R'(5) by (auto simp: receiver_turn_def Let_def)
  have It: "daemon_inv sim_view t"
    by (rule receiver_turn_inv [OF C I t(1)])
  have msgs: "batch_msgs (d_mem t) (take 64 [?sp]) = ms"
    using parse_stream_messages [OF ms(1), of "[]"] by (simp add: batch_msgs_def t(5) b [unfolded of_int_of_nat_eq, simplified] bs [symmetric])
  have "length ms \<le> unat kPipelineQueueCapacity"
    using messages_length [of ms] len by (simp add: kBufSize_def kPipelineQueueCapacity_def)
  then obtain u where u: "decoder_turn t = Inr u"
    using decoder_turn_returns_iff [OF It, unfolded t(2,3) p(3) msgs idle] by auto
  obtain rq inb ret where "u = t\<lparr>decoder := batch_counted (d_mem t) (take 64 [?sp]) (decoder t),
       receiver := rx\<lparr>raw_ch := (rq, snd (raw_ch rx) @ take 64 [?sp]), ret_q := ret\<rparr>,
       engine := (engine s)\<lparr>inbound := inb\<rparr>\<rparr>" "contents kPipelineQueueCapacity rq = drop 64 [?sp]"
    "contents kPipelineQueueCapacity inb = ms"
    by (rule decoder_turn_result [OF daemon_inv_lines [OF It] u, unfolded t(2,3) p(3) msgs idle append_Nil])
  moreover have "daemon_inv sim_view u"
    by (rule decoder_turn_inv [OF It u])
  ultimately show thesis
    using that [OF t(1) u _ t(3), of inb] t(4,5) p(4-6) by (simp add: ready_def synced_def)
qed

lemma live_decoded:
  assumes ms: "list_all wire_encodable ms" "ms \<noteq> []" and len: "length (concat (map wire_of_msg ms)) \<le> kBufSize"
  obtains s t u where "live_start ms = Inr s" "daemon_start (live_ring ms) sim_view s"
    "receiver_turn (live_ring ms) s = Inr t" "decoder_turn t = Inr u"
    "contents kPipelineQueueCapacity (inbound (engine u)) = ms" "heard u = []"
    "fst (outbound (engine u)) = fresh_outbound" "(daemon_step (live_ring ms) sim_view)\<^sup>*\<^sup>* s u"
proof -
  let ?bs = "concat (map wire_of_msg ms)"
  obtain s where s: "live_start ms = Inr s" "daemon_start (live_ring ms) sim_view s"
    unfolding live_start_def Let_def live_ring_def by (rule demo_over_daemon)
  note R = demo_over_ready [OF s(1) [unfolded live_start_def Let_def]]
  have idle: "contents kPipelineQueueCapacity (inbound (engine s)) = []"
    by (simp add: R(2) fresh_queues)
  obtain t u inb where f: "receiver_turn (live_ring ms) s = Inr t" "decoder_turn t = Inr u"
    "engine u = (engine s)\<lparr>inbound := inb\<rparr>" "contents kPipelineQueueCapacity inb = ms" "heard u = heard s"
    unfolding live_ring_def by (rule ready_feeds [OF ms len refl R(1) _ idle]) simp
  have "(daemon_step (live_ring ms) sim_view)\<^sup>*\<^sup>* s u"
    using daemon_step.receiver_thread [OF f(1)] daemon_step.decoder_thread [OF f(2)]
    by (meson converse_rtranclp_into_rtranclp r_into_rtranclp)
  then show thesis
    using that [OF s f(1,2)] f(3-5) R(3,4) by simp
qed

text \<open>One bid, on the instrument \<open>main\<close> adds.\<close>

definition first_bid :: InboundOrderMsg where
  "first_bid = \<lparr>im_kind = NewOrder, im_order_id = 1, im_price = 2000, im_quantity = 10, im_instrument_id = 1, im_client_id = 1,
     im_side = 0, im_type = 0\<rparr>"

lemma first_bid_ok:
  "list_all wire_encodable [first_bid]" "[first_bid] \<noteq> []" "length (concat (map wire_of_msg [first_bid])) \<le> kBufSize"
  by (simp_all add: first_bid_def wire_encodable_def int64_def wire_of_msg_length wire_sizes kBufSize_def)

section \<open>Properties of the daemon\<close>

text \<open>C10: From the wire to the engine nothing is lost, repeated, reordered or altered. However the
  threads, the kernel and signals interleave, the messages the engine has taken so far followed
  by those waiting in the inbound queue are exactly the messages that the bytes of the decoded
  spans spell, as those bytes were when the kernel delivered them, in the order of delivery.\<close>

theorem daemon_delivers:
  assumes "daemon_start U view s0" and "(daemon_step U view)\<^sup>*\<^sup>* s0 s"
  shows "heard s @ contents kPipelineQueueCapacity (inbound (engine s)) =
      concat (map (\<lambda>bs. fst (parse_stream bs)) (take (length (snd (raw_ch (receiver s)))) (posted_bytes s))) \<and>
    length (posted_bytes s) = length (stream kPipelineQueueCapacity (raw_ch (receiver s)))"
proof -
  have "delivered s"
    using dmn.reachable_inv [OF assms] by (simp add: daemon_good_def daemon_inv_def)
  from deliveredD(1,3) [OF this] show ?thesis
    by simp
qed

theorem daemon_delivers_witness:
  "case live_start [first_bid] of
     Inl _ \<Rightarrow> False
   | Inr s \<Rightarrow> (\<exists>u. (daemon_step (live_ring [first_bid]) sim_view)\<^sup>*\<^sup>* s u \<and>
       contents kPipelineQueueCapacity (inbound (engine u)) = [first_bid] \<and>
       concat (map (\<lambda>bs. fst (parse_stream bs)) (take (length (snd (raw_ch (receiver u)))) (posted_bytes u))) = [first_bid])"
proof -
  obtain s u where s: "live_start [first_bid] = Inr s" "daemon_start (live_ring [first_bid]) sim_view s"
    "contents kPipelineQueueCapacity (inbound (engine u)) = [first_bid]" "heard u = []"
    "(daemon_step (live_ring [first_bid]) sim_view)\<^sup>*\<^sup>* s u"
    by (rule live_decoded [OF first_bid_ok])
  show ?thesis
    using daemon_delivers [OF s(2,5)] s by auto
qed

text \<open>C25: Every stage of the running daemon stays sound, together. In every reachable state the
  engine's books are well formed and uncrossed, every receive buffer is in exactly one place, the
  sender's buffers are accounted for, and the receiver's poll returns.\<close>

theorem daemon_stages_sound:
  assumes "daemon_start U view s0" and "(daemon_step U view)\<^sup>*\<^sup>* s0 s"
  shows "engine_ok (engine s) \<and> (\<forall>iid. uncrossed (view_of (engine s) iid)) \<and>
    rx_inv view (length (snd (raw_ch (receiver s)))) (receiver s) \<and> tx_inv view (sender s) \<and>
    (\<exists>t. receiver_turn U s = Inr t)"
proof -
  have C: "uring_contract U 256 view" and I: "daemon_inv view s"
    using dmn.reachable_inv [OF assms] by (simp_all add: daemon_good_def)
  have "kNumBufs < 65"
    by (simp add: kNumBufs_def)
  from rx_poll_inv [OF C daemon_invD(2) [OF I] this] have "\<exists>t. receiver_turn U s = Inr t"
    by (auto simp: receiver_turn_def Let_def)
  then show ?thesis
    using daemon_invD [OF I] by (simp add: engine_inv_def)
qed

theorem daemon_stages_sound_witness:
  "case live_start [first_bid] of
     Inl _ \<Rightarrow> False
   | Inr s \<Rightarrow> (\<exists>u. (daemon_step (live_ring [first_bid]) sim_view)\<^sup>*\<^sup>* s u \<and>
       contents kPipelineQueueCapacity (inbound (engine u)) = [first_bid] \<and> engine_ok (engine u) \<and>
       (\<exists>t. receiver_turn (live_ring [first_bid]) u = Inr t))"
proof -
  obtain s u where s: "live_start [first_bid] = Inr s" "daemon_start (live_ring [first_bid]) sim_view s"
    "contents kPipelineQueueCapacity (inbound (engine u)) = [first_bid]" "(daemon_step (live_ring [first_bid]) sim_view)\<^sup>*\<^sup>* s u"
    by (rule live_decoded [OF first_bid_ok])
  show ?thesis
    using daemon_stages_sound [OF s(2,4)] s by auto
qed

end
