(* ===== verification/Exchange.thy ===== *)
theory Exchange
  imports Examples
begin

section \<open>The abstract exchange\<close>

text \<open>
  What the matching engine promises its clients, without its memory: a market is a price grid
  and, per side, the list of resting orders in priority order; the exchange is a map from
  instruments to markets and the number of orders it can still accept. \<open>exchange_step\<close> says for
  one message which reports it causes and what it leaves behind, \<open>exchange_run\<close> does so for a
  sequence of messages. \<open>dispatch_exchange\<close> shows that the engine of
  \<open>src/src/matching/matching_engine.hpp\<close> implements it, message by message: \<open>exchange_of\<close> reads
  the exchange off an engine, and commutes with every step.

  The engine can only be told apart from the exchange by messages that are not \<open>admissible\<close>:
  a second live order with the same id, a limit order off the price grid, a fill-or-kill limit
  the index arithmetic misreads, or more than \<open>2 ^ 32 - 1\<close> lots resting on one side.
\<close>

record Market =
  m_min :: Price
  m_max :: Price
  m_tick :: Price
  m_quotes :: "bool \<Rightarrow> Entry list"

record Exchange =
  x_market :: "InstrumentId \<Rightarrow> Market option"
  x_free :: nat

text \<open>An entry without the pool slot the engine keeps it in.\<close>

definition unslot :: "Entry \<Rightarrow> Entry" where
  "unslot e = e\<lparr>e_slot := 0\<rparr>"

definition untimed :: "ExecutionReport \<Rightarrow> ExecutionReport" where
  "untimed r = r\<lparr>er_timestamp_ns := 0\<rparr>"

definition m_valid :: "Market \<Rightarrow> Price \<Rightarrow> bool" where
  "m_valid m p \<longleftrightarrow> m_min m \<le> p \<and> p \<le> m_max m \<and> (p - m_min m) mod m_tick m = 0"

definition is_buy_msg :: "InboundOrderMsg \<Rightarrow> bool" where
  "is_buy_msg msg \<longleftrightarrow> side_of_u8 (im_side msg) = Buy"

definition exchange_new :: "InboundOrderMsg \<Rightarrow> Exchange \<Rightarrow> ExecutionReport list \<times> Exchange" where
  "exchange_new msg x =
     (let rejected = ([report Reject (im_order_id msg) 0 0 0 (im_quantity msg)], x)
      in case x_market x (im_instrument_id msg) of
           None \<Rightarrow> rejected
         | Some m \<Rightarrow>
             if x_free x = 0 then rejected
             else
               (let s = is_buy_msg msg; own = m_quotes m s; opp = m_quotes m (\<not> s);
                    av = of_nat (crossing_qty s (im_price msg) opp);
                    (reps, own', opp') = order_spec (order_type_of_u8 (im_type msg)) s (m_valid m (im_price msg)) av
                      (msg_entry msg 0) own opp
                in (reps, x\<lparr>x_market := (x_market x)(im_instrument_id msg \<mapsto> m\<lparr>m_quotes := (\<lambda>z. if z = s then own' else opp')\<rparr>),
                     x_free := x_free x + (length own + length opp) - (length own' + length opp')\<rparr>)))"

definition exchange_cancel :: "InboundOrderMsg \<Rightarrow> Exchange \<Rightarrow> ExecutionReport list \<times> Exchange" where
  "exchange_cancel msg x =
     (case x_market x (im_instrument_id msg) of
        None \<Rightarrow> ([], x)
      | Some m \<Rightarrow>
          (case filter (\<lambda>e. e_id e = im_order_id msg) (m_quotes m True @ m_quotes m False) of
             [] \<Rightarrow> ([], x)
           | e # _ \<Rightarrow>
               ([report CancelAck (im_order_id msg) 0 0 0 (e_qty e)],
                x\<lparr>x_market := (x_market x)(im_instrument_id msg \<mapsto>
                    m\<lparr>m_quotes := (\<lambda>s. filter (\<lambda>e. e_id e \<noteq> im_order_id msg) (m_quotes m s))\<rparr>),
                  x_free := Suc (x_free x)\<rparr>)))"

definition exchange_step :: "InboundOrderMsg \<Rightarrow> Exchange \<Rightarrow> ExecutionReport list \<times> Exchange" where
  "exchange_step msg x =
     (case im_kind msg of
        NewOrder \<Rightarrow> exchange_new msg x
      | Cancel \<Rightarrow> exchange_cancel msg x
      | Modify \<Rightarrow> exchange_cancel msg x
      | InboundKind_raw _ \<Rightarrow> ([], x))"

fun exchange_run :: "InboundOrderMsg list \<Rightarrow> Exchange \<Rightarrow> ExecutionReport list \<times> Exchange" where
  "exchange_run [] x = ([], x)"
| "exchange_run (m # ms) x =
     (let (rs, y) = exchange_step m x; (ss, z) = exchange_run ms y in (rs @ ss, z))"

definition admissible :: "InboundOrderMsg \<Rightarrow> Exchange \<Rightarrow> bool" where
  "admissible msg x \<longleftrightarrow>
     (im_kind msg = NewOrder \<longrightarrow>
      (case x_market x (im_instrument_id msg) of
         None \<Rightarrow> True
       | Some m \<Rightarrow> x_free x = 0 \<or>
           (list_all (\<lambda>e. e_id e \<noteq> im_order_id msg) (m_quotes m True @ m_quotes m False) \<and>
            (case order_type_of_u8 (im_type msg) of
               Limit \<Rightarrow> m_valid m (im_price msg) \<and>
                 total_qty (m_quotes m (is_buy_msg msg)) + unat (im_quantity msg) < 2 ^ 32
             | FOK \<Rightarrow> if is_buy_msg msg then m_min m \<le> im_price msg
                 else im_price msg \<le> m_min m \<or> m_max m < im_price msg \<or>
                   (im_price msg - m_min m) mod m_tick m = 0
             | _ \<Rightarrow> True))))"

fun admissible_run :: "InboundOrderMsg list \<Rightarrow> Exchange \<Rightarrow> bool" where
  "admissible_run [] x = True"
| "admissible_run (m # ms) x = (admissible m x \<and> admissible_run ms (snd (exchange_step m x)))"

definition market_of :: "MatchingEngine \<Rightarrow> InstrumentId \<Rightarrow> Market option" where
  "market_of me iid = map_option (\<lambda>b. \<lparr>m_min = min_price b, m_max = max_price b, m_tick = tick_size b,
     m_quotes = (\<lambda>s. map unslot (view_of me iid s))\<rparr>) (books me iid)"

definition exchange_of :: "MatchingEngine \<Rightarrow> Exchange" where
  "exchange_of me = \<lparr>x_market = market_of me, x_free = length (free_list (pool me))\<rparr>"

text \<open>The engines that are exact: nothing leaked, every order indexed, no aggregate wrapped.\<close>

definition exact :: "MatchingEngine \<Rightarrow> bool" where
  "exact me \<longleftrightarrow> engine_inv me \<and> no_leak me \<and> (\<forall>iid. qty_exact me iid \<and> index_full me iid) \<and>
     (\<forall>iid s. total_qty (view_of me iid s) < 2 ^ 32)"

lemma exactD:
  assumes "exact me"
  shows "engine_inv me" "engine_ok me" "no_leak me" "qty_exact me iid" "index_full me iid"
    "total_qty (view_of me iid s) < 2 ^ 32"
  using assms by (simp_all add: exact_def engine_inv_def)

subsection \<open>Runs\<close>

lemma exchange_run_append:
  "exchange_run (ms @ ns) x =
     (let (rs, y) = exchange_run ms x; (ss, z) = exchange_run ns y in (rs @ ss, z))"
  by (induction ms arbitrary: x) (simp_all add: Let_def split: prod.splits)

lemma admissible_run_append:
  "admissible_run (ms @ ns) x \<longleftrightarrow> admissible_run ms x \<and> admissible_run ns (snd (exchange_run ms x))"
  by (induction ms arbitrary: x) (auto simp: Let_def split: prod.splits)

subsection \<open>Matching does not look at slots\<close>

lemma unslot_simps [simp]:
  "e_id (unslot e) = e_id e" "e_price (unslot e) = e_price e" "e_qty (unslot e) = e_qty e"
  "unslot (e\<lparr>e_qty := q\<rparr>) = (unslot e)\<lparr>e_qty := q\<rparr>" "unslot (msg_entry msg a) = msg_entry msg 0"
  by (simp_all add: unslot_def msg_entry_def)

lemma unslot_reads [simp]:
  "total_qty (map unslot es) = total_qty es" "crossing_qty s l (map unslot es) = crossing_qty s l es"
  by (simp_all add: total_qty_def crossing_qty_def filter_map comp_def)

lemma match_spec_unslot:
  "match_spec ok aid r (map unslot es) = (case match_spec ok aid r es of (reps, r', es') \<Rightarrow> (reps, r', map unslot es'))"
proof (induction es arbitrary: r)
  case (Cons e es)
  have "pair_reports aid r (unslot e) = pair_reports aid r e"
    by (simp add: pair_reports_def)
  then show ?case
    using Cons.IH by (simp add: Let_def split: prod.splits)
qed simp

lemma insert_entry_unslot:
  "insert_entry s (unslot e) (map unslot es) = map unslot (insert_entry s e es)"
  by (simp add: insert_entry_def takeWhile_map dropWhile_map comp_def)

lemma order_spec_unslot:
  "order_spec ty s v av (unslot e) (map unslot own) (map unslot opp) =
     (case order_spec ty s v av e own opp of (reps, own', opp') \<Rightarrow> (reps, map unslot own', map unslot opp'))"
proof (cases ty)
  case Limit
  obtain reps r es where m: "match_spec (crosses s (e_price e)) (e_id e) (e_qty e) opp = (reps, r, es)"
    by (metis prod.collapse)
  show ?thesis
    using insert_entry_unslot [of s "e\<lparr>e_qty := r\<rparr>" own] by (simp add: Limit match_spec_unslot m)
qed (simp_all add: match_spec_unslot split: prod.splits)

text \<open>The liquidity argument matters to fill-or-kill orders only, as a number.\<close>

lemma order_spec_av:
  "ty \<noteq> FOK \<or> av = av' \<Longrightarrow> order_spec ty s v av e own opp = order_spec ty s v av' e own opp"
  by (cases ty) auto

lemma order_spec_own:
  assumes "order_spec ty s v av e own opp = (reps, own', opp')"
  shows "total_qty own' \<le> total_qty own + (if ty = Limit then unat (e_qty e) else 0)"
    "total_qty opp' \<le> total_qty opp"
proof -
  have M: "total_qty es' \<le> total_qty opp \<and> unat r \<le> unat (e_qty e)"
    if "match_spec ok (e_id e) (e_qty e) opp = (rs, r, es')" for ok rs r es'
    using match_spec_conserves [OF that] by (simp add: word_le_nat_alt)
  show "total_qty own' \<le> total_qty own + (if ty = Limit then unat (e_qty e) else 0)"
    using assms by (cases ty) (auto simp: total_qty_insert split: prod.splits if_splits dest!: M)
  show "total_qty opp' \<le> total_qty opp"
    using assms by (cases ty) (auto split: prod.splits if_splits dest!: M)
qed

subsection \<open>Counting free slots\<close>

lemma view_slots_distinct:
  assumes E: "engine_repr me Q fl" and b: "books me iid = Some b"
  shows "distinct (map e_slot (view_of me iid True @ view_of me iid False))"
    "set (map e_slot (view_of me iid True @ view_of me iid False)) = live b (Q iid)"
proof -
  note R = settledD(2) [OF engine_reprD(5) [OF E b]]
  have v: "map e_slot (view_of me iid s) = prio b (Q iid) s" for s
    unfolding reads(1) [OF R b] by (simp add: side_view_def comp_def)
  have "set (prio b (Q iid) True) \<inter> set (prio b (Q iid) False) = {}"
    using side_of_prio [OF R] by blast
  then show "distinct (map e_slot (view_of me iid True @ view_of me iid False))"
    using distinct_prio [OF R] by (simp add: v)
  show "set (map e_slot (view_of me iid True @ view_of me iid False)) = live b (Q iid)"
    by (simp only: map_append v set_append live_prio)
qed

text \<open>Slots that rest on another instrument than \<open>iid\<close>.\<close>

definition elsewhere :: "MatchingEngine \<Rightarrow> InstrumentId \<Rightarrow> addr set" where
  "elsewhere me iid = (\<Union>j \<in> - {iid}. \<Union>s. e_slot ` set (view_of me j s))"

lemma card_three:
  assumes "A \<union> (B \<union> C) = D" "finite A" "finite B" "finite C" "A \<inter> B = {}" "A \<inter> C = {}" "B \<inter> C = {}"
  shows "card D = card A + (card B + card C)"
  using assms by (auto simp: card_Un_disjoint Int_Un_distrib)

lemma free_slots:
  assumes ok: "engine_ok me" and n: "no_leak me"
  shows "length (free_list (pool me)) + (length (view_of me iid True) + length (view_of me iid False)) +
    card (elsewhere me iid) = Capacity (pool me)"
proof -
  let ?V = "view_of me iid True @ view_of me iid False"
  obtain Q where E: "engine_repr me Q (free_list (pool me))"
    by (rule engine_repr_free [OF ok])
  have slots: "e_slot ` set (view_of me j s) \<subseteq> (case books me j of None \<Rightarrow> {} | Some b \<Rightarrow> live b (Q j))" for j s
    using view_slots_distinct(2) [OF E, of j] by (cases "books me j"; cases s) (auto simp: view_of_def)
  have rest: "resting me = e_slot ` set ?V \<union> elsewhere me iid"
    by (auto simp: resting_def elsewhere_def UNIV_bool)
  have here: "distinct (map e_slot ?V) \<and> e_slot ` set ?V \<inter> elsewhere me iid = {} \<and>
      e_slot ` set ?V \<inter> set (free_list (pool me)) = {}"
  proof (cases "books me iid")
    case None
    then show ?thesis by (simp add: view_of_def)
  next
    case (Some b)
    note V = view_slots_distinct [OF E Some]
    have "live b (Q iid) \<inter> (case books me j of None \<Rightarrow> {} | Some b \<Rightarrow> live b (Q j)) = {}" if "j \<noteq> iid" for j
      using engine_reprD(6) [OF E Some] that by (cases "books me j") auto
    then have "live b (Q iid) \<inter> elsewhere me iid = {}"
      using slots unfolding elsewhere_def by fastforce
    then show ?thesis
      using V settledD(4) [OF engine_reprD(5) [OF E Some]] by (simp add: image_Un)
  qed
  have "elsewhere me iid \<inter> set (free_list (pool me)) = {}"
  proof -
    have "(case books me j of None \<Rightarrow> {} | Some b \<Rightarrow> live b (Q j)) \<inter> set (free_list (pool me)) = {}" for j
      using settledD(4) [OF engine_reprD(5) [OF E]] by (cases "books me j") auto
    then show ?thesis
      using slots unfolding elsewhere_def by fastforce
  qed
  moreover have all: "set (free_list (pool me)) \<union> (e_slot ` set ?V \<union> elsewhere me iid) = {..<Capacity (pool me)}"
    using n by (simp add: no_leak_def rest)
  moreover have "finite (elsewhere me iid)"
    using all by (metis finite_Un finite_lessThan)
  ultimately have "card (set (free_list (pool me))) + (card (e_slot ` set ?V) + card (elsewhere me iid)) = card {..<Capacity (pool me)}"
    using here by (intro card_three [symmetric]) auto
  then have "card (set (free_list (pool me))) + (card (e_slot ` set ?V) + card (elsewhere me iid)) = Capacity (pool me)"
    by simp
  moreover have "card (e_slot ` set ?V) = length ?V"
    using here distinct_card [of "map e_slot ?V"] by (simp add: image_Un)
  moreover have "distinct (free_list (pool me))"
    using engine_reprD(1) [OF E] by (simp add: pool_repr_def)
  ultimately show ?thesis
    by (simp add: distinct_card)
qed

lemma free_slots_change:
  assumes "engine_ok me" "no_leak me" "engine_ok me'" "no_leak me'"
    and "Capacity (pool me') = Capacity (pool me)" "\<And>j. j \<noteq> iid \<Longrightarrow> view_of me' j = view_of me j"
  shows "length (free_list (pool me')) + (length (view_of me' iid True) + length (view_of me' iid False)) =
    length (free_list (pool me)) + (length (view_of me iid True) + length (view_of me iid False))"
proof -
  have "elsewhere me' iid = elsewhere me iid"
    unfolding elsewhere_def using assms(6) by simp
  then show ?thesis
    using free_slots [OF assms(1,2), of iid] free_slots [OF assms(3,4), of iid] assms(5) by simp
qed

subsection \<open>Reading the exchange off an engine\<close>

lemma exchange_of_simps [simp]:
  "x_market (exchange_of me) = market_of me" "x_free (exchange_of me) = length (free_list (pool me))"
  "(market_of me iid = None) = (books me iid = None)"
  by (simp_all add: exchange_of_def market_of_def)

lemma market_of_Some:
  "books me iid = Some b \<Longrightarrow> market_of me iid = Some \<lparr>m_min = min_price b, m_max = max_price b, m_tick = tick_size b,
     m_quotes = (\<lambda>s. map unslot (view_of me iid s))\<rparr>"
  by (simp add: market_of_def)

lemma market_of_same:
  assumes "rel_option same_grid (books me j) (books me' j)" and "view_of me' j = view_of me j"
  shows "market_of me' j = market_of me j"
  using assms by (cases "books me j"; cases "books me' j") (auto simp: market_of_def same_grid_def)

lemma m_valid_iff:
  assumes "engine_ok me" and b: "books me iid = Some b"
  shows "m_valid \<lparr>m_min = min_price b, m_max = max_price b, m_tick = tick_size b, m_quotes = q\<rparr> p = is_valid_price b p"
proof -
  obtain Q fl where E: "engine_repr me Q fl"
    using assms(1) by (auto simp: engine_ok_def)
  have "geometry b"
    using book_reprD(1) [OF settledD(2) [OF engine_reprD(5) [OF E b]]] .
  then have "0 < tick_size b"
    by (simp add: geometry_def valid_geometry_def)
  then show ?thesis
    by (auto simp: m_valid_def is_valid_price_def smod_nonneg)
qed

text \<open>The reports of the specification carry no time; stamping only adds it.\<close>

lemma untimed_report [simp]: "untimed (report k a c p q l) = report k a c p q l"
  by (simp add: untimed_def report_def)

lemma untimed_time [simp]: "untimed (r\<lparr>er_timestamp_ns := t\<rparr>) = untimed r"
  by (simp add: untimed_def)

lemma untimed_stamp [simp]: "map untimed (stamp clk n rs) = map untimed rs"
  by (induction rs arbitrary: n) (simp_all add: untimed_def)

lemma match_spec_untimed: "match_spec ok aid r es = (reps, r', es') \<Longrightarrow> map untimed reps = reps"
proof (induction es arbitrary: r reps)
  case (Cons e es)
  have P: "map untimed (pair_reports aid r e) = pair_reports aid r e"
    by (simp add: pair_reports_def Let_def)
  from Cons.prems show ?case
    by (cases rule: match_spec_cases) (use Cons.IH P in auto)
qed simp

lemma order_spec_untimed: "order_spec ty s v av e own opp = (reps, own', opp') \<Longrightarrow> map untimed reps = reps"
  by (cases ty) (auto simp: residual_ack_def split: prod.splits if_splits dest!: match_spec_untimed)

subsection \<open>The engine implements the exchange\<close>

text \<open>
  One message: the state read off the engine afterwards is the exchange's, the reports are the
  exchange's in the same order, and the engine stays exact.
\<close>

definition refines_step :: "ExecutionReport list \<times> Exchange \<Rightarrow> MatchingEngine \<Rightarrow> MatchingEngine \<Rightarrow> bool" where
  "refines_step spec me me' \<longleftrightarrow>
     exact me' \<and> exchange_of me' = snd spec \<and> map untimed (sent me') = map untimed (sent me) @ fst spec \<and>
     fills_executed me' = fills_executed me + of_nat (length (filter is_trade (fst spec)) div 2) \<and>
     orders_rejected me' = orders_rejected me + of_nat (length (filter (\<lambda>r. er_kind r = Reject) (fst spec)))"

text \<open>From the description of a handler to the step of the exchange.\<close>

lemma handled_refines:
  assumes X: "exact me" and H: "handled iid t reps V me me'" and b: "books me iid = Some b" and U: "uncrossed V"
    and nl: "no_leak me'" and q: "qty_exact me' iid" "index_full me' iid" and tot: "\<And>s. total_qty (V s) < 2 ^ 32"
    and un: "map untimed reps = reps"
  shows "refines_step (reps, (exchange_of me)\<lparr>
      x_market := (market_of me)(iid \<mapsto> \<lparr>m_min = min_price b, m_max = max_price b, m_tick = tick_size b,
        m_quotes = (\<lambda>s. map unslot (V s))\<rparr>),
      x_free := length (free_list (pool me)) + (length (view_of me iid True) + length (view_of me iid False)) -
        (length (V True) + length (V False))\<rparr>) me me'"
proof -
  note D = exactD [OF X] and K = handledD [OF H]
  have inv: "engine_inv me'"
    using dispatched_handled [OF D(1) H U] by (simp add: dispatched_def)
  have "qty_exact me' j \<and> index_full me' j \<and> total_qty (view_of me' j s) < 2 ^ 32" for j s
    using D K(2-5) q tot by (cases "j = iid") simp_all
  then have ex: "exact me'"
    using inv nl by (simp add: exact_def)
  obtain b' where b': "books me' iid = Some b'" "same_grid b b'"
    using K(6) [of iid] b by (auto simp: option_rel_Some1)
  have "market_of me' = (market_of me)(iid \<mapsto> \<lparr>m_min = min_price b, m_max = max_price b, m_tick = tick_size b,
        m_quotes = (\<lambda>s. map unslot (V s))\<rparr>)"
  proof
    fix j
    show "market_of me' j = ((market_of me)(iid \<mapsto> \<lparr>m_min = min_price b, m_max = max_price b, m_tick = tick_size b,
        m_quotes = (\<lambda>s. map unslot (V s))\<rparr>)) j"
      using b' K(2) market_of_same [OF K(6) K(3), of j] by (cases "j = iid") (simp_all add: market_of_def same_grid_def)
  qed
  moreover have "length (free_list (pool me')) + (length (V True) + length (V False)) =
      length (free_list (pool me)) + (length (view_of me iid True) + length (view_of me iid False))"
    using free_slots_change [OF D(2,3) K(1) nl K(9), of iid] K(3) by (simp add: K(2))
  ultimately show ?thesis
    using ex K(8,12,13) un by (simp add: refines_step_def exchange_of_def)
qed

lemma exact_same:
  assumes "exact me" and "pool me' = pool me" "books me' = books me"
    and "out_ok me'" "spsc_ok kPipelineQueueCapacity (inbound me')"
  shows "exact me'" "exchange_of me' = exchange_of me"
proof -
  note S = engine_inv_same [OF exactD(1) [OF assms(1)] assms(2-5)]
  have o: "orders me' = orders me"
    by (simp add: orders_def assms(2))
  have "qty_exact me' = qty_exact me" "index_full me' = index_full me"
    unfolding qty_exact_def [abs_def] index_full_def [abs_def] o assms(3) by (rule refl)+
  then show "exact me'"
    using assms(1,2) S by (simp add: exact_def no_leak_def resting_def)
  show "exchange_of me' = exchange_of me"
    using assms(2,3) S(2) by (simp add: exchange_of_def market_of_def [abs_def])
qed

lemma reject_refines:
  assumes X: "exact me"
  shows "run_meets 1 me (refines_step ([report Reject (im_order_id msg) 0 0 0 (im_quantity msg)], exchange_of me) me)
    (\<lambda>x. x) (reject_new msg me)"
proof (rule run_meets_mono [OF reject_new_meets [OF exactD(2) [OF X], of "im_instrument_id msg" msg]], elim conjE)
  fix me'
  assume H: "handled (im_instrument_id msg) 0 [report Reject (im_order_id msg) 0 0 0 (im_quantity msg)]
      (view_of me (im_instrument_id msg)) me me'"
    and same: "pool me' = pool me" "books me' = books me"
  note K = handledD [OF H]
  have "out_ok me'" "spsc_ok kPipelineQueueCapacity (inbound me')"
    using K(1) engine_okD by blast+
  then show "refines_step ([report Reject (im_order_id msg) 0 0 0 (im_quantity msg)], exchange_of me) me me'"
    using exact_same [OF X same] K(8,12,13) by (simp add: refines_step_def is_trade_def)
qed

lemma new_order_refines_exchange:
  assumes X: "exact me" and A: "admissible msg (exchange_of me)" and k: "im_kind msg = NewOrder"
  shows "run_meets (length (fst (exchange_new msg (exchange_of me)))) me
    (refines_step (exchange_new msg (exchange_of me)) me) (\<lambda>x. x) (handle_new_order msg me)"
proof -
  let ?iid = "im_instrument_id msg" and ?ty = "order_type_of_u8 (im_type msg)" and ?p = "im_price msg"
  note D = exactD [OF X]
  obtain Q where E: "engine_repr me Q (free_list (pool me))"
    by (rule engine_repr_free [OF D(2)])
  show ?thesis
  proof (cases "books me ?iid")
    case None
    then show ?thesis
      using reject_refines [OF X, of msg] by (simp add: handle_new_order_def book_for_def exchange_new_def market_of_def Let_def)
  next
    case b: (Some b)
    show ?thesis
    proof (cases "free_list (pool me)")
      case Nil
      then have "acquire (pool me) = (None, pool me)"
        using acquire_none engine_reprD(1) [OF E] by simp
      then show ?thesis
        using reject_refines [OF X, of msg] b Nil
        by (simp add: handle_new_order_def book_for_def exchange_new_def market_of_Some Let_def)
    next
      case (Cons a fl)
      define s where "s = is_buy_msg msg"
      let ?own = "view_of me ?iid s" and ?opp = "view_of me ?iid (\<not> s)"
      have sd: "s = (side_of_u8 (im_side msg) = Buy)"
        by (simp add: s_def is_buy_msg_def)
      let ?v = "is_valid_price b ?p" and ?av = "available_quantity_at_or_better b (side_of_u8 (im_side msg)) ?p"
      obtain reps own' opp' where sp: "order_spec ?ty s ?v ?av (msg_entry msg a) ?own ?opp = (reps, own', opp')"
        by (metis prod.collapse)
      note M = new_order_meets [OF D(2) refl b Cons refl sd refl refl sp]
      let ?V = "\<lambda>x. if x = s then own' else opp'"
      have adm: "\<And>z e. e \<in> set (view_of me ?iid z) \<Longrightarrow> e_id e \<noteq> im_order_id msg"
        "?ty = Limit \<Longrightarrow> ?v \<and> total_qty ?own + unat (im_quantity msg) < 2 ^ 32"
        "?ty = FOK \<Longrightarrow> limit_exact b s ?p"
      proof -
        have F: "list_all (\<lambda>e. e_id e \<noteq> im_order_id msg) (map unslot (view_of me ?iid True) @ map unslot (view_of me ?iid False))"
          using A k b Cons by (simp add: admissible_def market_of_Some)
        show "e_id e \<noteq> im_order_id msg" if "e \<in> set (view_of me ?iid z)" for z e
          using F that by (cases z) (auto simp: list_all_iff ball_Un)
        show "?ty = Limit \<Longrightarrow> ?v \<and> total_qty ?own + unat (im_quantity msg) < 2 ^ 32"
          using A k b Cons m_valid_iff [OF D(2) b] by (simp add: admissible_def market_of_Some s_def)
        show "?ty = FOK \<Longrightarrow> limit_exact b s ?p"
          using A k b Cons by (auto simp: admissible_def market_of_Some s_def limit_exact_def split: if_splits)
      qed
      have cq: "crossing_qty s ?p es \<le> total_qty es" for es
        by (induction es) (simp_all add: crossing_qty_simps)
      have av: "?ty \<noteq> FOK \<or> ?av = of_nat (crossing_qty s ?p ?opp)"
      proof (cases "?ty = FOK")
        case True
        then have "crossing_qty s ?p ?opp = unat ?av"
          using engine_available_exact [OF D(2) b D(4) sd, of ?p] adm(3) le_less_trans [OF cq D(6)] by simp
        then show ?thesis
          by simp
      qed simp
      have spec: "order_spec ?ty s ?v (of_nat (crossing_qty s ?p ?opp)) (msg_entry msg 0) (map unslot ?own) (map unslot ?opp) =
          (reps, map unslot own', map unslot opp')"
        using order_spec_unslot [of ?ty s ?v _ "msg_entry msg a" ?own ?opp] sp order_spec_av [OF av] by simp
      note O = order_spec_own [OF sp]
      have tot: "total_qty (?V z) < 2 ^ 32" for z
        using O adm(2) le_less_trans [OF O(2) D(6)] D(6) [of ?iid s] by (auto simp: msg_entry_def split: if_splits)
      have id: "(\<lambda>x. if x = s then ?own else ?opp) = view_of me ?iid"
        by (auto simp: fun_eq_iff)
      have U: "uncrossed ?V"
        using order_spec_uncrossed [OF sp] D(1) view_sorted [OF E] id by (simp add: engine_inv_def)
      have len: "length (?V True) + length (?V False) = length own' + length opp'"
        "length (view_of me ?iid True) + length (view_of me ?iid False) = length ?own + length ?opp"
        by (cases s; simp)+
      have map: "(\<lambda>z. map unslot (?V z)) = (\<lambda>z. if z = s then map unslot own' else map unslot opp')"
        by auto
      define x where "x = (exchange_of me)\<lparr>x_market := (market_of me)(?iid \<mapsto> \<lparr>m_min = min_price b, m_max = max_price b,
          m_tick = tick_size b, m_quotes = (\<lambda>z. if z = s then map unslot own' else map unslot opp')\<rparr>),
        x_free := length (free_list (pool me)) + (length ?own + length ?opp) - (length own' + length opp')\<rparr>"
      have new: "exchange_new msg (exchange_of me) = (reps, x)"
        using spec b Cons by (simp add: exchange_new_def market_of_Some m_valid_iff [OF D(2) b] Let_def x_def flip: s_def)
      show ?thesis
        unfolding new fst_conv
      proof (rule run_meets_mono [OF M], elim conjE)
        fix me'
        assume H: "handled ?iid 1 reps ?V me me'" and leak: "no_leak me \<longrightarrow>
            no_leak me' = slot_kept ?ty s ?v (msg_entry msg a) ?opp"
          and q: "qty_exact me ?iid \<longrightarrow> total_qty own' < 2 ^ 32 \<longrightarrow> qty_exact me' ?iid"
            "index_full me ?iid \<longrightarrow> (\<forall>s. \<forall>e \<in> set (view_of me ?iid s). e_id e \<noteq> im_order_id msg) \<longrightarrow> index_full me' ?iid"
        have nl: "no_leak me'"
          using leak D(3) adm(2) by (auto simp: slot_kept_def)
        have q': "qty_exact me' ?iid" "index_full me' ?iid"
          using q D(4,5) tot [of s] adm(1) by auto
        show "refines_step (reps, x) me me'"
          using handled_refines [OF X H b U nl q' tot order_spec_untimed [OF sp]]
          unfolding len map by (simp add: x_def)
      qed
    qed
  qed
qed

lemma filter_key: "distinct (map f xs) \<Longrightarrow> y \<in> set xs \<Longrightarrow> filter (\<lambda>x. f x = f y) xs = [y]"
  by (induction xs) (auto simp: filter_empty_conv image_iff)

lemma view_ids:
  assumes ok: "engine_ok me" and b: "books me iid = Some b" and full: "index_full me iid"
    and f: "find_order b i = Some a" and e: "e \<in> set (view_of me iid s)"
  shows "(e_slot e = a) = (e_id e = i)"
proof
  obtain s' e' where e': "e' \<in> set (view_of me iid s')" "e_id e' = i" "e_slot e' = a"
    using find_view [OF ok b f] by blast
  show "e_slot e = a" if "e_id e = i"
    using view_find(1) [OF ok b full e] that f by simp
  obtain Q fl where E: "engine_repr me Q fl"
    using ok by (auto simp: engine_ok_def)
  note V = view_slots_distinct(1) [OF E b]
  have "inj_on e_slot (set (view_of me iid True @ view_of me iid False))"
    using V distinct_map by blast
  moreover have "e \<in> set (view_of me iid True @ view_of me iid False)" "e' \<in> set (view_of me iid True @ view_of me iid False)"
    using e e'(1) by (cases s; cases s'; simp)+
  ultimately show "e_id e = i" if "e_slot e = a"
    using that e' by (metis inj_onD)
qed

lemma refines_skip: "exact me \<Longrightarrow> run_meets 0 me (refines_step ([], exchange_of me) me) (\<lambda>x. x) (Inr me)"
  by (rule run_meets_return) (simp_all add: refines_step_def)

lemma cancel_refines_exchange:
  assumes X: "exact me"
  shows "run_meets (length (fst (exchange_cancel msg (exchange_of me)))) me
    (refines_step (exchange_cancel msg (exchange_of me)) me) (\<lambda>x. x) (handle_cancel msg me)"
proof -
  let ?iid = "im_instrument_id msg" and ?i = "im_order_id msg"
  note D = exactD [OF X]
  note skip = refines_skip [OF X]
  show ?thesis
  proof (cases "books me ?iid")
    case None
    then show ?thesis
      using skip handle_cancel_unknown(1) by (simp add: exchange_cancel_def market_of_def)
  next
    case b: (Some b)
    let ?V = "view_of me ?iid True @ view_of me ?iid False"
    have all: "e \<in> set ?V \<longleftrightarrow> (\<exists>s. e \<in> set (view_of me ?iid s))" for e
      by (metis (full_types) Un_iff set_append)
    show ?thesis
    proof (cases "find_order b ?i")
      case None
      have "e_id e \<noteq> ?i" if "e \<in> set ?V" for e
        using that None view_find(1) [OF D(2) b D(5)] all by (metis option.distinct(1))
      then have "filter (\<lambda>e. e_id e = ?i) ?V = []"
        by (auto simp: filter_empty_conv)
      then have "filter (\<lambda>e. e_id e = ?i) (map unslot (view_of me ?iid True) @ map unslot (view_of me ?iid False)) = []"
        by (simp add: filter_map comp_def)
      then show ?thesis
        using skip handle_cancel_unknown(2) [OF b None] b by (simp add: exchange_cancel_def market_of_Some)
    next
      case (Some a)
      obtain Q fl where E: "engine_repr me Q fl"
        using D(2) by (auto simp: engine_ok_def)
      note ids = view_ids [OF D(2) b D(5) Some]
      let ?W = "\<lambda>s. filter (\<lambda>e. e_id e \<noteq> ?i) (view_of me ?iid s)"
      have W: "(\<lambda>s. filter (\<lambda>e. e_slot e \<noteq> a) (view_of me ?iid s)) = ?W"
        using ids by (intro ext filter_cong) auto
      obtain e where e: "e \<in> set ?V" "e_id e = ?i" "e_slot e = a"
        using find_view [OF D(2) b Some] all by blast
      have qa: "quantity (orders me a) = e_qty e"
        using view_find(2) [OF D(2) b D(5)] e all by metis
      have one: "filter (\<lambda>e. e_id e = ?i) ?V = [e]"
      proof -
        have "filter (\<lambda>e. e_id e = ?i) ?V = filter (\<lambda>x. e_slot x = a) ?V"
          using ids all by (intro filter_cong) blast+
        then show ?thesis
          using filter_key [OF view_slots_distinct(1) [OF E b] e(1)] e(3) by simp
      qed
      have len: "Suc (length (?W True) + length (?W False)) = length (view_of me ?iid True) + length (view_of me ?iid False)"
        using arg_cong [OF one, of length] sum_length_filter_compl [of "\<lambda>e. e_id e = ?i" ?V] by simp
      have U: "uncrossed ?W"
      proof (rule uncrossed_subset)
        show "uncrossed (view_of me ?iid)"
          using D(1) by (simp add: engine_inv_def)
      qed auto
      have tot: "total_qty (?W s) < 2 ^ 32" for s
      proof -
        have "total_qty (filter P es) \<le> total_qty es" for P es
          by (induction es) simp_all
        then show ?thesis
          using le_less_trans D(6) by blast
      qed
      have fl: "length (free_list (pool me)) + (length (view_of me ?iid True) + length (view_of me ?iid False)) -
          (length (?W True) + length (?W False)) = Suc (length (free_list (pool me)))"
        using len by simp
      have f1: "filter (\<lambda>e. e_id e = ?i) (map unslot (view_of me ?iid True) @ map unslot (view_of me ?iid False)) = [unslot e]"
        using arg_cong [OF one, of "map unslot"] by (simp add: filter_map comp_def)
      have f2: "(\<lambda>s. filter (\<lambda>e. e_id e \<noteq> ?i) (map unslot (view_of me ?iid s))) = (\<lambda>s. map unslot (?W s))"
        by (simp add: filter_map comp_def)
      let ?R = "report CancelAck ?i 0 0 0 (e_qty e)"
      define x where "x = (exchange_of me)\<lparr>x_market := (market_of me)(?iid \<mapsto> \<lparr>m_min = min_price b, m_max = max_price b,
          m_tick = tick_size b, m_quotes = (\<lambda>s. map unslot (?W s))\<rparr>), x_free := Suc (length (free_list (pool me)))\<rparr>"
      have new: "exchange_cancel msg (exchange_of me) = ([?R], x)"
        using b f1 f2 by (simp add: exchange_cancel_def market_of_Some x_def)
      show ?thesis
        unfolding new fst_conv list.size add_0 One_nat_def [symmetric]
      proof (rule run_meets_mono [OF handle_cancel_meets [OF E refl b Some]], unfold W qa, elim conjE)
        fix me'
        assume H: "handled ?iid 0 [?R] ?W me me'" and nl: "no_leak me \<longrightarrow> no_leak me'"
          and q: "qty_exact me ?iid \<longrightarrow> qty_exact me' ?iid" "index_full me ?iid \<longrightarrow> index_full me' ?iid"
        show "refines_step ([?R], x) me me'"
          using handled_refines [OF X H b U nl [rule_format, OF D(3)] q(1) [rule_format, OF D(4)]
              q(2) [rule_format, OF D(5)] tot] unfolding fl by (simp add: x_def)
      qed
    qed
  qed
qed

lemma dispatch_refines_exchange:
  assumes X: "exact me" and A: "admissible msg (exchange_of me)"
  shows "run_meets (length (fst (exchange_step msg (exchange_of me)))) me
    (refines_step (exchange_step msg (exchange_of me)) me) (\<lambda>x. x) (dispatch msg me)"
  using new_order_refines_exchange [OF X A] cancel_refines_exchange [OF X] refines_skip [OF X]
  by (cases "im_kind msg") (simp_all add: dispatch_def exchange_step_def)

text \<open>Trades are reported in pairs, so the fill counts of consecutive messages add up.\<close>

lemma match_spec_even: "match_spec ok aid r es = (reps, r', es') \<Longrightarrow> even (length (filter is_trade reps))"
proof (induction es arbitrary: r reps)
  case (Cons e es)
  have P: "length (filter is_trade (pair_reports aid r e)) = 2"
    by (simp add: pair_reports_def Let_def is_trade_def)
  from Cons.prems show ?case
    by (cases rule: match_spec_cases) (use Cons.IH P in auto)
qed simp

lemma order_spec_even: "order_spec ty s v av e own opp = (reps, own', opp') \<Longrightarrow> even (length (filter is_trade reps))"
  by (cases ty) (auto simp: residual_ack_def is_trade_def split: prod.splits if_splits dest!: match_spec_even)

lemma exchange_step_even: "even (length (filter is_trade (fst (exchange_step msg x))))"
proof -
  have "even (length (filter is_trade (fst (exchange_new msg x))))"
    unfolding exchange_new_def Let_def by (auto simp: is_trade_def split: option.split prod.split dest: order_spec_even)
  moreover have "even (length (filter is_trade (fst (exchange_cancel msg x))))"
    unfolding exchange_cancel_def by (auto simp: is_trade_def split: option.split list.split)
  ultimately show ?thesis
    by (simp add: exchange_step_def split: InboundKind.split)
qed

lemma refines_step_trans:
  assumes "refines_step (rs, x) me me1" and "refines_step (ss, y) me1 me2" and "even (length (filter is_trade rs))"
  shows "refines_step (rs @ ss, y) me me2"
proof -
  have "(length (filter is_trade rs) + n) div 2 = length (filter is_trade rs) div 2 + n div 2" for n
    using assms(3) by (rule div_plus_div_distrib_dvd_left)
  then show ?thesis
    using assms(1,2) by (simp add: refines_step_def)
qed

lemma dispatch_all_refines_exchange:
  assumes "exact me" and "admissible_run ms (exchange_of me)"
  shows "run_meets (length (fst (exchange_run ms (exchange_of me)))) me
    (refines_step (exchange_run ms (exchange_of me)) me) (\<lambda>x. x) (dispatch_all ms me)"
  using assms
proof (induction ms arbitrary: me)
  case Nil
  then show ?case
    using refines_skip by simp
next
  case (Cons m ms)
  obtain rs x ss y where st: "exchange_step m (exchange_of me) = (rs, x)" and r: "exchange_run ms x = (ss, y)"
    by (metis prod.collapse)
  have run: "exchange_run (m # ms) (exchange_of me) = (rs @ ss, y)"
    by (simp add: st r)
  have "run_meets (length rs + length ss) me (refines_step (rs @ ss, y) me) (\<lambda>x. x) (ebind (dispatch m me) (dispatch_all ms))"
  proof (rule run_meets_bind)
    show "run_meets (length rs) me (refines_step (rs, x) me) (\<lambda>x. x) (dispatch m me)"
      using dispatch_refines_exchange [OF Cons.prems(1), of m] Cons.prems(2) st by simp
    fix me1 assume S: "refines_step (rs, x) me me1"
    then have me1: "exact me1" "exchange_of me1 = x"
      by (simp_all add: refines_step_def)
    have "run_meets (length ss) me1 (refines_step (ss, y) me1) (\<lambda>x. x) (dispatch_all ms me1)"
      using Cons.IH [OF me1(1)] Cons.prems(2) st r me1(2) by simp
    then show "run_meets (length ss) me1 (refines_step (rs @ ss, y) me) (\<lambda>x. x) (dispatch_all ms me1)"
      by (rule run_meets_mono) (use refines_step_trans [OF S] exchange_step_even [of m "exchange_of me"] st in simp)
  qed
  then show ?case
    unfolding run by simp
qed

subsection \<open>Polling\<close>

lemma engine_poll_refines_exchange:
  fixes n :: nat
  assumes X: "exact me"
  defines "ms \<equiv> take (min n 64) (contents kPipelineQueueCapacity (inbound me))"
  assumes A: "admissible_run ms (exchange_of me)"
  shows "run_meets (length (fst (exchange_run ms (exchange_of me)))) me
    (\<lambda>(k, me'). ms = take k (contents kPipelineQueueCapacity (inbound me)) \<and>
       refines_step (exchange_run ms (exchange_of me)) me me') snd (engine_poll n me)"
proof -
  let ?cs = "contents kPipelineQueueCapacity (inbound me)" and ?k = "min (min n 64) (length (contents kPipelineQueueCapacity (inbound me)))"
  let ?P = "\<lambda>(k, me'). ms = take k ?cs \<and> refines_step (exchange_run ms (exchange_of me)) me me'"
  note D = exactD [OF X]
  obtain q where q: "spsc_ok kPipelineQueueCapacity q"
    and poll: "engine_poll n me = ebind (dispatch_all ms (me\<lparr>inbound := q\<rparr>))
      (\<lambda>me1. Inr (?k, me1\<lparr>orders_processed := orders_processed me1 + of_nat ?k\<rparr>))"
    using engine_poll_pops [OF engine_invD(2) [OF D(1)], of n] unfolding ms_def by blast
  let ?me0 = "me\<lparr>inbound := q\<rparr>"
  have X0: "exact ?me0" "exchange_of ?me0 = exchange_of me"
    using exact_same [OF X, of ?me0] q engine_invD(1) [OF D(1)] by (simp_all add: out_ok_def)
  have M: "run_meets (length (fst (exchange_run ms (exchange_of me)))) ?me0
      (refines_step (exchange_run ms (exchange_of me)) ?me0) (\<lambda>x. x) (dispatch_all ms ?me0)"
    using dispatch_all_refines_exchange [OF X0(1)] A by (simp add: X0(2))
  have "run_meets (length (fst (exchange_run ms (exchange_of me))) + 0) ?me0 ?P snd (engine_poll n me)"
    unfolding poll
  proof (rule run_meets_bind [OF M run_meets_return])
    fix me1 assume R: "refines_step (exchange_run ms (exchange_of me)) ?me0 me1"
    let ?me = "me1\<lparr>orders_processed := orders_processed me1 + of_nat ?k\<rparr>"
    have X1: "exact me1"
      using R by (simp add: refines_step_def)
    have "exact ?me" "exchange_of ?me = exchange_of me1"
      using exact_same [OF X1, of ?me] engine_invD [OF exactD(1) [OF X1]] by (simp_all add: out_ok_def)
    moreover have "ms = take ?k ?cs"
      by (simp add: ms_def min_def del: length_contents)
    ultimately show "?P (?k, ?me)"
      using R by (simp add: refines_step_def sent_def)
  qed (simp add: can_send_def)
  moreover have "can_send j ?me0 = can_send j me" for j
    by (simp add: can_send_def)
  ultimately show ?thesis
    unfolding add_0_right by (rule run_meets_start)
qed

subsection \<open>The start\<close>

lemma MatchingEngine_over_exact:
  assumes "pool_ok p" and "Capacity p < 2 ^ 32" and "spsc_ok kPipelineQueueCapacity inb"
    and "spsc_ok kPipelineQueueCapacity (fst outb)" and "set (free_list p) = {..<Capacity p}"
  shows "exact (MatchingEngine_over p inb outb clk ps)"
proof -
  have "view_of (MatchingEngine_over p inb outb clk ps) iid = (\<lambda>_. [])" for iid
    by (simp add: view_of_def MatchingEngine_over_def fun_eq_iff)
  then show ?thesis
    using MatchingEngine_over_inv [OF assms(1-4)] assms(5)
    by (simp add: exact_def no_leak_def resting_def qty_exact_def index_full_def MatchingEngine_over_def)
qed

definition empty_market :: "Price \<Rightarrow> Price \<Rightarrow> Price \<Rightarrow> Market" where
  "empty_market mn mx t = \<lparr>m_min = mn, m_max = mx, m_tick = t, m_quotes = (\<lambda>_. [])\<rparr>"

lemma add_instrument_exact:
  assumes X: "exact me" and geo: "valid_geometry mn mx t" and N: "books me iid = None"
  shows "exact (add_instrument me iid mn mx t)"
    "exchange_of (add_instrument me iid mn mx t) = (exchange_of me)\<lparr>x_market := (market_of me)(iid \<mapsto> empty_market mn mx t)\<rparr>"
proof -
  let ?b = "OrderBook_new iid mn mx t" and ?me = "add_instrument me iid mn mx t"
  note D = exactD [OF X] and A = add_instrument_inv [OF exactD(1) [OF X] geo, of iid]
  have me: "books ?me = (books me)(iid := Some ?b)" "pool ?me = pool me" "orders ?me = orders me"
    using N by (simp_all add: add_instrument_def orders_def)
  have v: "view_of ?me = (view_of me)(iid := (\<lambda>_. []))"
    using A(2) N by simp
  have R: "book_repr (orders ?me) ?b (\<lambda>_ _. [])"
    using geo by (rule OrderBook_new_repr)
  have b: "books ?me iid = Some ?b"
    by (simp add: me)
  have new: "qty_exact ?me iid" "index_full ?me iid"
    using reads(2,3) [OF R b] OrderBook_new_qty by (simp_all add: index_complete_def live_def)
  have old: "qty_exact ?me j = qty_exact me j" "index_full ?me j = index_full me j" if "j \<noteq> iid" for j
    using that unfolding qty_exact_def index_full_def me by simp_all
  have "qty_exact ?me j \<and> index_full ?me j \<and> total_qty (view_of ?me j s) < 2 ^ 32" for j s
    using new old D by (cases "j = iid") (simp_all add: v)
  moreover have "view_of me iid = (\<lambda>_. [])"
    by (simp add: view_of_def N fun_eq_iff)
  then have "view_of ?me = view_of me"
    by (simp add: v fun_upd_idem)
  then have "no_leak ?me"
    using D(3) by (simp add: no_leak_def resting_def me)
  ultimately show "exact ?me"
    using A(1) by (simp add: exact_def)
  have "market_of ?me = (market_of me)(iid \<mapsto> empty_market mn mx t)"
  proof
    show "market_of ?me j = ((market_of me)(iid \<mapsto> empty_market mn mx t)) j" for j
      by (simp add: market_of_def me v empty_market_def OrderBook_new_fields)
  qed
  then show "exchange_of ?me = (exchange_of me)\<lparr>x_market := (market_of me)(iid \<mapsto> empty_market mn mx t)\<rparr>"
    by (simp add: exchange_of_def me)
qed

section \<open>The engine against the abstract exchange\<close>

text \<open>C1: The matching engine implements the abstract exchange. For every sequence of admissible
  messages, if the engine gets through them, the markets and the number of free slots that can be
  read off it are those of the exchange, the reports it has sent are the exchange's reports in the
  same order, and the two counters count the trades and the rejections among them; and the engine
  does get through them when the outbound queue takes as many reports as the exchange sends.\<close>

theorem engine_implements_exchange:
  assumes X: "exact me" and A: "admissible_run ms (exchange_of me)"
    and spec: "exchange_run ms (exchange_of me) = (reps, x)"
  shows "(\<forall>me'. dispatch_all ms me = Inr me' \<longrightarrow>
      exact me' \<and> exchange_of me' = x \<and> map untimed (sent me') = map untimed (sent me) @ reps \<and>
      fills_executed me' = fills_executed me + of_nat (length (filter is_trade reps) div 2) \<and>
      orders_rejected me' = orders_rejected me + of_nat (length (filter (\<lambda>r. er_kind r = Reject) reps))) \<and>
    (can_send (length reps) me \<longrightarrow> (\<exists>me'. dispatch_all ms me = Inr me'))"
proof -
  note M = dispatch_all_refines_exchange [OF X A, unfolded spec fst_conv]
  show ?thesis
    using run_meetsD(1) [OF M] run_meetsD(3) [OF M, of 0] by (auto simp: refines_step_def)
qed

definition ex_exchange :: Exchange where
  "ex_exchange = \<lparr>x_market = [7 \<mapsto> empty_market 100 110 1], x_free = 4\<rparr>"

lemma ex_engine_exchange: "exact ex_engine" "exchange_of ex_engine = ex_exchange"
proof -
  have fl: "set (free_list ex_pool) = {..<Capacity ex_pool}"
    unfolding pool_repr_free_list [OF ex_pool_ok(1)] ex_pool_ok(3) by auto
  have X: "exact ex_start"
    unfolding ex_start_def using ex_pool_ok fl by (intro MatchingEngine_over_exact) (simp_all add: ex_queue_ok)
  have N: "books ex_start 7 = None" "pool ex_start = ex_pool" "market_of ex_start = Map.empty"
    by (simp_all add: ex_start_def MatchingEngine_over_def market_of_def fun_eq_iff)
  note A = add_instrument_exact [OF X ex_geometry N(1)]
  show "exact ex_engine"
    using A(1) by (simp add: ex_engine_def)
  show "exchange_of ex_engine = ex_exchange"
    using A(2) pool_repr_free_list [OF ex_pool_ok(1)]
    by (simp add: ex_engine_def ex_exchange_def N exchange_of_def)
qed

text \<open>A bid for ten, a seller of four at a lower limit, and a cancel of what is left of the bid.\<close>

definition ex_session :: "InboundOrderMsg list" where
  "ex_session = [ex_msg, ex_sell 0 4, ex_cancel 1]"

definition ex_session_reports :: "ExecutionReport list" where
  "ex_session_reports = [report PartialFill 1 2 105 4 6, report Fill 2 1 105 4 0, report CancelAck 1 0 0 0 6]"

lemma ex_session_run:
  "exchange_run ex_session ex_exchange = (ex_session_reports, ex_exchange)"
  "admissible_run ex_session ex_exchange"
proof -
  let ?q1 = "\<lparr>e_slot = 0, e_id = 1, e_price = 105, e_qty = 10\<rparr>"
  let ?market = "\<lambda>bids. \<lparr>m_min = 100, m_max = 110, m_tick = 1, m_quotes = (\<lambda>s. if s then bids else [])\<rparr>"
  let ?x1 = "\<lparr>x_market = [7 \<mapsto> ?market [?q1]], x_free = 3\<rparr>"
  let ?x2 = "\<lparr>x_market = [7 \<mapsto> ?market [?q1\<lparr>e_qty := 6\<rparr>]], x_free = 3\<rparr>"
  note M = ex_msg_def ex_sell_def ex_cancel_def side_of_u8_def order_type_of_u8_def is_buy_msg_def msg_entry_def
  have 1: "exchange_step ex_msg ex_exchange = ([], ?x1)" "admissible ex_msg ex_exchange"
    by (simp_all add: exchange_step_def exchange_new_def ex_exchange_def empty_market_def M insert_entry_def m_valid_def
        admissible_def total_qty_def cong: if_cong)
  have 2: "exchange_step (ex_sell 0 4) ?x1 = ([report PartialFill 1 2 105 4 6, report Fill 2 1 105 4 0], ?x2)"
    "admissible (ex_sell 0 4) ?x1"
    by (simp_all add: exchange_step_def exchange_new_def M pair_reports_def crosses_def m_valid_def admissible_def total_qty_def fun_eq_iff cong: if_cong)
  have 3: "exchange_step (ex_cancel 1) ?x2 = ([report CancelAck 1 0 0 0 6], ex_exchange)" "admissible (ex_cancel 1) ?x2"
    by (simp_all add: exchange_step_def exchange_cancel_def M ex_exchange_def empty_market_def admissible_def fun_eq_iff cong: if_cong)
  show "exchange_run ex_session ex_exchange = (ex_session_reports, ex_exchange)" "admissible_run ex_session ex_exchange"
    by (simp_all add: ex_session_def ex_session_reports_def 1 2 3)
qed

theorem engine_implements_exchange_witness:
  "\<exists>me'. dispatch_all ex_session ex_engine = Inr me' \<and> exchange_of me' = ex_exchange \<and>
     map untimed (sent me') = ex_session_reports \<and> fills_executed me' = fills_executed ex_engine + 1"
proof -
  note W = engine_implements_exchange [OF ex_engine_exchange(1), of ex_session, unfolded ex_engine_exchange(2), OF ex_session_run(2,1)]
  have "can_send (length ex_session_reports) ex_engine"
    by (rule can_send_le [OF _ ex_engine_can_send]) (simp add: ex_session_reports_def)
  then obtain me' where "dispatch_all ex_session ex_engine = Inr me'"
    using W by blast
  moreover have "sent ex_engine = []"
    by (simp add: sent_def stream_def ex_engine_fields spsc_new_ok [OF kPipelineQueueCapacity_single_bit])
  ultimately show ?thesis
    using W by (auto simp: ex_session_reports_def is_trade_def)
qed

end
