(* ===== verification/Daemon_Trace.thy ===== *)
theory Daemon_Trace
  imports Live_Run Exchange
begin

section \<open>From the wire to the wire\<close>

text \<open>
  What the daemon as a whole does with the bytes it receives: the reports its engine sends are
  those of the abstract exchange on the decoded messages, and the requests the sender hands to
  the kernel spell these reports. The counters that \<open>main\<close> prints at the end count what they
  are said to count.
\<close>

text \<open>The exchange the daemon opens: one instrument, a full pool.\<close>

definition daemon_exchange :: Exchange where
  "daemon_exchange = \<lparr>x_market = [1 \<mapsto> empty_market 1000 100000 1], x_free = kDefaultPoolCapacity\<rparr>"

text \<open>The engine has done what the exchange does on the messages \<open>ms\<close>.\<close>

definition follows :: "InboundOrderMsg list \<Rightarrow> MatchingEngine \<Rightarrow> bool" where
  "follows ms me \<longleftrightarrow> (admissible_run ms daemon_exchange \<longrightarrow>
     exact me \<and> exchange_run ms daemon_exchange = (map untimed (sent me), exchange_of me) \<and>
     fills_executed me = of_nat (length (filter is_trade (sent me)) div 2) \<and>
     orders_rejected me = of_nat (length (filter (\<lambda>r. er_kind r = Reject) (sent me))))"

lemma untimed_kind [simp]: "er_kind (untimed r) = er_kind r" "is_trade (untimed r) = is_trade r"
  by (simp_all add: untimed_def is_trade_def)

lemma count_untimed:
  "length (filter is_trade (map untimed rs)) = length (filter is_trade rs)"
  "length (filter (\<lambda>r. er_kind r = Reject) (map untimed rs)) = length (filter (\<lambda>r. er_kind r = Reject) rs)"
  by (simp_all add: filter_map comp_def)

lemma exchange_run_even: "even (length (filter is_trade (fst (exchange_run ms x))))"
proof (induction ms arbitrary: x)
  case (Cons m ms)
  then show ?case
    using exchange_step_even [of m x] by (simp add: Let_def split: prod.splits) (metis fst_conv)
qed simp

lemma follows_poll:
  assumes F: "follows ms me" and run: "engine_poll n me = Inr (k, me')"
  shows "follows (ms @ take k (contents kPipelineQueueCapacity (inbound me))) me'"
  unfolding follows_def
proof
  let ?ns = "take k (contents kPipelineQueueCapacity (inbound me))"
  assume "admissible_run (ms @ ?ns) daemon_exchange"
  then have A: "admissible_run ms daemon_exchange" "admissible_run ?ns (snd (exchange_run ms daemon_exchange))"
    by (simp_all add: admissible_run_append)
  have X: "exact me" "exchange_run ms daemon_exchange = (map untimed (sent me), exchange_of me)"
    "fills_executed me = of_nat (length (filter is_trade (sent me)) div 2)"
    "orders_rejected me = of_nat (length (filter (\<lambda>r. er_kind r = Reject) (sent me)))"
    using F A(1) by (simp_all add: follows_def)
  obtain rs x where r: "exchange_run ?ns (exchange_of me) = (rs, x)"
    by fastforce
  have ns: "take (min n 64) (contents kPipelineQueueCapacity (inbound me)) = ?ns"
    using run_meetsD(1) [OF engine_poll_meets [OF exactD(1) [OF X(1)] refl, of n] run] by (auto simp: min_def del: length_contents)
  have R: "refines_step (rs, x) me me'"
    using run_meetsD(1) [OF engine_poll_refines_exchange [OF X(1), of n, unfolded ns] run] A(2) X(2) r by simp
  then have sent: "map untimed (sent me') = map untimed (sent me) @ rs"
    by (simp add: refines_step_def)
  have e: "even (length (filter is_trade (sent me)))"
    using exchange_run_even [of ms daemon_exchange] by (simp only: X(2) fst_conv count_untimed)
  have n: "length (filter is_trade (sent me')) = length (filter is_trade (sent me)) + length (filter is_trade rs)"
    "length (filter (\<lambda>r. er_kind r = Reject) (sent me')) =
      length (filter (\<lambda>r. er_kind r = Reject) (sent me)) + length (filter (\<lambda>r. er_kind r = Reject) rs)"
    using arg_cong [OF sent, of "\<lambda>rs. length (filter is_trade rs)"]
      arg_cong [OF sent, of "\<lambda>rs. length (filter (\<lambda>r. er_kind r = Reject) rs)"]
    by (simp_all only: filter_append length_append count_untimed)
  show "exact me' \<and> exchange_run (ms @ ?ns) daemon_exchange = (map untimed (sent me'), exchange_of me') \<and>
     fills_executed me' = of_nat (length (filter is_trade (sent me')) div 2) \<and>
     orders_rejected me' = of_nat (length (filter (\<lambda>r. er_kind r = Reject) (sent me')))"
    using R X(2-4) n div_plus_div_distrib_dvd_left [OF e]
    by (simp add: refines_step_def exchange_run_append r)
qed

lemma follows_same:
  assumes "follows ms me" and "pool me' = pool me" "books me' = books me" "sent me' = sent me"
    and "fills_executed me' = fills_executed me" "orders_rejected me' = orders_rejected me"
    and "out_ok me'" "spsc_ok kPipelineQueueCapacity (inbound me')"
  shows "follows ms me'"
  using assms exact_same [OF _ assms(2,3,7,8)] by (simp add: follows_def)

subsection \<open>The invariant\<close>

definition decoder_tally :: "u8 list list \<Rightarrow> Decoder" where
  "decoder_tally decoded = \<lparr>decoded_count = of_nat (length (concat (map (\<lambda>bs. fst (parse_stream bs)) decoded))),
     error_count = of_nat (sum_list (map (\<lambda>bs. snd (parse_stream bs)) decoded)),
     spans_seen = of_nat (length decoded)\<rparr>"

lemma batch_counted_tally:
  "batch_counted mem spans (decoder_tally xs) = decoder_tally (xs @ map (span_bytes mem) spans)"
  by (simp add: batch_counted_def decoder_tally_def batch_msgs_def batch_errors_def comp_def)

definition tallied :: "'r Daemon \<Rightarrow> bool" where
  "tallied s \<longleftrightarrow> rx_tally (receiver s) \<and>
     map length (posted_bytes s) = map (\<lambda>sp. unat (rs_len sp)) (stream kPipelineQueueCapacity (raw_ch (receiver s))) \<and>
     decoder s = decoder_tally (take (length (snd (raw_ch (receiver s)))) (posted_bytes s)) \<and>
     orders_processed (engine s) = of_nat (length (heard s)) \<and>
     reports_sent (sender s) = of_nat (length (snd (outbound (engine s))))"

definition trace_inv :: "('r \<Rightarrow> ring_view) \<Rightarrow> 'r Daemon \<Rightarrow> bool" where
  "trace_inv view s \<longleftrightarrow> daemon_inv view s \<and> pauses (engine s) = [] \<and>
     tx_wire view (sender s) (snd (outbound (engine s))) \<and> follows (heard s) (engine s) \<and> tallied s"

lemma trace_invD:
  assumes "trace_inv view s"
  shows "daemon_inv view s" "pauses (engine s) = []" "tx_wire view (sender s) (snd (outbound (engine s)))"
    "follows (heard s) (engine s)" "tallied s"
  using assms by (simp_all add: trace_inv_def)

lemma receiver_turn_trace:
  assumes C: "uring_contract U 256 view" and I: "trace_inv view s" and t: "receiver_turn U s = Inr t"
  shows "trace_inv view t"
proof -
  note D = trace_invD [OF I] and L = deliveredD [OF daemon_invD(5) [OF trace_invD(1) [OF I]]]
  obtain n rx ys where p: "rx_poll U 65 (receiver s) = Inr (n, rx)"
    and str: "stream kPipelineQueueCapacity (raw_ch rx) = stream kPipelineQueueCapacity (raw_ch (receiver s)) @ ys"
    and I': "rx_inv view (length (snd (raw_ch (receiver s)))) rx"
    and teq: "t = s\<lparr>receiver := rx, posted_bytes := posted_bytes s @ map (span_bytes (d_mem s)) ys\<rparr>"
    by (rule receiver_turn_result [OF C daemon_inv_lines [OF D(1)] t])
  have "length (span_bytes (d_mem s) sp) = unat (rs_len sp)" if "sp \<in> set ys" for sp
  proof -
    have "sp \<in> set (lent (length (snd (raw_ch (receiver s)))) rx)"
      unfolding lent_def str using that by (simp add: stream_def [of _ "raw_ch (receiver s)"])
    then have "span_ok rx sp"
      using rx_ownD(8) [of view "length (snd (raw_ch (receiver s)))" "{#}" rx] I' by (simp add: rx_inv_def list_all_iff)
    then show ?thesis
      by (simp add: span_ok_def span_bytes_def)
  qed
  then have len: "map length (posted_bytes t) = map (\<lambda>sp. unat (rs_len sp)) (stream kPipelineQueueCapacity (raw_ch rx))"
    using D(5) by (simp add: tallied_def teq str)
  have "rx_tally rx"
    using rx_poll_tally [OF C daemon_invD(2) [OF D(1)] _ p] D(5) by (simp add: tallied_def)
  moreover have "snd (raw_ch rx) = snd (raw_ch (receiver s))"
    using rx_poll_silent [OF p daemon_invD(3) [OF D(1)]] by simp
  moreover have "length (snd (raw_ch (receiver s))) \<le> length (posted_bytes s)"
    using L(1) by (simp add: stream_def del: length_contents)
  ultimately have "tallied t"
    using D(5) len by (simp add: tallied_def teq)
  then show ?thesis
    using D(2-4) receiver_turn_inv [OF C D(1) t] by (simp add: trace_inv_def teq)
qed

lemma decoder_turn_trace:
  assumes I: "trace_inv view s" and t: "decoder_turn s = Inr t"
  shows "trace_inv view t"
proof -
  let ?me = "engine s" and ?R = "length (snd (raw_ch (receiver s)))"
  let ?spans = "contents kPipelineQueueCapacity (fst (raw_ch (receiver s)))"
  note D = trace_invD [OF I] and D' = daemon_invD [OF trace_invD(1) [OF I]]
  obtain rq inb ret where R: "t = s\<lparr>decoder := batch_counted (d_mem s) (take 64 ?spans) (decoder s),
       receiver := (receiver s)\<lparr>raw_ch := (rq, snd (raw_ch (receiver s)) @ take 64 ?spans), ret_q := ret\<rparr>,
       engine := ?me\<lparr>inbound := inb\<rparr>\<rparr>"
    "contents kPipelineQueueCapacity rq = drop 64 ?spans" "spsc_ok kPipelineQueueCapacity inb"
    by (rule decoder_turn_result [OF daemon_inv_lines [OF D(1)] t])
  have F: "follows (heard s) (engine t)"
    by (rule follows_same [OF D(4)]) (use engine_invD(1) [OF D'(1)] R(3) in \<open>simp_all add: R(1) sent_def out_ok_def\<close>)
  have "decoder t = decoder_tally (take (length (snd (raw_ch (receiver t)))) (posted_bytes s))"
    using D(5) pending_bytes [OF D'(5), of 64]
    by (simp add: R(1) tallied_def batch_counted_tally take_add del: length_contents)
  moreover have "rx_tally (receiver t)"
    "stream kPipelineQueueCapacity (raw_ch (receiver t)) = stream kPipelineQueueCapacity (raw_ch (receiver s))"
    using D(5) R(2) by (simp_all add: tallied_def R(1) rx_tally_def stream_def)
  ultimately have "tallied t"
    using D(5) unfolding tallied_def by (simp add: R(1) del: length_contents map_append)
  then show ?thesis
    using D(2,3) F decoder_turn_inv [OF D(1) t] by (simp add: trace_inv_def R(1))
qed

lemma matching_turn_trace:
  assumes I: "trace_inv view s" and t: "matching_turn s = Inr t"
  shows "trace_inv view t"
proof -
  let ?cs = "contents kPipelineQueueCapacity (inbound (engine s))"
  note D = trace_invD [OF I]
  obtain k me where p: "engine_poll 64 (engine s) = Inr (k, me)"
    and teq: "t = s\<lparr>engine := me, heard := heard s @ take k ?cs\<rparr>"
    using t by (auto simp: matching_turn_def ebind_Inr_iff)
  have k: "k \<le> length ?cs" "orders_processed me = orders_processed (engine s) + of_nat k"
    using run_meetsD(1) [OF engine_poll_meets [OF daemon_invD(1) [OF D(1)] refl, of 64] p]
    by (auto simp del: length_contents)
  have Q: "pauses me = []" "snd (outbound me) = snd (outbound (engine s))"
    using engine_poll_quiet [OF p] D(2) by (simp_all add: quiet_def)
  have "tallied t"
    using D(5) k by (simp add: tallied_def teq Q(2) del: length_contents)
  then show ?thesis
    using D(3) Q follows_poll [OF D(4) p] matching_turn_inv [OF D(1) t] by (simp add: trace_inv_def teq)
qed

lemma sender_turn_trace:
  assumes C: "uring_contract U 256 view" and I: "trace_inv view s" and t: "sender_turn U fuel s = Inr t"
  shows "trace_inv view t"
proof -
  let ?me = "engine s" and ?tx0 = "(sender s)\<lparr>out_q := fst (outbound (engine s))\<rparr>"
  note D = trace_invD [OF I] and D' = daemon_invD [OF trace_invD(1) [OF I]]
  obtain n tx where R: "t = s\<lparr>sender := tx, engine := ?me\<lparr>outbound := (out_q tx, sent ?me)\<rparr>\<rparr>"
    "tx_inv view ?tx0" "tx_poll U fuel ?tx0 = Inr (n, tx)"
    "spsc_ok kPipelineQueueCapacity (out_q tx)" "contents kPipelineQueueCapacity (out_q tx) = []"
    by (rule sender_turn_result [OF C D(1) t])
  have W: "tx_wire view tx (sent ?me)"
    using tx_poll_wire [OF C R(2) _ R(3)] D(3) by (simp add: sent_def stream_def)
  have S: "sent (engine t) = sent ?me"
    using R(5) by (simp add: R(1) sent_def stream_def)
  have F: "follows (heard s) (engine t)"
    by (rule follows_same [OF D(4) _ _ S]) (use engine_invD(2) [OF D'(1)] R(4) in \<open>simp_all add: R(1) out_ok_def\<close>)
  have "reports_sent tx = reports_sent (sender s) + of_nat (length (contents kPipelineQueueCapacity (fst (outbound ?me))))"
    using tx_poll_complete [OF C R(2,3)] by (simp del: length_contents)
  then have "tallied t"
    using D(5) by (simp add: tallied_def R(1) sent_def stream_def del: length_contents)
  then show ?thesis
    using D(2) W F sender_turn_inv [OF C D(1) t] by (simp add: trace_inv_def R(1))
qed

lemma daemon_step_trace:
  assumes C: "uring_contract U 256 view" and I: "trace_inv view s" and S: "daemon_step U view s t"
  shows "trace_inv view t"
  using S
proof cases
  case (kernel q a b)
  then show ?thesis
    using I kernel_inv [OF trace_invD(1) [OF I]] by (simp add: trace_inv_def tallied_def)
next
  case (signal n)
  then show ?thesis
    using I by (simp add: trace_inv_def tallied_def daemon_inv_def delivered_def)
qed (auto intro: receiver_turn_trace decoder_turn_trace matching_turn_trace sender_turn_trace C I)

subsection \<open>When the engine returns\<close>

text \<open>Without a consumer, what has been sent is in the outbound queue.\<close>

lemma refines_step_fits:
  assumes R: "refines_step spec me me'" and Q: "quiet me me'" "pauses me = []"
  shows "length (contents kPipelineQueueCapacity (fst (outbound me))) + length (fst spec) \<le> unat kPipelineQueueCapacity"
proof -
  have "length (sent me') = length (sent me) + length (fst spec)"
    using R unfolding refines_step_def by (metis length_append length_map)
  moreover have "snd (outbound me') = snd (outbound me)"
    using Q by (simp add: quiet_def)
  moreover have "spsc_ok kPipelineQueueCapacity (fst (outbound me'))"
    using R engine_invD(1) [OF exactD(1)] by (simp add: refines_step_def out_ok_def)
  ultimately show ?thesis
    using sq.bounded [of kPipelineQueueCapacity "fst (outbound me')"] by (simp add: sent_def stream_def del: length_contents)
qed

text \<open>The engine's poll returns exactly when its reports fit the outbound queue.\<close>

lemma matching_turn_returns_iff:
  assumes X: "exact (engine s)" and P: "pauses (engine s) = []"
    and A: "admissible_run (take 64 (contents kPipelineQueueCapacity (inbound (engine s)))) (exchange_of (engine s))"
  shows "(\<exists>t. matching_turn s = Inr t) \<longleftrightarrow>
    length (contents kPipelineQueueCapacity (fst (outbound (engine s)))) +
    length (fst (exchange_run (take 64 (contents kPipelineQueueCapacity (inbound (engine s)))) (exchange_of (engine s))))
      \<le> unat kPipelineQueueCapacity"
proof -
  let ?me = "engine s" and ?ms = "take 64 (contents kPipelineQueueCapacity (inbound (engine s)))"
  let ?out = "contents kPipelineQueueCapacity (fst (outbound ?me))" and ?n = "length (fst (exchange_run ?ms (exchange_of ?me)))"
  note M = engine_poll_refines_exchange [OF X, of 64, simplified, OF A]
  have can: "can_send k ?me \<longleftrightarrow> k \<le> unat kPipelineQueueCapacity - length ?out" for k
    by (auto simp: can_send_def can_post_def P simp del: length_contents)
  have "length ?out + ?n \<le> unat kPipelineQueueCapacity" if r: "engine_poll 64 ?me = Inr (k, me')" for k me'
  proof (rule refines_step_fits [OF _ engine_poll_quiet [OF r] P])
    show "refines_step (exchange_run ?ms (exchange_of ?me)) ?me me'"
      using run_meetsD(1) [OF M r] unfolding prod.case by (rule conjunct2)
  qed
  then show ?thesis
    using run_meetsD(3) [OF M, of 0] can [of ?n] sq.bounded [OF engine_invD(1) [OF exactD(1) [OF X], unfolded out_ok_def]]
    by (fastforce simp: matching_turn_def ebind_Inr_iff simp del: length_contents)
qed

subsection \<open>The start\<close>

lemma arm_each_bytes: "arm_each U is rx = Inr rx' \<Longrightarrow> bytes_received rx' = bytes_received rx"
  by (induction "is" arbitrary: rx) (auto simp: ebind_Inr_iff dest!: arm_buf_keeps)

lemma UringReceiver_new_bytes: "UringReceiver_new U base fd raw ps ret = Inr rx \<Longrightarrow> bytes_received rx = 0"
  by (auto simp: UringReceiver_new_def arm_all_buffers_def init_fixed_buffers_def Let_def ebind_Inr_iff
      split: if_splits sum.splits prod.splits dest!: arm_each_bytes)

lemma main_setup_trace:
  assumes C: "uring_contract U 256 view" and m: "main_setup U mmap clk rb tb mem fd0 fd1 = Inr s"
  shows "trace_inv view s"
proof -
  obtain p rx tx where P: "OrderPool_new mmap kDefaultPoolCapacity = Inr p" "0 \<le> fd0"
    "UringReceiver_new U rb fd0 (fresh_raw, []) [] (SPSCQueue_new (\<lambda>_. 0)) = Inr rx"
    "UringSender_new U tb mem fd1 fresh_outbound = Inr tx"
    and s: "s = \<lparr>g_running = True, receiver = rx, decoder = Decoder_new,
       engine = add_instrument (MatchingEngine_over p fresh_inbound (fresh_outbound, []) clk []) 1 1000 100000 1,
       sender = tx, d_mem = mem, heard = [], posted_bytes = []\<rparr>"
    by (rule main_setup_parts [OF m])
  let ?me = "MatchingEngine_over p fresh_inbound (fresh_outbound, []) clk []"
  have p: "pool_ok p" "Capacity p = kDefaultPoolCapacity" "free_list p = [0..<kDefaultPoolCapacity]"
    using OrderPool_new_ok [OF _ P(1)] by (simp_all add: kDefaultPoolCapacity_def)
  have X: "exact ?me"
    using p by (intro MatchingEngine_over_exact) (auto simp: fresh_queues kDefaultPoolCapacity_def)
  have e: "books ?me 1 = None" "market_of ?me = Map.empty" "pool ?me = p"
    by (simp_all add: MatchingEngine_over_def market_of_def fun_eq_iff)
  note A = add_instrument_exact [OF X setup_geometry e(1)]
  have eng: "outbound (engine s) = (fresh_outbound, [])" "pauses (engine s) = []" "orders_processed (engine s) = 0"
    "fills_executed (engine s) = 0" "orders_rejected (engine s) = 0"
    by (simp_all add: s add_instrument_def MatchingEngine_over_def)
  have "exact (engine s)" "exchange_of (engine s) = daemon_exchange" "sent (engine s) = []"
    using A e p(3) eng(1) by (simp_all add: s daemon_exchange_def exchange_of_def sent_def stream_def fresh_queues)
  then have F: "follows (heard s) (engine s)"
    using eng by (simp add: follows_def s)
  have "raw_ch rx = (fresh_raw, [])"
  proof -
    have rb: "has_single_bit kBufReturnCapacity"
      by (simp add: has_single_bit_def kBufReturnCapacity_def upt_rec)
    obtain sq r where "rx_init_ring U = Inr (sq, r)"
      using P(2,3) by (auto simp: UringReceiver_new_def split: sum.splits)
    from UringReceiver_new_inv [OF C P(2) this, of "(fresh_raw, [])" "SPSCQueue_new (\<lambda>_. 0)" rb "[]"] P(3)
      spsc_new_ok [OF rb, of "\<lambda>_. 0 :: u32"] show ?thesis
      by (auto simp: stream_def fresh_queues)
  qed
  moreover have "view (tx_ring tx) = \<lparr>prepared = [], inflight = {#}, peeked = None\<rparr>" "reports_sent tx = 0"
    using UringSender_new_inv(4) [OF C P(4) fresh_queues(3)] P(4)
    by (auto simp: UringSender_new_def split: if_splits sum.splits)
  moreover have "bytes_received rx = 0"
    by (rule UringReceiver_new_bytes [OF P(3)])
  ultimately have "tallied s" "tx_wire view (sender s) (snd (outbound (engine s)))"
    using eng by (simp_all add: tallied_def rx_tally_def tx_wire_def s stream_def fresh_queues decoder_tally_def Decoder_new_def)
  then show ?thesis
    using main_setup_inv [OF C m] F eng(2) by (simp add: trace_inv_def)
qed

definition trace_good :: "'r liburing \<Rightarrow> ('r \<Rightarrow> ring_view) \<Rightarrow> 'r Daemon \<Rightarrow> bool" where
  "trace_good U view s \<longleftrightarrow> uring_contract U 256 view \<and> trace_inv view s"

interpretation trc: safety_machine "daemon_start U view" "daemon_step U view" "trace_good U view" for U view
  by unfold_locales (auto simp: daemon_start_def trace_good_def intro: main_setup_trace daemon_step_trace)

text \<open>A bid for ten and a seller of four at a lower limit, on the instrument \<open>main\<close> adds, through the whole daemon.\<close>

definition live_msgs :: "InboundOrderMsg list" where
  "live_msgs =
     [\<lparr>im_kind = NewOrder, im_order_id = 1, im_price = 2000, im_quantity = 10, im_instrument_id = 1, im_client_id = 1,
       im_side = 0, im_type = 0\<rparr>,
      \<lparr>im_kind = NewOrder, im_order_id = 2, im_price = 1990, im_quantity = 4, im_instrument_id = 1, im_client_id = 2,
       im_side = 1, im_type = 0\<rparr>]"

definition live_reports :: "ExecutionReport list" where
  "live_reports = [report PartialFill 1 2 2000 4 6, report Fill 2 1 2000 4 0]"

definition live_exchange :: Exchange where
  "live_exchange = \<lparr>x_market = [1 \<mapsto> (empty_market 1000 100000 1)\<lparr>m_quotes :=
     (\<lambda>s. if s then [\<lparr>e_slot = 0, e_id = 1, e_price = 2000, e_qty = 6\<rparr>] else [])\<rparr>], x_free = kDefaultPoolCapacity - 1\<rparr>"

lemma live_run:
  "exchange_run live_msgs daemon_exchange = (live_reports, live_exchange)" "admissible_run live_msgs daemon_exchange"
proof -
  let ?market = "\<lambda>q. (empty_market 1000 100000 1)\<lparr>m_quotes := (\<lambda>s. if s then [\<lparr>e_slot = 0, e_id = 1, e_price = 2000, e_qty = q\<rparr>] else [])\<rparr>"
  let ?x = "\<lambda>q. \<lparr>x_market = [1 \<mapsto> ?market q], x_free = kDefaultPoolCapacity - 1\<rparr>"
  note M = live_msgs_def side_of_u8_def order_type_of_u8_def is_buy_msg_def msg_entry_def empty_market_def
  have k: "1 < kDefaultPoolCapacity"
    by (simp add: kDefaultPoolCapacity_def)
  have 1: "exchange_step (hd live_msgs) daemon_exchange = ([], ?x 10)" "admissible (hd live_msgs) daemon_exchange"
    using k by (simp_all add: exchange_step_def exchange_new_def daemon_exchange_def M insert_entry_def m_valid_def
        admissible_def total_qty_def cong: if_cong)
  have 2: "exchange_step (last live_msgs) (?x 10) = (live_reports, ?x 6)" "admissible (last live_msgs) (?x 10)"
    using k by (simp_all add: exchange_step_def exchange_new_def M pair_reports_def crosses_def m_valid_def admissible_def
        total_qty_def live_reports_def fun_eq_iff cong: if_cong)
  have L: "live_msgs = [hd live_msgs, last live_msgs]"
    by (simp add: live_msgs_def)
  show "exchange_run live_msgs daemon_exchange = (live_reports, live_exchange)" "admissible_run live_msgs daemon_exchange"
    using arg_cong [OF L, of "\<lambda>ms. exchange_run ms daemon_exchange"] arg_cong [OF L, of "\<lambda>ms. admissible_run ms daemon_exchange"]
    by (simp_all add: 1 2 live_exchange_def del: One_nat_def)
qed

lemma live_matched:
  obtains s u v where "live_start live_msgs = Inr s" "daemon_start (live_ring live_msgs) sim_view s"
    "(daemon_step (live_ring live_msgs) sim_view)\<^sup>*\<^sup>* s u" "matching_turn u = Inr v" "heard v = live_msgs"
    "(daemon_step (live_ring live_msgs) sim_view)\<^sup>*\<^sup>* s v" "exchange_of (engine v) = live_exchange"
proof -
  have ms: "list_all wire_encodable live_msgs" "live_msgs \<noteq> []" "length (concat (map wire_of_msg live_msgs)) \<le> kBufSize"
    by (simp_all add: live_msgs_def wire_encodable_def int64_def wire_of_msg_length wire_sizes kBufSize_def)
  obtain s t u where s: "live_start live_msgs = Inr s" "daemon_start (live_ring live_msgs) sim_view s"
    "contents kPipelineQueueCapacity (inbound (engine u)) = live_msgs" "heard u = []"
    "fst (outbound (engine u)) = fresh_outbound" "(daemon_step (live_ring live_msgs) sim_view)\<^sup>*\<^sup>* s u"
    by (rule live_decoded [OF ms])
  have "trace_inv sim_view u"
    using trc.reachable_inv [OF s(2,6)] by (simp add: trace_good_def)
  note D = trace_invD [OF this]
  have X: "exact (engine u)" "exchange_of (engine u) = daemon_exchange"
    using D(4) by (simp_all add: s(4) follows_def)
  have tk: "take 64 live_msgs = live_msgs"
    by (simp add: live_msgs_def)
  have "\<exists>v. matching_turn u = Inr v"
    using matching_turn_returns_iff [OF X(1) D(2), unfolded s(3,5) tk X(2), OF live_run(2)]
    unfolding live_run(1) fresh_queues by (simp add: live_reports_def kPipelineQueueCapacity_def)
  then obtain v where v: "matching_turn u = Inr v" ..
  have "heard v = live_msgs"
  proof -
    obtain k me where p: "engine_poll 64 (engine u) = Inr (k, me)" "heard v = take k live_msgs"
      using v by (auto simp: matching_turn_def ebind_Inr_iff s(3,4))
    have "k = min (min 64 64) (length (contents kPipelineQueueCapacity (inbound (engine u))))"
      using run_meetsD(1) [OF engine_poll_meets [OF exactD(1) [OF X(1)] refl, of 64] p(1)] by auto
    then show ?thesis
      unfolding s(3) by (simp add: p(2) live_msgs_def)
  qed
  moreover have r: "(daemon_step (live_ring live_msgs) sim_view)\<^sup>*\<^sup>* s v"
    using s(6) daemon_step.matching_thread [OF v] by (rule rtranclp.rtrancl_into_rtrancl)
  moreover have "follows (heard v) (engine v)"
    using trc.reachable_inv [OF s(2) r] trace_invD(4) by (auto simp: trace_good_def)
  ultimately show thesis
    using that [OF s(1,2,6) v] live_run by (simp add: follows_def)
qed

subsection \<open>What the types leave open\<close>

lemma parse_stream_typed: "list_all wire_encodable (fst (parse_stream bs))"
proof (induction bs rule: parse_stream.induct)
  case (1 bs)
  let ?n = "unat (wh_msg_len (WireHeader_of_bytes bs))"
  have "wire_encodable m" if "parse_message b = Parsed m" for b m
  proof -
    have "int64 (sint w)" for w :: u64
      using sint_range_size [of w] by (simp add: int64_def word_size)
    then show ?thesis
      using that by (auto simp: parse_message_def new_order_msg_def cancel_order_msg_def wire_encodable_def
          split: WireMsgType.splits if_splits)
  qed
  then show ?case
    using 1 by (subst parse_stream.simps) (auto simp: Let_def split: prod.splits parsed.splits)
qed

lemma quotes_typed:
  assumes ok: "engine_ok me" and b: "books me iid = Some b" and e: "e \<in> set (view_of me iid s)"
  shows "e_qty e \<noteq> 0" "is_valid_price b (e_price e)"
proof -
  obtain Q fl where E: "engine_repr me Q fl"
    using ok by (auto simp: engine_ok_def)
  then have R: "book_repr (orders me) b (Q iid)"
    using b by (auto simp: engine_repr_def settled_def)
  obtain a where a: "a \<in> set (prio b (Q iid) s)" "e = entry_of (orders me) a"
    using e unfolding reads(1) [OF R b] side_view_def by auto
  show "e_qty e \<noteq> 0"
    using prio_qty [OF R a(1)] by (simp add: a(2))
  show "is_valid_price b (e_price e)"
    using prio_level [OF R a(1)] is_valid_price_iff [OF book_reprD(1) [OF R]] by (metis a(2) entry_of_simps(3))
qed

section \<open>Properties of the whole pipeline\<close>

text \<open>C2: Wire to wire, the daemon is an exchange. In every reachable state, the messages the engine has
  heard are a prefix of what the received bytes spell; as long as they are admissible, the reports
  the engine has sent are, up to their time stamps, those of the abstract exchange on these
  messages in the same order, and its markets are the exchange's; and the requests the sender has
  prepared spell, in order, the wire form of the latest of the reports it has taken, those in
  flight the wire form of earlier ones.\<close>

theorem wire_to_wire:
  assumes "daemon_start U view s0" and "(daemon_step U view)\<^sup>*\<^sup>* s0 s"
    and "admissible_run (heard s) daemon_exchange"
  shows "(\<exists>waiting. heard s @ waiting =
      concat (map (\<lambda>bs. fst (parse_stream bs)) (take (length (snd (raw_ch (receiver s)))) (posted_bytes s)))) \<and>
    exchange_run (heard s) daemon_exchange = (map untimed (sent (engine s)), exchange_of (engine s)) \<and>
    (\<exists>older. map report_bytes (snd (outbound (engine s))) =
        older @ map (req_bytes (sender s)) (prepared (view (tx_ring (sender s)))) \<and>
      image_mset (req_bytes (sender s)) (inflight (view (tx_ring (sender s)))) \<subseteq># mset older)"
proof -
  have I: "trace_inv view s"
    using trc.reachable_inv [OF assms(1,2)] by (simp add: trace_good_def)
  note D = trace_invD [OF I]
  show ?thesis
    using deliveredD(3) [OF daemon_invD(5) [OF D(1)]] D(3,4) assms(3) by (auto simp: follows_def tx_wire_def)
qed

theorem wire_to_wire_witness:
  "case live_start live_msgs of
     Inl _ \<Rightarrow> False
   | Inr s \<Rightarrow>
       (\<exists>u v. (daemon_step (live_ring live_msgs) sim_view)\<^sup>*\<^sup>* s u \<and> matching_turn u = Inr v \<and> heard v = live_msgs \<and>
          map untimed (sent (engine v)) = live_reports \<and> exchange_of (engine v) = live_exchange)"
proof -
  obtain s u v where s: "live_start live_msgs = Inr s" "daemon_start (live_ring live_msgs) sim_view s"
    "(daemon_step (live_ring live_msgs) sim_view)\<^sup>*\<^sup>* s u" "matching_turn u = Inr v" "heard v = live_msgs"
    "(daemon_step (live_ring live_msgs) sim_view)\<^sup>*\<^sup>* s v"
    by (rule live_matched)
  from wire_to_wire [OF s(2,6)] have "map untimed (sent (engine v)) = live_reports \<and> exchange_of (engine v) = live_exchange"
    using live_run by (simp add: s(5))
  then show ?thesis
    using s by auto
qed

text \<open>C22: The final statistics are exact, modulo the width of the counters. In every reachable state
  \<open>bytes_received\<close> is the number of bytes delivered, \<open>spans_seen\<close>, \<open>decoded_count\<close> and
  \<open>error_count\<close> count the decoded spans and the messages and errors in them, \<open>orders_processed\<close> the
  messages the engine has heard, \<open>reports_sent\<close> the reports taken by the sender; and for
  admissible messages \<open>fills_executed\<close> is half the number of trade reports and \<open>orders_rejected\<close> the
  number of rejections sent.\<close>

theorem statistics_exact:
  assumes "daemon_start U view s0" and "(daemon_step U view)\<^sup>*\<^sup>* s0 s"
  defines "decoded \<equiv> take (length (snd (raw_ch (receiver s)))) (posted_bytes s)"
  shows "bytes_received (receiver s) = of_nat (length (concat (posted_bytes s))) \<and>
    spans_seen (decoder s) = of_nat (length decoded) \<and>
    decoded_count (decoder s) = of_nat (length (heard s @ contents kPipelineQueueCapacity (inbound (engine s)))) \<and>
    error_count (decoder s) = of_nat (sum_list (map (\<lambda>bs. snd (parse_stream bs)) decoded)) \<and>
    orders_processed (engine s) = of_nat (length (heard s)) \<and>
    reports_sent (sender s) = of_nat (length (snd (outbound (engine s)))) \<and>
    (admissible_run (heard s) daemon_exchange \<longrightarrow>
      fills_executed (engine s) = of_nat (length (filter is_trade (sent (engine s))) div 2) \<and>
      orders_rejected (engine s) = of_nat (length (filter (\<lambda>r. er_kind r = Reject) (sent (engine s)))))"
proof -
  have I: "trace_inv view s"
    using trc.reachable_inv [OF assms(1,2)] by (simp add: trace_good_def)
  note D = trace_invD [OF I]
  have T: "bytes_received (receiver s) = of_nat (sum_list (map length (posted_bytes s)))" "decoder s = decoder_tally decoded"
    "orders_processed (engine s) = of_nat (length (heard s))"
    "reports_sent (sender s) = of_nat (length (snd (outbound (engine s))))"
    using D(5) by (simp_all add: tallied_def rx_tally_def decoded_def)
  have "heard s @ contents kPipelineQueueCapacity (inbound (engine s)) = concat (map (\<lambda>bs. fst (parse_stream bs)) decoded)"
    using deliveredD(3) [OF daemon_invD(5) [OF D(1)]] by (simp add: decoded_def)
  then show ?thesis
    using T D(4) by (simp add: decoder_tally_def length_concat follows_def del: length_contents)
qed

theorem statistics_exact_witness:
  "case live_start live_msgs of
     Inl _ \<Rightarrow> False
   | Inr s \<Rightarrow>
       (\<exists>v. (daemon_step (live_ring live_msgs) sim_view)\<^sup>*\<^sup>* s v \<and> orders_processed (engine v) = 2 \<and>
          fills_executed (engine v) = of_nat (length (filter is_trade (sent (engine v))) div 2))"
proof -
  obtain s v where s: "live_start live_msgs = Inr s" "daemon_start (live_ring live_msgs) sim_view s" "heard v = live_msgs"
    "(daemon_step (live_ring live_msgs) sim_view)\<^sup>*\<^sup>* s v"
    by (rule live_matched)
  from statistics_exact [OF s(2,4)] have "orders_processed (engine v) = of_nat (length live_msgs) \<and>
      fills_executed (engine v) = of_nat (length (filter is_trade (sent (engine v))) div 2)"
    using live_run(2) by (simp add: s(3))
  then show ?thesis
    using s(1,4) by (auto simp: live_msgs_def)
qed

text \<open>C23: The data in the pipeline stays within its types. In every reachable state, every message the engine
  has heard or still has to hear is a new order whose price fits 64 bits or a cancel without any
  other field, so nothing of undefined kind gets past the decoder; and every resting quote of every
  book has a positive quantity and a price on the book's grid, in price order.\<close>

theorem pipeline_well_typed:
  assumes "daemon_start U view s0" and "(daemon_step U view)\<^sup>*\<^sup>* s0 s"
  shows "list_all wire_encodable (heard s @ contents kPipelineQueueCapacity (inbound (engine s))) \<and>
    (\<forall>iid b side. books (engine s) iid = Some b \<longrightarrow> price_sorted side (view_of (engine s) iid side) \<and>
      list_all (\<lambda>e. e_qty e \<noteq> 0 \<and> is_valid_price b (e_price e)) (view_of (engine s) iid side))"
proof -
  have I: "daemon_inv view s"
    using dmn.reachable_inv [OF assms] by (simp add: daemon_good_def)
  note D = daemon_invD [OF I]
  have ok: "engine_ok (engine s)"
    using D(1) by (simp add: engine_inv_def)
  have "list_all wire_encodable (heard s @ contents kPipelineQueueCapacity (inbound (engine s)))"
    unfolding deliveredD(3) [OF D(5)] using parse_stream_typed by (auto simp: list_all_iff)
  then show ?thesis
    using quotes_typed [OF ok] view_sorted_ok [OF ok] by (auto simp: list_all_iff)
qed

theorem pipeline_well_typed_witness:
  "case live_start live_msgs of
     Inl _ \<Rightarrow> False
   | Inr s \<Rightarrow>
       (\<exists>v b. (daemon_step (live_ring live_msgs) sim_view)\<^sup>*\<^sup>* s v \<and> list_all wire_encodable live_msgs \<and>
          books (engine v) 1 = Some b \<and> is_valid_price b 2000)"
proof -
  obtain s v where s: "live_start live_msgs = Inr s" "daemon_start (live_ring live_msgs) sim_view s" "heard v = live_msgs"
    "(daemon_step (live_ring live_msgs) sim_view)\<^sup>*\<^sup>* s v" "exchange_of (engine v) = live_exchange"
    by (rule live_matched)
  have "market_of (engine v) 1 = x_market live_exchange 1"
    unfolding s(5) [symmetric] by (simp add: exchange_of_def)
  then obtain b where b: "books (engine v) 1 = Some b" "map unslot (view_of (engine v) 1 True) =
      [\<lparr>e_slot = 0, e_id = 1, e_price = 2000, e_qty = 6\<rparr>]"
    by (auto simp: market_of_def live_exchange_def empty_market_def fun_eq_iff split: option.splits)
  obtain e where v: "view_of (engine v) 1 True = [e]" "unslot e = \<lparr>e_slot = 0, e_id = 1, e_price = 2000, e_qty = 6\<rparr>"
    using b(2) by (cases "view_of (engine v) 1 True") auto
  have "e_price (unslot e) = 2000"
    unfolding v(2) by simp
  then have p: "e_price e = 2000"
    by (simp add: unslot_def)
  note W = pipeline_well_typed [OF s(2,4)]
  have "list_all (\<lambda>e. e_qty e \<noteq> 0 \<and> is_valid_price b (e_price e)) (view_of (engine v) 1 True)"
    using W b(1) by blast
  then have "is_valid_price b 2000"
    by (simp add: v(1) p)
  moreover have "list_all wire_encodable live_msgs"
    using W by (simp add: s(3))
  ultimately show ?thesis
    using s(1,4) b(1) by auto
qed

end
