(* ===== verification/Main_Program.thy ===== *)
theory Main_Program
  imports Daemon_Trace
begin

section \<open>The main program (\<open>src/src/main.cpp\<close>)\<close>

text \<open>
  The control flow around the polls of \<open>Daemon\<close>: opening the sockets, construction with the
  \<open>catch\<close> block, the four threads with their loop guards, the supervising main thread, joining,
  closing, the printed statistics and the destructors. A thread is before its first step, at its
  loop guard, inside a poll, or past its loop; the poll takes effect as a whole when it ends, and
  a poll that never ends leaves its thread inside. The sockets are what the system calls return,
  arguments of \<open>main_start\<close>; the calls that release resources are recorded in \<open>released\<close>.
\<close>

text \<open>\<open>socketpair\<close> with the fallback to two datagram sockets.\<close>

definition open_sockets :: "int \<times> int \<times> int \<Rightarrow> int \<times> int \<Rightarrow> int \<times> int" where
  "open_sockets pair fallback = (case pair of (ret, fd0, fd1) \<Rightarrow> if ret < 0 then fallback else (fd0, fd1))"

definition close_sockets :: "int \<times> int \<Rightarrow> os_call list" where
  "close_sockets fds = (if 0 \<le> fst fds then [CloseFd (fst fds)] else []) @
     (if 0 \<le> snd fds then [CloseFd (snd fds)] else [])"

record Statistics =
  st_spans_seen :: u64
  st_decoded_count :: u64
  st_error_count :: u64
  st_orders_processed :: u64
  st_fills_executed :: u64
  st_orders_rejected :: u64
  st_bytes_received :: u64
  st_cqes_processed :: u64
  st_reports_sent :: u64
  st_io_errors :: u64

definition final_statistics :: "'r Daemon \<Rightarrow> Statistics" where
  "final_statistics s =
     \<lparr>st_spans_seen = spans_seen (decoder s), st_decoded_count = decoded_count (decoder s),
      st_error_count = error_count (decoder s), st_orders_processed = orders_processed (engine s),
      st_fills_executed = fills_executed (engine s), st_orders_rejected = orders_rejected (engine s),
      st_bytes_received = bytes_received (receiver s), st_cqes_processed = cqes_processed (receiver s),
      st_reports_sent = reports_sent (sender s), st_io_errors = errors_seen (receiver s) + tx_errors (sender s)\<rparr>"

subsection \<open>Threads\<close>

datatype worker = ReceiverThread | SenderThread | DecoderThread | MatchingThread

datatype thread_pc = NotStarted | AtGuard | InPoll | Exited

datatype main_pc = Spawning nat | Supervising | Joining nat | Closing | Reporting | Destroying | Returned int | Aborting

record 'r Process =
  daemon :: "'r Daemon"
  threads :: "worker \<Rightarrow> thread_pc"
  mainpc :: main_pc
  sockets :: "int \<times> int"
  released :: "os_call list"
  printed :: "Statistics option"

text \<open>The order in which the threads are started, and the order in which they are joined.\<close>

definition workers :: "worker list" where
  "workers = [ReceiverThread, SenderThread, DecoderThread, MatchingThread]"

fun turn :: "'r liburing \<Rightarrow> nat \<Rightarrow> worker \<Rightarrow> 'r Daemon \<Rightarrow> fault + 'r Daemon" where
  "turn U fuel ReceiverThread s = receiver_turn U s"
| "turn U fuel SenderThread s = sender_turn U fuel s"
| "turn U fuel DecoderThread s = decoder_turn s"
| "turn U fuel MatchingThread s = matching_turn s"

definition worker_step :: "'r liburing \<Rightarrow> nat \<Rightarrow> worker \<Rightarrow> 'r Process \<Rightarrow> 'r Process option" where
  "worker_step U fuel w p =
     (case threads p w of
        AtGuard \<Rightarrow> Some (p\<lparr>threads := (threads p)(w := if g_running (daemon p) then InPoll else Exited)\<rparr>)
      | InPoll \<Rightarrow>
          (case turn U fuel w (daemon p) of
             Inl _ \<Rightarrow> None
           | Inr s \<Rightarrow> Some (p\<lparr>daemon := s, threads := (threads p)(w := AtGuard)\<rparr>))
      | _ \<Rightarrow> None)"

definition main_step :: "'r Process \<Rightarrow> 'r Process option" where
  "main_step p =
     (case mainpc p of
        Spawning k \<Rightarrow>
          if k < length workers
          then Some (p\<lparr>threads := (threads p)(workers ! k := AtGuard), mainpc := Spawning (Suc k)\<rparr>)
          else Some (p\<lparr>mainpc := Supervising\<rparr>)
      | Supervising \<Rightarrow> Some (p\<lparr>mainpc := if g_running (daemon p) then Supervising else Joining 0\<rparr>)
      | Joining k \<Rightarrow>
          if k < length workers
          then (if threads p (workers ! k) = Exited then Some (p\<lparr>mainpc := Joining (Suc k)\<rparr>) else None)
          else Some (p\<lparr>mainpc := Closing\<rparr>)
      | Closing \<Rightarrow> Some (p\<lparr>released := released p @ close_sockets (sockets p), mainpc := Reporting\<rparr>)
      | Reporting \<Rightarrow> Some (p\<lparr>printed := Some (final_statistics (daemon p)), mainpc := Destroying\<rparr>)
      | Destroying \<Rightarrow>
          Some (p\<lparr>released := released p @ UringSender_destroy (sender (daemon p)) @
                    UringReceiver_destroy (receiver (daemon p)) @ OrderPool_destroy (pool (engine (daemon p))),
                  mainpc := Returned 0\<rparr>)
      | Returned _ \<Rightarrow> None
      | Aborting \<Rightarrow> None)"

text \<open>
  What a failed construction leads to. An exception unwinds what was built, from the last to the
  first, and \<open>main\<close> returns 1; a failed assertion ends the process on the spot. The sockets,
  plain integers, are not closed on either way.
\<close>

fun exit_of :: "'r main_error \<Rightarrow> main_pc \<times> os_call list" where
  "exit_of (EngineFailed e) = (Returned 1, [])"
| "exit_of (ReceiverFailed (RingInitFailed r) me) = (Returned 1, OrderPool_destroy (pool me))"
| "exit_of (SenderFailed (RingInitFailed r) me rx) =
     (Returned 1, UringReceiver_destroy rx @ OrderPool_destroy (pool me))"
| "exit_of (ReceiverFailed (Aborted f) me) = (Aborting, [])"
| "exit_of (SenderFailed (Aborted f) me rx) = (Aborting, [])"

definition main_start ::
  "'r liburing \<Rightarrow> (bool \<Rightarrow> nat \<Rightarrow> heap option) \<Rightarrow> (nat \<Rightarrow> u64 \<times> u64) \<Rightarrow> nat \<Rightarrow> nat \<Rightarrow> memory \<Rightarrow>
   int \<times> int \<times> int \<Rightarrow> int \<times> int \<Rightarrow> (main_pc \<times> os_call list) + 'r Process" where
  "main_start U mmap clk rx_base tx_base mem pair fallback =
     (let fds = open_sockets pair fallback
      in case main_setup U mmap clk rx_base tx_base mem (fst fds) (snd fds) of
           Inl e \<Rightarrow> Inl (exit_of e)
         | Inr s \<Rightarrow> Inr \<lparr>daemon = s, threads = (\<lambda>_. NotStarted), mainpc = Spawning 0, sockets = fds,
                         released = [], printed = None\<rparr>)"

subsection \<open>Steps\<close>

text \<open>A step of the program, by any of its threads, and a step of its environment.\<close>

inductive program_step :: "'r liburing \<Rightarrow> 'r Process \<Rightarrow> 'r Process \<Rightarrow> bool" for U :: "'r liburing" where
  worker: "worker_step U fuel w p = Some q \<Longrightarrow> program_step U p q"
| main: "main_step p = Some q \<Longrightarrow> program_step U p q"

inductive env_step :: "('r \<Rightarrow> ring_view) \<Rightarrow> 'r Process \<Rightarrow> 'r Process \<Rightarrow> bool" for view :: "'r \<Rightarrow> ring_view" where
  kernel: "q \<in># inflight (view (rx_ring (receiver (daemon p)))) \<Longrightarrow> rq_buf q \<le> a \<Longrightarrow> a < rq_buf q + rq_len q \<Longrightarrow>
    env_step view p (p\<lparr>daemon := (daemon p)\<lparr>d_mem := (d_mem (daemon p))(a := b)\<rparr>\<rparr>)"
| signal: "env_step view p (p\<lparr>daemon := (daemon p)\<lparr>g_running := signal_handler signum (g_running (daemon p))\<rparr>\<rparr>)"

definition process_step :: "'r liburing \<Rightarrow> ('r \<Rightarrow> ring_view) \<Rightarrow> 'r Process \<Rightarrow> 'r Process \<Rightarrow> bool" where
  "process_step U view p q \<longleftrightarrow> program_step U p q \<or> env_step view p q"

inductive_cases program_stepE: "program_step U p q"
inductive_cases env_stepE: "env_step view p q"

lemma worker_step_Some:
  assumes "worker_step U fuel w p = Some q"
  obtains (guard) "threads p w = AtGuard"
      "q = p\<lparr>threads := (threads p)(w := if g_running (daemon p) then InPoll else Exited)\<rparr>"
  | (poll) s where "threads p w = InPoll" "turn U fuel w (daemon p) = Inr s"
      "q = p\<lparr>daemon := s, threads := (threads p)(w := AtGuard)\<rparr>"
  using assms by (auto simp: worker_step_def split: thread_pc.splits sum.splits)

subsection \<open>The process only does what the stages do\<close>

lemma turn_daemon_step: "turn U fuel w s = Inr t \<Longrightarrow> daemon_step U view s t"
  by (cases w) (auto intro: daemon_step.intros)

lemma main_step_daemon: "main_step p = Some q \<Longrightarrow> daemon q = daemon p"
  by (auto simp: main_step_def split: main_pc.splits if_splits)

lemma process_step_daemon:
  assumes "process_step U view p q"
  shows "daemon q = daemon p \<or> daemon_step U view (daemon p) (daemon q)"
  using assms unfolding process_step_def
proof (elim disjE program_stepE env_stepE)
  fix fuel w assume "worker_step U fuel w p = Some q"
  then show ?thesis
    by (cases rule: worker_step_Some) (auto intro: turn_daemon_step)
qed (auto dest: main_step_daemon intro: daemon_step.intros)

lemma process_steps_daemon:
  "(process_step U view)\<^sup>*\<^sup>* p q \<Longrightarrow> (daemon_step U view)\<^sup>*\<^sup>* (daemon p) (daemon q)"
  by (induction rule: rtranclp_induct) (auto dest!: process_step_daemon intro: rtranclp.rtrancl_into_rtrancl)

end
