(* ===== verification/Flood_Run.thy ===== *)
theory Flood_Run
  imports Main_Program
begin

section \<open>A run that fills the outbound queue\<close>

text \<open>
  The process over the reference ring, in which the sender thread is never scheduled: batches of 64
  orders for an instrument nobody has added arrive one after the other, and each is answered by 64
  rejections. After 1024 rounds the outbound queue is full. Then the matching thread enters its
  next poll, a signal arrives, and the sender thread leaves its loop.
\<close>

subsection \<open>Runs of the process\<close>

lemma steps_trans:
  assumes "(process_step U view)\<^sup>*\<^sup>* p q" and "(process_step U view)\<^sup>*\<^sup>* q r"
  shows "(process_step U view)\<^sup>*\<^sup>* p r"
  using assms by (rule rtranclp_trans)

lemma worker_steps: "worker_step U fuel w p = Some q \<Longrightarrow> (process_step U view)\<^sup>*\<^sup>* p q"
  by (rule r_into_rtranclp) (auto simp: process_step_def intro: program_step.worker)

lemma main_steps: "main_step p = Some q \<Longrightarrow> (process_step U view)\<^sup>*\<^sup>* p q"
  by (rule r_into_rtranclp) (auto simp: process_step_def intro: program_step.main)

text \<open>A thread at its loop guard runs one poll and is there again.\<close>

lemma worker_round:
  assumes "threads p w = AtGuard" and "g_running (daemon p)" and "turn U fuel w (daemon p) = Inr s"
  shows "(process_step U view)\<^sup>*\<^sup>* p (p\<lparr>daemon := s\<rparr>)"
proof (rule steps_trans [OF worker_steps worker_steps])
  let ?p = "p\<lparr>threads := (threads p)(w := InPoll)\<rparr>"
  show "worker_step U fuel w p = Some ?p"
    using assms by (simp add: worker_step_def)
  show "worker_step U fuel w ?p = Some (p\<lparr>daemon := s\<rparr>)"
    using assms by (simp add: worker_step_def) (simp add: fun_upd_idem)
qed

text \<open>Starting the four threads.\<close>

lemma spawned:
  assumes "mainpc p = Spawning 0"
  shows "(process_step U view)\<^sup>*\<^sup>* p (p\<lparr>threads := (\<lambda>_. AtGuard), mainpc := Supervising\<rparr>)"
proof -
  let ?q = "\<lambda>k. p\<lparr>threads := (\<lambda>w. if w \<in> set (take k workers) then AtGuard else threads p w), mainpc := Spawning k\<rparr>"
  have step: "main_step (?q k) = Some (?q (Suc k))" if "k < length workers" for k
    using that by (simp add: main_step_def take_Suc_conv_app_nth) (auto simp: fun_eq_iff)
  have "(process_step U view)\<^sup>*\<^sup>* (?q 0) (?q k)" if "k \<le> length workers" for k
    using that
  proof (induction k)
    case (Suc k)
    then show ?case
      using steps_trans [OF _ main_steps [OF step]] by simp
  qed simp
  moreover have "?q 0 = p"
    using assms by (cases p) simp
  ultimately have "(process_step U view)\<^sup>*\<^sup>* p (?q (length workers))"
    by (metis order_refl)
  moreover have "w \<in> set workers" for w
    by (cases w) (simp_all add: workers_def)
  then have "main_step (?q (length workers)) = Some (p\<lparr>threads := (\<lambda>_. AtGuard), mainpc := Supervising\<rparr>)"
    by (simp add: main_step_def)
  ultimately show ?thesis
    using steps_trans main_steps by blast
qed

subsection \<open>The messages\<close>

definition stray_order :: InboundOrderMsg where
  "stray_order = \<lparr>im_kind = NewOrder, im_order_id = 9, im_price = 2000, im_quantity = 5, im_instrument_id = 77,
     im_client_id = 0, im_side = 0, im_type = 0\<rparr>"

definition flood_msgs :: "InboundOrderMsg list" where
  "flood_msgs = replicate 64 stray_order"

definition flood_bytes :: "u8 list" where
  "flood_bytes = concat (map wire_of_msg flood_msgs)"

text \<open>One completion per poll of the receiver.\<close>

definition flood_script :: "nat \<Rightarrow> int option list" where
  "flood_script k = concat (replicate k [Some (int (length flood_bytes)), None])"

lemma flood_script_Suc: "flood_script (Suc k) = Some (int (length flood_bytes)) # None # flood_script k"
  by (simp add: flood_script_def)

lemma flood_msgs_ok:
  "list_all wire_encodable flood_msgs" "flood_msgs \<noteq> []" "length (concat (map wire_of_msg flood_msgs)) \<le> kBufSize"
  by (simp_all add: flood_msgs_def stray_order_def list_all_iff wire_encodable_def int64_def length_concat sum_list_replicate
      wire_of_msg_length wire_sizes kBufSize_def)

lemma stray_run:
  "admissible_run (replicate n stray_order) daemon_exchange"
  "exchange_run (replicate n stray_order) daemon_exchange = (replicate n (report Reject 9 0 0 0 5), daemon_exchange)"
proof -
  have s: "exchange_step stray_order daemon_exchange = ([report Reject 9 0 0 0 5], daemon_exchange)"
    by (simp add: stray_order_def daemon_exchange_def exchange_step_def exchange_new_def)
  have a: "admissible stray_order daemon_exchange"
    by (simp add: admissible_def stray_order_def daemon_exchange_def)
  show "admissible_run (replicate n stray_order) daemon_exchange"
    "exchange_run (replicate n stray_order) daemon_exchange = (replicate n (report Reject 9 0 0 0 5), daemon_exchange)"
    by (induction n) (simp_all add: s a)
qed

subsection \<open>Rounds\<close>

text \<open>After \<open>j\<close> rounds, with completions for \<open>k\<close> more.\<close>

definition flooded :: "nat \<Rightarrow> nat \<Rightarrow> sim_ring Daemon \<Rightarrow> bool" where
  "flooded k j s \<longleftrightarrow> ready flood_bytes (flood_script k) s \<and> trace_inv sim_view s \<and> g_running s \<and>
     contents kPipelineQueueCapacity (inbound (engine s)) = [] \<and> snd (outbound (engine s)) = [] \<and>
     heard s = replicate (64 * j) stray_order"

lemma stray_follows:
  assumes "trace_inv view s" and "snd (outbound (engine s)) = []" and "heard s = replicate n stray_order"
  shows "exact (engine s)" "exchange_of (engine s) = daemon_exchange"
    "length (contents kPipelineQueueCapacity (fst (outbound (engine s)))) = n"
proof -
  have F: "follows (replicate n stray_order) (engine s)"
    using trace_invD(4) [OF assms(1)] assms(3) by simp
  then show "exact (engine s)" "exchange_of (engine s) = daemon_exchange"
    using stray_run by (simp_all add: follows_def)
  have "length (map untimed (sent (engine s))) = n"
    using F stray_run [of n] by (auto simp: follows_def dest: arg_cong [of "replicate n _" _ length])
  then show "length (contents kPipelineQueueCapacity (fst (outbound (engine s)))) = n"
    using assms(2) by (simp add: sent_def stream_def del: length_contents)
qed

lemma flood_fed:
  assumes "flooded (Suc k) j s"
  obtains t u inb where "receiver_turn (sim_uring script) s = Inr t" "decoder_turn t = Inr u" "trace_inv sim_view u"
    "g_running t" "g_running u" "ready flood_bytes (flood_script k) u" "engine u = (engine s)\<lparr>inbound := inb\<rparr>"
    "contents kPipelineQueueCapacity inb = flood_msgs" "heard u = replicate (64 * j) stray_order"
proof -
  have F: "ready flood_bytes (Some (int (length flood_bytes)) # None # flood_script k) s" "trace_inv sim_view s" "g_running s"
    "contents kPipelineQueueCapacity (inbound (engine s)) = []" "heard s = replicate (64 * j) stray_order"
    using assms by (simp_all add: flooded_def flood_script_Suc)
  obtain t u inb where T: "receiver_turn (sim_uring script) s = Inr t" "decoder_turn t = Inr u" "ready flood_bytes (flood_script k) u"
    "engine u = (engine s)\<lparr>inbound := inb\<rparr>" "contents kPipelineQueueCapacity inb = flood_msgs" "heard u = heard s"
    by (rule ready_feeds [OF flood_msgs_ok flood_bytes_def F(1) _ F(4)]) simp_all
  have "trace_inv sim_view u"
    by (rule decoder_turn_trace [OF receiver_turn_trace [OF sim_uring_contract F(2) T(1)] T(2)])
  moreover have "g_running t" "g_running u"
    using F(3) T(1,2) by (auto simp: receiver_turn_def decoder_turn_def ebind_Inr_iff Let_def)
  ultimately show thesis
    using that [OF T(1,2)] T(3-6) F(5) by simp
qed

lemma flood_round:
  assumes F: "flooded (Suc k) j s" and j: "j < 1024"
  obtains t u v where "receiver_turn (sim_uring script) s = Inr t" "decoder_turn t = Inr u" "matching_turn u = Inr v"
    "g_running t" "g_running u" "flooded k (Suc j) v"
proof -
  obtain t u inb where T: "receiver_turn (sim_uring script) s = Inr t" "decoder_turn t = Inr u" "trace_inv sim_view u"
    "g_running t" "g_running u" "ready flood_bytes (flood_script k) u" "engine u = (engine s)\<lparr>inbound := inb\<rparr>"
    "contents kPipelineQueueCapacity inb = flood_msgs" "heard u = replicate (64 * j) stray_order"
    by (rule flood_fed [OF F])
  have out: "snd (outbound (engine u)) = []"
    using F T(7) by (simp add: flooded_def)
  note X = stray_follows [OF T(3) out T(9)]
  have inb: "contents kPipelineQueueCapacity (inbound (engine u)) = flood_msgs" and tk: "take 64 flood_msgs = flood_msgs"
    using T(7,8) by (simp_all add: flood_msgs_def)
  have "\<exists>v. matching_turn u = Inr v"
    using matching_turn_returns_iff [OF X(1) trace_invD(2) [OF T(3)], unfolded inb tk X(2,3)] j
    by (simp add: flood_msgs_def stray_run kPipelineQueueCapacity_def)
  then obtain v where v: "matching_turn u = Inr v" ..
  obtain k' me where p: "engine_poll 64 (engine u) = Inr (k', me)" "v = u\<lparr>engine := me, heard := heard u @ take k' flood_msgs\<rparr>"
    using v by (auto simp: matching_turn_def ebind_Inr_iff inb)
  have e: "k' = 64" "contents kPipelineQueueCapacity (inbound me) = []"
    using run_meetsD(1) [OF engine_poll_meets [OF exactD(1) [OF X(1)] refl, of 64] p(1)] inb
    by (auto simp: flood_msgs_def simp del: length_contents)
  have q: "snd (outbound me) = []"
    using engine_poll_quiet [OF p(1)] out trace_invD(2) [OF T(3)] by (simp add: quiet_def)
  have I: "trace_inv sim_view v"
    by (rule matching_turn_trace [OF T(3) v])
  have "heard v = replicate (64 * Suc j) stray_order"
    using T(9) by (simp add: p(2) e(1) flood_msgs_def replicate_add [symmetric] add.commute)
  then have "flooded k (Suc j) v"
    using T(5,6) I e(2) q trace_invD(1) [OF I] by (simp add: flooded_def ready_def p(2))
  then show thesis
    using that [OF T(1,2) v T(4,5)] by blast
qed

lemma flood_rounds:
  assumes "\<And>w. threads p w = AtGuard"
  shows "flooded (m + k) j (daemon p) \<Longrightarrow> j + m \<le> 1024 \<Longrightarrow>
    \<exists>v. (process_step (sim_uring script) view)\<^sup>*\<^sup>* p (p\<lparr>daemon := v\<rparr>) \<and> flooded k (j + m) v"
proof (induction m arbitrary: k)
  case 0
  then show ?case
    by (intro exI [of _ "daemon p"]) simp
next
  case (Suc m)
  then obtain s where S: "(process_step (sim_uring script) view)\<^sup>*\<^sup>* p (p\<lparr>daemon := s\<rparr>)" "flooded (Suc k) (j + m) s"
    using Suc.IH [of "Suc k"] by fastforce
  obtain t u v where T: "receiver_turn (sim_uring script) s = Inr t" "decoder_turn t = Inr u" "matching_turn u = Inr v"
    "g_running t" "g_running u" "flooded k (Suc (j + m)) v"
    using flood_round [OF S(2)] Suc.prems(2) by (metis Suc_le_eq add_Suc_right)
  have w: "(process_step (sim_uring script) view)\<^sup>*\<^sup>* (p\<lparr>daemon := x\<rparr>) (p\<lparr>daemon := y\<rparr>)"
    if "g_running x" "turn (sim_uring script) 0 w x = Inr y" for x y w
    using worker_round [of "p\<lparr>daemon := x\<rparr>" w] assms that by fastforce
  have "g_running s"
    using S(2) by (simp add: flooded_def)
  then have "(process_step (sim_uring script) view)\<^sup>*\<^sup>* (p\<lparr>daemon := s\<rparr>) (p\<lparr>daemon := t\<rparr>)"
    "(process_step (sim_uring script) view)\<^sup>*\<^sup>* (p\<lparr>daemon := t\<rparr>) (p\<lparr>daemon := u\<rparr>)"
    "(process_step (sim_uring script) view)\<^sup>*\<^sup>* (p\<lparr>daemon := u\<rparr>) (p\<lparr>daemon := v\<rparr>)"
    using w [of s ReceiverThread t] w [of t DecoderThread u] w [of u MatchingThread v] T by simp_all
  from steps_trans [OF S(1) steps_trans [OF this(1) steps_trans [OF this(2,3)]]]
  have "(process_step (sim_uring script) view)\<^sup>*\<^sup>* p (p\<lparr>daemon := v\<rparr>)" .
  then show ?case
    using T(6) by auto
qed

subsection \<open>The engine waits, the sender is gone\<close>

definition flood_start :: "(main_pc \<times> os_call list) + sim_ring Process" where
  "flood_start = main_start (sim_uring (flood_script 1025)) (\<lambda>_ _. Some (\<lambda>_. undefined)) (\<lambda>n. (0, of_nat n)) 0 262144
     (every_buffer flood_bytes) (0, 3, 4) (-1, -1)"

lemma flood_start_result:
  obtains p where "flood_start = Inr p" "mainpc p = Spawning 0" "flooded 1025 0 (daemon p)"
proof -
  let ?U = "sim_uring (flood_script 1025)"
  obtain s where s: "demo_over (every_buffer flood_bytes) (flood_script 1025) = Inr s" "daemon_start ?U sim_view s"
    by (rule demo_over_daemon)
  note R = demo_over_ready [OF s(1)]
  have "trace_inv sim_view s"
    using trc.init_inv [OF s(2)] by (simp add: trace_good_def)
  then have "flooded 1025 0 s"
    using R by (simp add: flooded_def fresh_queues)
  then show thesis
    using that s(1) by (simp add: flood_start_def main_start_def demo_over_def open_sockets_def)
qed

text \<open>The run: threads are started, 1024 rounds, one more batch, then the matching thread enters its poll.\<close>

lemma flood_reached:
  obtains p q where "flood_start = Inr p" "(process_step (sim_uring (flood_script 1025)) sim_view)\<^sup>*\<^sup>* p q"
    "threads q SenderThread = Exited" "threads q MatchingThread = InPoll"
    "heard (daemon q) = replicate 65536 stray_order" "contents kPipelineQueueCapacity (inbound (engine (daemon q))) = flood_msgs"
    "length (contents kPipelineQueueCapacity (fst (outbound (engine (daemon q))))) = 65536"
    "exchange_of (engine (daemon q)) = daemon_exchange"
proof -
  let ?U = "sim_uring (flood_script 1025)"
  obtain p where p: "flood_start = Inr p" "mainpc p = Spawning 0" "flooded 1025 0 (daemon p)"
    by (rule flood_start_result)
  let ?p1 = "p\<lparr>threads := (\<lambda>_. AtGuard), mainpc := Supervising\<rparr>"
  obtain s where s: "(process_step ?U sim_view)\<^sup>*\<^sup>* ?p1 (?p1\<lparr>daemon := s\<rparr>)" "flooded 1 1024 s"
    using flood_rounds [of ?p1 1024 1 0 "flood_script 1025" sim_view] p(3) by auto
  obtain t u inb where T: "receiver_turn ?U s = Inr t" "decoder_turn t = Inr u" "trace_inv sim_view u"
    "g_running t" "g_running u" "engine u = (engine s)\<lparr>inbound := inb\<rparr>"
    "contents kPipelineQueueCapacity inb = flood_msgs" "heard u = replicate (64 * 1024) stray_order"
    by (rule flood_fed [OF s(2) [unfolded One_nat_def]])
  let ?p2 = "?p1\<lparr>daemon := s\<rparr>" and ?p3 = "?p1\<lparr>daemon := t\<rparr>" and ?p4 = "?p1\<lparr>daemon := u\<rparr>"
  let ?p5 = "?p4\<lparr>threads := (\<lambda>_. AtGuard)(MatchingThread := InPoll)\<rparr>"
  let ?p6 = "?p5\<lparr>daemon := u\<lparr>g_running := False\<rparr>\<rparr>"
  let ?q = "?p6\<lparr>threads := (\<lambda>_. AtGuard)(MatchingThread := InPoll, SenderThread := Exited)\<rparr>"
  have g: "g_running s" "snd (outbound (engine u)) = []"
    using s(2) T(6) by (simp_all add: flooded_def)
  have 1: "(process_step ?U sim_view)\<^sup>*\<^sup>* ?p2 ?p3" "(process_step ?U sim_view)\<^sup>*\<^sup>* ?p3 ?p4"
    using worker_round [of ?p2 ReceiverThread ?U 0 t sim_view] worker_round [of ?p3 DecoderThread ?U 0 u sim_view] g(1) T(1,2,4)
    by simp_all
  have 2: "(process_step ?U sim_view)\<^sup>*\<^sup>* ?p4 ?p5" "(process_step ?U sim_view)\<^sup>*\<^sup>* ?p6 ?q"
    by (rule worker_steps [where fuel = 0 and w = MatchingThread], simp add: worker_step_def T(5))
       (rule worker_steps [where fuel = 0 and w = SenderThread], simp add: worker_step_def)
  have 3: "(process_step ?U sim_view)\<^sup>*\<^sup>* ?p5 ?p6"
    using env_step.signal [of sim_view ?p5 SIGTERM]
    by (intro r_into_rtranclp) (simp add: process_step_def signal_handler_def SIGTERM_def T(5))
  have "(process_step ?U sim_view)\<^sup>*\<^sup>* p ?q"
    by (rule steps_trans [OF spawned [OF p(2)] steps_trans [OF s(1) steps_trans [OF 1(1) steps_trans [OF 1(2)
      steps_trans [OF 2(1) steps_trans [OF 3 2(2)]]]]]])
  then show thesis
    using that [OF p(1)] T stray_follows [OF T(3) g(2) T(8)] by simp
qed

end
