(* ===== verification/Shutdown.thy ===== *)
theory Shutdown
  imports Flood_Run "HOL-Library.Sublist"
begin

section \<open>Shutting down\<close>

text \<open>
  What happens to the process of \<open>Main_Program\<close> once a signal has cleared \<open>g_running\<close>: how many
  steps are left, where it can stop, and what has been released and printed then.
\<close>

subsection \<open>The process invariant\<close>

text \<open>What is given back to the system when \<open>main\<close> returns 0, in this order.\<close>

definition release_all :: "'r Daemon \<Rightarrow> os_call list" where
  "release_all s = UringSender_destroy (sender s) @ UringReceiver_destroy (receiver s) @ OrderPool_destroy (pool (engine s))"

definition all_exited :: "'r Process \<Rightarrow> bool" where
  "all_exited p \<longleftrightarrow> (\<forall>w. threads p w = Exited)"

definition main_ok :: "'r Process \<Rightarrow> bool" where
  "main_ok p =
     (case mainpc p of
        Spawning k \<Rightarrow> (\<forall>i < length workers. k \<le> i \<longleftrightarrow> threads p (workers ! i) = NotStarted) \<and> released p = [] \<and> printed p = None
      | Supervising \<Rightarrow> (\<forall>w. threads p w \<noteq> NotStarted) \<and> released p = [] \<and> printed p = None
      | Joining k \<Rightarrow> (\<forall>w. threads p w \<noteq> NotStarted) \<and> (\<forall>i < min k (length workers). threads p (workers ! i) = Exited) \<and>
          \<not> g_running (daemon p) \<and> released p = [] \<and> printed p = None
      | Closing \<Rightarrow> all_exited p \<and> released p = [] \<and> printed p = None
      | Reporting \<Rightarrow> all_exited p \<and> released p = close_sockets (sockets p) \<and> printed p = None
      | Destroying \<Rightarrow> all_exited p \<and> released p = close_sockets (sockets p) \<and> printed p = Some (final_statistics (daemon p))
      | Returned c \<Rightarrow> c = 0 \<and> all_exited p \<and> released p = close_sockets (sockets p) @ release_all (daemon p) \<and>
          printed p = Some (final_statistics (daemon p))
      | Aborting \<Rightarrow> False)"

definition process_ok :: "'r Process \<Rightarrow> bool" where
  "process_ok p \<longleftrightarrow> main_ok p \<and> (\<forall>w. threads p w = Exited \<longrightarrow> \<not> g_running (daemon p))"

lemma all_workers: "(\<forall>w. P w) \<longleftrightarrow> (\<forall>i < length workers. P (workers ! i))"
proof
  assume *: "\<forall>i < length workers. P (workers ! i)"
  show "\<forall>w. P w"
  proof
    fix w
    show "P w"
      using * [rule_format, of 0] * [rule_format, of 1] * [rule_format, of 2] * [rule_format, of 3]
      by (cases w) (simp_all add: workers_def)
  qed
qed blast

lemma workers_facts: "distinct workers" "length workers = 4"
  by (simp_all add: workers_def)

lemma turn_running: "turn U fuel w s = Inr t \<Longrightarrow> g_running t = g_running s"
  by (cases w) (auto simp: receiver_turn_def decoder_turn_def matching_turn_def sender_turn_def ebind_Inr_iff Let_def)

lemma worker_step_ok:
  assumes I: "process_ok p" and s: "worker_step U fuel w p = Some q"
  shows "process_ok q"
  using s
proof (cases rule: worker_step_Some)
  case guard
  then show ?thesis
    using I by (cases "mainpc p") (auto simp: process_ok_def main_ok_def all_exited_def)
next
  case (poll t)
  then have "g_running t = g_running (daemon p)"
    by (intro turn_running)
  then show ?thesis
    using I poll by (cases "mainpc p") (auto simp: process_ok_def main_ok_def all_exited_def)
qed

lemma main_step_ok:
  assumes I: "process_ok p" and s: "main_step p = Some q"
  shows "process_ok q"
proof (cases "mainpc p")
  case (Spawning k)
  have eq: "workers ! i = workers ! k \<longleftrightarrow> i = k" if "i < length workers" "k < length workers" for i
    using workers_facts(1) that by (simp add: nth_eq_iff_index_eq)
  show ?thesis
  proof (cases "k < length workers")
    case True
    have ts: "threads q w = (if w = workers ! k then AtGuard else threads p w)" for w
      using s Spawning True by (auto simp: main_step_def)
    have "(Suc k \<le> i) = (threads q (workers ! i) = NotStarted)" if "i < length workers" for i
      using I Spawning that eq [OF that True] by (cases "i = k") (auto simp: ts process_ok_def main_ok_def)
    moreover have "\<not> g_running (daemon p)" if "threads q w = Exited" for w
      using I that by (auto simp: ts process_ok_def split: if_splits)
    ultimately show ?thesis
      using I s Spawning True by (auto simp: process_ok_def main_ok_def main_step_def)
  next
    case False
    have "threads p w \<noteq> NotStarted" for w
      using I False Spawning all_workers [of "\<lambda>w. threads p w \<noteq> NotStarted"] by (auto simp: process_ok_def main_ok_def)
    then show ?thesis
      using I s Spawning False by (auto simp: process_ok_def main_ok_def main_step_def)
  qed
next
  case (Joining k)
  show ?thesis
  proof (cases "k < length workers")
    case True
    then show ?thesis
      using I s Joining by (auto simp: process_ok_def main_ok_def main_step_def less_Suc_eq split: if_splits)
  next
    case False
    then have "all_exited p"
      using I Joining all_workers [of "\<lambda>w. threads p w = Exited"] by (auto simp: process_ok_def main_ok_def all_exited_def)
    then show ?thesis
      using I s Joining False by (auto simp: process_ok_def main_ok_def main_step_def all_exited_def)
  qed
qed (use I s in \<open>auto simp: process_ok_def main_ok_def main_step_def all_exited_def release_all_def split: if_splits\<close>)

lemma env_step_ok:
  assumes I: "process_ok p" and s: "env_step view p q"
  shows "process_ok q"
  using s I by cases (cases "mainpc p"; auto simp: process_ok_def main_ok_def all_exited_def release_all_def
    final_statistics_def signal_handler_def)+

lemma process_step_ok: "process_ok p \<Longrightarrow> process_step U view p q \<Longrightarrow> process_ok q"
  unfolding process_step_def by (auto elim!: program_stepE intro: worker_step_ok main_step_ok env_step_ok)

text \<open>A process that \<open>main\<close> has set up over a library that keeps the contract.\<close>

definition process_start :: "'r liburing \<Rightarrow> ('r \<Rightarrow> ring_view) \<Rightarrow> 'r Process \<Rightarrow> bool" where
  "process_start U view p \<longleftrightarrow> uring_contract U 256 view \<and>
     (\<exists>mmap clk rx_base tx_base mem pair fallback. main_start U mmap clk rx_base tx_base mem pair fallback = Inr p)"

definition process_good :: "'r liburing \<Rightarrow> ('r \<Rightarrow> ring_view) \<Rightarrow> 'r Process \<Rightarrow> bool" where
  "process_good U view p \<longleftrightarrow> trace_good U view (daemon p) \<and> process_ok p"

lemma process_start_good:
  assumes "process_start U view p"
  shows "daemon_start U view (daemon p)" "process_good U view p"
proof -
  obtain mmap clk rb tb mem pair fallback where "uring_contract U 256 view"
    and m: "main_start U mmap clk rb tb mem pair fallback = Inr p"
    using assms by (auto simp: process_start_def)
  then show d: "daemon_start U view (daemon p)"
    unfolding daemon_start_def by (fastforce simp: main_start_def Let_def split: sum.splits)
  have "process_ok p"
    using m by (auto simp: main_start_def process_ok_def main_ok_def Let_def split: sum.splits)
  then show "process_good U view p"
    using trc.init_inv [OF d] by (simp add: process_good_def)
qed

interpretation prc: safety_machine "process_start U view" "process_step U view" "process_good U view" for U view
proof unfold_locales
  show "process_start U view s \<Longrightarrow> process_good U view s" for s
    by (rule process_start_good)
  fix s t assume I: "process_good U view s" and S: "process_step U view s t"
  have "trace_good U view (daemon t)"
    using process_step_daemon [OF S] I trc.step_inv by (auto simp: process_good_def)
  then show "process_good U view t"
    using process_step_ok [OF _ S] I by (simp add: process_good_def)
qed

subsection \<open>How much is left to do\<close>

fun thread_weight :: "thread_pc \<Rightarrow> nat" where
  "thread_weight InPoll = 2"
| "thread_weight AtGuard = 1"
| "thread_weight _ = 0"

fun main_weight :: "main_pc \<Rightarrow> nat" where
  "main_weight (Spawning k) = 11 + 2 * (4 - k)"
| "main_weight Supervising = 10"
| "main_weight (Joining k) = 5 + (4 - k)"
| "main_weight Closing = 4"
| "main_weight Reporting = 3"
| "main_weight Destroying = 2"
| "main_weight _ = 0"

definition remaining :: "'r Process \<Rightarrow> nat" where
  "remaining p = main_weight (mainpc p) + (\<Sum>w \<leftarrow> workers. thread_weight (threads p w))"

lemma threads_weight_upd:
  "(\<Sum>v \<leftarrow> workers. thread_weight ((f(w := pc)) v)) + thread_weight (f w) =
   (\<Sum>v \<leftarrow> workers. thread_weight (f v)) + thread_weight pc"
  by (cases w) (simp_all add: workers_def)

lemma remaining_le: "remaining p \<le> 27"
proof -
  have m: "main_weight m \<le> 19" for m
    by (cases m) simp_all
  have t: "thread_weight t \<le> 2" for t
    by (cases t) simp_all
  show ?thesis
    using m [of "mainpc p"] t [of "threads p ReceiverThread"] t [of "threads p SenderThread"]
      t [of "threads p DecoderThread"] t [of "threads p MatchingThread"] by (simp add: remaining_def workers_def)
qed

lemma program_step_remaining:
  assumes "\<not> g_running (daemon p)" and "program_step U p q"
  shows "remaining q < remaining p \<and> \<not> g_running (daemon q)"
  using assms(2)
proof cases
  case (worker fuel w)
  from worker show ?thesis
  proof (cases rule: worker_step_Some)
    case guard
    then show ?thesis
      using assms(1) threads_weight_upd [of "threads p" w Exited] by (simp add: remaining_def)
  next
    case (poll t)
    then show ?thesis
      using assms(1) threads_weight_upd [of "threads p" w AtGuard] turn_running [OF poll(2)] by (simp add: remaining_def)
  qed
next
  case main
  show ?thesis
  proof (cases "mainpc p")
    case (Spawning k)
    then show ?thesis
      using main assms(1) threads_weight_upd [of "threads p" "workers ! k" AtGuard] workers_facts(2)
      by (auto simp: main_step_def remaining_def split: if_splits)
  qed (use main assms(1) workers_facts(2) in \<open>auto simp: main_step_def remaining_def split: if_splits\<close>)
qed

lemma env_step_remaining:
  "env_step view p q \<Longrightarrow> remaining q = remaining p \<and> (\<not> g_running (daemon p) \<longrightarrow> \<not> g_running (daemon q))"
  by (auto elim!: env_stepE simp: remaining_def signal_handler_def)

interpretation shut: ranked_machine "program_step U" "env_step view" "\<lambda>p. \<not> g_running (daemon p)" remaining for U view
proof unfold_locales
  show "remaining t < remaining s \<and> \<not> g_running (daemon t)" if "\<not> g_running (daemon s)" "program_step U s t" for s t
    using that by (rule program_step_remaining)
  show "remaining t = remaining s \<and> \<not> g_running (daemon t)" if "\<not> g_running (daemon s)" "env_step view s t" for s t
    using that env_step_remaining by blast
qed

subsection \<open>Where the process can stop\<close>

lemma stopped_worker:
  assumes "\<forall>q. \<not> program_step U p q" and "threads p w = InPoll"
  shows "\<exists>f. turn U fuel w (daemon p) = Inl f"
proof (cases "turn U fuel w (daemon p)")
  case (Inr s)
  then show ?thesis
    using assms program_step.worker [of U fuel w p] by (auto simp: worker_step_def)
qed blast

lemma stopped_main:
  assumes I: "process_ok p" and S: "\<forall>q. \<not> program_step U p q"
  shows "mainpc p = Returned 0 \<or> (\<exists>w. threads p w = InPoll)"
proof (rule disjCI)
  assume N: "\<not> (\<exists>w. threads p w = InPoll)"
  have m: "main_step p = None"
    using S program_step.main [of p] by (cases "main_step p") auto
  have g: "threads p w \<noteq> AtGuard" for w
    using S program_step.worker [of U 0 w p] by (auto simp: worker_step_def)
  show "mainpc p = Returned 0"
  proof (cases "mainpc p")
    case (Joining k)
    have "threads p w = Exited" for w
      using I Joining N g [of w] by (cases "threads p w") (auto simp: process_ok_def main_ok_def)
    then show ?thesis
      using m Joining by (auto simp: main_step_def split: if_splits)
  qed (use m I in \<open>auto simp: main_step_def process_ok_def main_ok_def split: if_splits\<close>)
qed

text \<open>Which polls can keep the process from stopping at the end of \<open>main\<close>, and why.\<close>

definition decoder_stuck :: "'r Process \<Rightarrow> bool" where
  "decoder_stuck p \<longleftrightarrow> threads p DecoderThread = InPoll \<and>
     (let s = daemon p; spans = contents kPipelineQueueCapacity (fst (raw_ch (receiver s)))
      in unat kPipelineQueueCapacity <
           length (contents kPipelineQueueCapacity (inbound (engine s))) + length (batch_msgs (d_mem s) (take 64 spans)))"

definition matching_stuck :: "'r Process \<Rightarrow> bool" where
  "matching_stuck p \<longleftrightarrow> threads p MatchingThread = InPoll \<and>
     (let me = engine (daemon p); ms = take 64 (contents kPipelineQueueCapacity (inbound me))
      in admissible_run (heard (daemon p) @ ms) daemon_exchange \<longrightarrow>
           unat kPipelineQueueCapacity <
             length (contents kPipelineQueueCapacity (fst (outbound me))) + length (fst (exchange_run ms (exchange_of me))))"

definition sender_stuck :: "'r Process \<Rightarrow> bool" where
  "sender_stuck p \<longleftrightarrow> threads p SenderThread = InPoll \<and>
     unat (UringSender.free_count (sender (daemon p))) <
       length (contents kPipelineQueueCapacity (fst (outbound (engine (daemon p)))))"

lemma stopped_stuck:
  assumes I: "process_good U view p" and S: "\<forall>q. \<not> program_step U p q" and w: "threads p w = InPoll"
  shows "decoder_stuck p \<or> matching_stuck p \<or> sender_stuck p"
proof -
  let ?s = "daemon p"
  have C: "uring_contract U 256 view" and T: "trace_inv view ?s"
    using I by (simp_all add: process_good_def trace_good_def)
  note D = trace_invD [OF T] and F = stopped_worker [OF S w]
  show ?thesis
  proof (cases w)
    case ReceiverThread
    then show ?thesis
      using F [of 0] receiver_turn_returns [OF C D(1)] by auto
  next
    case DecoderThread
    then show ?thesis
      using F [of 0] w decoder_turn_returns_iff [OF D(1)] by (auto simp: decoder_stuck_def Let_def simp del: length_contents)
  next
    case SenderThread
    have "sender_turn U fuel ?s \<noteq> Inr t" for fuel t
      using F [of fuel] SenderThread by auto
    then show ?thesis
      using w SenderThread sender_turn_returns [OF C D(1)] by (auto simp: sender_stuck_def simp del: length_contents)
  next
    case MatchingThread
    have "unat kPipelineQueueCapacity < length (contents kPipelineQueueCapacity (fst (outbound (engine ?s)))) +
        length (fst (exchange_run ms (exchange_of (engine ?s))))"
      if A: "admissible_run (heard ?s @ ms) daemon_exchange"
        and ms: "ms = take 64 (contents kPipelineQueueCapacity (inbound (engine ?s)))" for ms
    proof -
      have X: "exact (engine ?s)" "admissible_run ms (exchange_of (engine ?s))"
        using D(4) A by (simp_all add: follows_def admissible_run_append)
      show ?thesis
        using F [of 0] MatchingThread matching_turn_returns_iff [OF X(1) D(2) X(2) [unfolded ms]] unfolding ms
        by (auto simp del: length_contents)
    qed
    then show ?thesis
      using w MatchingThread by (auto simp: matching_stuck_def Let_def simp del: length_contents)
  qed
qed

subsection \<open>Schedules\<close>

text \<open>A schedule says who moves next; running one computes a path of the process.\<close>

datatype choice = Main | Worker worker | Raise int

fun perform :: "'r liburing \<Rightarrow> nat \<Rightarrow> choice list \<Rightarrow> 'r Process \<Rightarrow> 'r Process option" where
  "perform U fuel [] p = Some p"
| "perform U fuel (c # cs) p =
     (case (case c of
        Main \<Rightarrow> main_step p
      | Worker w \<Rightarrow> worker_step U fuel w p
      | Raise n \<Rightarrow> Some (p\<lparr>daemon := (daemon p)\<lparr>g_running := signal_handler n (g_running (daemon p))\<rparr>\<rparr>)) of
        None \<Rightarrow> None
      | Some q \<Rightarrow> perform U fuel cs q)"

lemma perform_steps: "perform U fuel cs p = Some q \<Longrightarrow> (process_step U view)\<^sup>*\<^sup>* p q"
proof (induction cs arbitrary: p)
  case (Cons c cs)
  then obtain r where r: "perform U fuel cs r = Some q"
    and s: "(case c of Main \<Rightarrow> main_step p | Worker w \<Rightarrow> worker_step U fuel w p
      | Raise n \<Rightarrow> Some (p\<lparr>daemon := (daemon p)\<lparr>g_running := signal_handler n (g_running (daemon p))\<rparr>\<rparr>)) = Some r"
    by (auto split: option.splits)
  have "process_step U view p r"
    using s unfolding process_step_def
    by (cases c) (auto intro: program_step.intros env_step.signal)
  then show ?case
    using Cons.IH [OF r] by (rule converse_rtranclp_into_rtranclp)
qed simp

text \<open>A schedule without signals consists of steps of the program.\<close>

lemma perform_program:
  assumes "perform U fuel cs p = Some q" and "\<forall>n. Raise n \<notin> set cs"
  shows "(((env_step view)\<^sup>*\<^sup>* OO program_step U) ^^ length cs) p q"
  using assms
proof (induction cs arbitrary: p)
  case (Cons c cs)
  then obtain r where r: "perform U fuel cs r = Some q"
    and s: "(case c of Main \<Rightarrow> main_step p | Worker w \<Rightarrow> worker_step U fuel w p
      | Raise n \<Rightarrow> Some (p\<lparr>daemon := (daemon p)\<lparr>g_running := signal_handler n (g_running (daemon p))\<rparr>\<rparr>)) = Some r"
    by (auto split: option.splits)
  have "program_step U p r"
    using s Cons.prems(2) by (cases c) (auto intro: program_step.intros)
  then have "((env_step view)\<^sup>*\<^sup>* OO program_step U) p r"
    by blast
  moreover have "(((env_step view)\<^sup>*\<^sup>* OO program_step U) ^^ length cs) r q"
    using Cons.IH [OF r] Cons.prems(2) by simp
  ultimately show ?case
    unfolding list.size(4) add_0_right add_Suc_right by (rule relpowp_Suc_I2)
qed simp

lemma rounds_steps: "(((env_step view)\<^sup>*\<^sup>* OO program_step U) ^^ n) p q \<Longrightarrow> (process_step U view)\<^sup>*\<^sup>* p q"
proof (induction n arbitrary: q)
  case (Suc n)
  then obtain r e where "(process_step U view)\<^sup>*\<^sup>* p r" "(env_step view)\<^sup>*\<^sup>* r e" "program_step U e q"
    by auto
  moreover have "(env_step view)\<^sup>*\<^sup>* \<le> (process_step U view)\<^sup>*\<^sup>*"
    by (intro rtranclp_mono predicate2I) (simp add: process_step_def)
  ultimately have "(process_step U view)\<^sup>*\<^sup>* p e" "process_step U view e q"
    by (auto simp: process_step_def intro: steps_trans)
  then show ?case
    by (rule rtranclp.rtrancl_into_rtrancl)
qed simp

text \<open>All threads start, a signal arrives, all leave their loops.\<close>

definition stop_early :: "choice list" where
  "stop_early = [Main, Main, Main, Main, Main, Raise SIGTERM]"

definition leave_all :: "choice list" where
  "leave_all = [Main, Worker ReceiverThread, Worker SenderThread, Worker DecoderThread, Worker MatchingThread,
     Main, Main, Main, Main, Main, Main, Main, Main]"

definition quick_exit :: "choice list" where
  "quick_exit = stop_early @ leave_all"

lemma perform_append: "perform U fuel (cs @ ds) p = Option.bind (perform U fuel cs p) (perform U fuel ds)"
  by (induction cs arbitrary: p) (auto split: option.splits)

lemma quick_exit_result:
  assumes "mainpc p = Spawning 0" and "released p = []"
  shows "\<exists>q. perform U fuel quick_exit p = Some q \<and> mainpc q = Returned 0 \<and> \<not> g_running (daemon q) \<and>
    (\<forall>w. threads q w = Exited) \<and> daemon q = (daemon p)\<lparr>g_running := False\<rparr> \<and>
    released q = close_sockets (sockets p) @ release_all (daemon q)"
  using assms
  by (simp add: quick_exit_def stop_early_def leave_all_def main_step_def worker_step_def workers_def signal_handler_def SIGTERM_def release_all_def
      cong: if_cong) (metis worker.exhaust)

definition demo_start :: "int option list \<Rightarrow> (main_pc \<times> os_call list) + sim_ring Process" where
  "demo_start script = main_start (sim_uring script) (\<lambda>_ _. Some (\<lambda>_. undefined)) (\<lambda>n. (0, of_nat n)) 0 262144 (\<lambda>_. 0)
     (0, 3, 4) (-1, -1)"

lemma demo_start_result:
  obtains p where "demo_start script = Inr p" "process_start (sim_uring script) sim_view p"
    "mainpc p = Spawning 0" "released p = []" "sockets p = (3, 4)" "demo_main script = Inr (daemon p)"
    "threads p = (\<lambda>_. NotStarted)"
proof -
  obtain s where s: "demo_main script = Inr s"
    by (rule demo_daemon)
  let ?p = "\<lparr>daemon = s, threads = (\<lambda>_. NotStarted), mainpc = Spawning 0, sockets = (3, 4), released = [], printed = None\<rparr>"
  have "demo_start script = Inr ?p"
    using s by (simp add: demo_start_def main_start_def demo_main_def demo_over_def open_sockets_def)
  moreover from this have "process_start (sim_uring script) sim_view ?p"
    unfolding process_start_def demo_start_def using sim_uring_contract by blast
  ultimately show thesis
    using that [of ?p] s by simp
qed

subsection \<open>An engine that waits for a sender that is gone\<close>

text \<open>
  The first messages of the engine's batch send more than the outbound queue takes. Nobody but the
  sender makes room there; the decoder can only add messages behind them.
\<close>

definition jammed :: "InboundOrderMsg list \<Rightarrow> 'r Daemon \<Rightarrow> bool" where
  "jammed ms s \<longleftrightarrow> length ms \<le> 64 \<and> prefix ms (contents kPipelineQueueCapacity (inbound (engine s))) \<and>
     (\<forall>q. spsc_ok kPipelineQueueCapacity q \<longrightarrow> (\<exists>f. dispatch_all ms ((engine s)\<lparr>inbound := q\<rparr>) = Inl f))"

lemma dispatch_all_append:
  "dispatch_all (ms @ ns) me = ebind (dispatch_all ms me) (dispatch_all ns)"
proof (induction ms arbitrary: me)
  case (Cons m ms)
  then have "dispatch_all (ms @ ns) = (\<lambda>me. ebind (dispatch_all ms me) (dispatch_all ns))"
    by (simp add: fun_eq_iff)
  then show ?case
    by (simp add: ebind_assoc)
qed simp

lemma jammed_blocks:
  assumes J: "jammed ms s" and ok: "spsc_ok kPipelineQueueCapacity (inbound (engine s))"
  shows "\<exists>f. matching_turn s = Inl f"
proof -
  obtain q where q: "spsc_ok kPipelineQueueCapacity q" and p: "engine_poll 64 (engine s) =
      ebind (dispatch_all (take 64 (contents kPipelineQueueCapacity (inbound (engine s)))) ((engine s)\<lparr>inbound := q\<rparr>))
        (\<lambda>me1. Inr (min 64 (length (contents kPipelineQueueCapacity (inbound (engine s)))),
            me1\<lparr>orders_processed := orders_processed me1 +
              of_nat (min 64 (length (contents kPipelineQueueCapacity (inbound (engine s)))))\<rparr>))"
    using engine_poll_pops [OF ok, of 64, unfolded min.idem] by blast
  obtain ns where "take 64 (contents kPipelineQueueCapacity (inbound (engine s))) = ms @ ns"
    using J by (auto simp: jammed_def prefix_def)
  moreover obtain f where "dispatch_all ms ((engine s)\<lparr>inbound := q\<rparr>) = Inl f"
    using J q by (auto simp: jammed_def)
  ultimately show ?thesis
    by (simp add: matching_turn_def p dispatch_all_append)
qed

definition hung :: "('r \<Rightarrow> ring_view) \<Rightarrow> InboundOrderMsg list \<Rightarrow> 'r Process \<Rightarrow> bool" where
  "hung view ms p \<longleftrightarrow> process_ok p \<and> lines_ok view (daemon p) \<and> threads p SenderThread = Exited \<and>
     threads p MatchingThread = InPoll \<and> jammed ms (daemon p)"

lemma jammed_lines_worker:
  assumes C: "uring_contract U 256 view" and L: "lines_ok view s" and J: "jammed ms s"
    and w: "w \<noteq> SenderThread" and t: "turn U fuel w s = Inr t"
  shows "lines_ok view t \<and> jammed ms t"
proof (cases w)
  case ReceiverThread
  then have r: "receiver_turn U s = Inr t"
    using t by simp
  obtain n rx ys where "rx_poll U 65 (receiver s) = Inr (n, rx)"
    "rx_inv view (length (snd (raw_ch (receiver s)))) rx"
    "t = s\<lparr>receiver := rx, posted_bytes := posted_bytes s @ map (span_bytes (d_mem s)) ys\<rparr>"
    by (rule receiver_turn_result [OF C L r])
  then show ?thesis
    using L J rx_poll_silent [of U 65 "receiver s" n rx] by (simp add: lines_ok_def jammed_def)
next
  case DecoderThread
  let ?rx = "receiver s" and ?spans = "contents kPipelineQueueCapacity (fst (raw_ch (receiver s)))"
  have d: "decoder_turn s = Inr t"
    using DecoderThread t by simp
  obtain rq inb ret where
    R: "t = s\<lparr>decoder := batch_counted (d_mem s) (take 64 ?spans) (decoder s),
       receiver := ?rx\<lparr>raw_ch := (rq, snd (raw_ch ?rx) @ take 64 ?spans), ret_q := ret\<rparr>,
       engine := (engine s)\<lparr>inbound := inb\<rparr>\<rparr>"
    "spsc_ok kPipelineQueueCapacity rq" "contents kPipelineQueueCapacity rq = drop 64 ?spans"
    "spsc_ok kPipelineQueueCapacity inb" "contents kPipelineQueueCapacity inb =
       contents kPipelineQueueCapacity (inbound (engine s)) @ batch_msgs (d_mem s) (take 64 ?spans)"
    "spsc_ok kBufReturnCapacity ret" "contents kBufReturnCapacity ret =
       contents kBufReturnCapacity (ret_q ?rx) @ map rs_buf_id (take 64 ?spans)"
    by (rule decoder_turn_result [OF L d])
  have "rx_inv view (length (snd (raw_ch ?rx))) ?rx"
    using L by (simp add: lines_ok_def)
  note H = hand_over_inv [OF this R(2,3) R(6,7)]
  show ?thesis
    using H(1) L J R(4,5) by (auto simp: lines_ok_def jammed_def R(1))
next
  case MatchingThread
  then show ?thesis
    using jammed_blocks [OF J] L t by (auto simp: lines_ok_def)
qed (use w in simp)

lemma hung_step:
  assumes C: "uring_contract U 256 view" and H: "hung view ms p" and S: "process_step U view p q"
  shows "hung view ms q"
proof -
  have ok: "process_ok q"
    using H S by (auto simp: hung_def intro: process_step_ok)
  have L: "lines_ok view (daemon p)" and J: "jammed ms (daemon p)"
    and T: "threads p SenderThread = Exited" "threads p MatchingThread = InPoll"
    using H by (simp_all add: hung_def)
  from S consider (worker) fuel w where "worker_step U fuel w p = Some q" | (main) "main_step p = Some q" | (env) "env_step view p q"
    by (auto simp: process_step_def elim!: program_stepE)
  then show ?thesis
  proof cases
    case worker
    then show ?thesis
    proof (cases rule: worker_step_Some)
      case guard
      then show ?thesis
        using ok L J T by (auto simp: hung_def)
    next
      case (poll s)
      have w: "w \<noteq> SenderThread" "w \<noteq> MatchingThread"
        using poll T jammed_blocks [OF J] L by (auto simp: lines_ok_def)
      from jammed_lines_worker [OF C L J w(1) poll(2)] show ?thesis
        using ok T w poll by (auto simp: hung_def)
    qed
  next
    case main
    have "threads q w = threads p w" if "threads p w \<noteq> NotStarted" for w
      using main H that by (auto simp: main_step_def hung_def process_ok_def main_ok_def split: main_pc.splits if_splits)
    then show ?thesis
      using ok L J T main_step_daemon [OF main] by (simp add: hung_def)
  next
    case env
    then have "threads q = threads p" "lines_ok view (daemon q)" "jammed ms (daemon q)"
      using L J by (auto elim!: env_stepE simp: lines_ok_def jammed_def)
    then show ?thesis
      using ok T by (simp add: hung_def)
  qed
qed

interpretation hng: safety_machine "\<lambda>p. uring_contract U 256 view \<and> hung view ms p" "process_step U view"
    "\<lambda>p. uring_contract U 256 view \<and> hung view ms p" for U view ms
  by unfold_locales (auto intro: hung_step)

text \<open>Reports that do not fit jam the engine.\<close>

lemma overfull_jammed:
  assumes X: "exact (engine s)" and P: "pauses (engine s) = []"
  defines "ms \<equiv> take 64 (contents kPipelineQueueCapacity (inbound (engine s)))"
  assumes A: "admissible_run ms (exchange_of (engine s))"
    and full: "unat kPipelineQueueCapacity <
      length (contents kPipelineQueueCapacity (fst (outbound (engine s)))) + length (fst (exchange_run ms (exchange_of (engine s))))"
  shows "jammed ms s"
proof -
  let ?me = "engine s" and ?out = "contents kPipelineQueueCapacity (fst (outbound (engine s)))"
  have "\<exists>f. dispatch_all ms (?me\<lparr>inbound := q\<rparr>) = Inl f" if q: "spsc_ok kPipelineQueueCapacity q" for q
  proof (cases "dispatch_all ms (?me\<lparr>inbound := q\<rparr>)")
    case (Inr me')
    let ?start = "?me\<lparr>inbound := q\<rparr>"
    have X0: "exact ?start" "exchange_of ?start = exchange_of ?me"
      using exact_same [OF X, of ?start] q engine_invD(1) [OF exactD(1) [OF X]] by (simp_all add: out_ok_def)
    have M: "run_meets (length (fst (exchange_run ms (exchange_of ?me)))) ?start
        (refines_step (exchange_run ms (exchange_of ?me)) ?start) (\<lambda>x. x) (dispatch_all ms ?start)"
      using dispatch_all_refines_exchange [OF X0(1), of ms, unfolded X0(2), OF A] .
    have R: "refines_step (exchange_run ms (exchange_of ?me)) ?start me'"
      using run_meetsD(1) [OF M Inr] .
    show ?thesis
      using refines_step_fits [OF R dispatch_all_quiet [OF Inr]] P full by (simp del: length_contents)
  qed blast
  then show ?thesis
    by (simp add: jammed_def ms_def take_is_prefix)
qed

subsection \<open>Construction\<close>




section \<open>Properties of the main program\<close>

text \<open>C13: After a signal the process comes to an end. Once \<open>g_running\<close> is cleared, the four workers and the
  main thread together take at most 27 more steps, however they interleave with each other, with
  further signals and with the kernel; a complete poll counts as one step. However far they have got, they
  can go on within this bound until no thread has a step left, and then either \<open>main\<close> has
  returned 0 or a decoder, engine or sender is caught in a poll whose output does not fit.\<close>

theorem shutdown_terminates:
  assumes "process_start U view p0" and "(process_step U view)\<^sup>*\<^sup>* p0 p" and "\<not> g_running (daemon p)"
    and "(((env_step view)\<^sup>*\<^sup>* OO program_step U) ^^ n) p q"
  shows "n \<le> 27 \<and> (\<exists>m r. n + m \<le> 27 \<and> (program_step U ^^ m) q r \<and> (\<forall>t. \<not> program_step U r t) \<and>
    (mainpc r = Returned 0 \<or> decoder_stuck r \<or> matching_stuck r \<or> sender_stuck r))"
proof -
  have q: "n + remaining q \<le> 27" "\<not> g_running (daemon q)"
    using shut.rounds_rank [OF assms(4,3)] remaining_le [of p] by simp_all
  obtain m r where r: "m \<le> remaining q" "(program_step U ^^ m) q r" "\<forall>t. \<not> program_step U r t"
    using shut.runs_out [OF q(2)] by blast
  have "(program_step U)\<^sup>*\<^sup>* \<le> (process_step U view)\<^sup>*\<^sup>*"
    by (intro rtranclp_mono predicate2I) (simp add: process_step_def)
  then have "(process_step U view)\<^sup>*\<^sup>* p0 r"
    using assms(2) rounds_steps [OF assms(4)] relpowp_imp_rtranclp [OF r(2)] by (meson predicate2D steps_trans)
  then have I: "process_good U view r"
    using prc.reachable_inv [OF assms(1)] by blast
  then have "mainpc r = Returned 0 \<or> decoder_stuck r \<or> matching_stuck r \<or> sender_stuck r"
    using stopped_main [OF _ r(3)] stopped_stuck [OF I r(3)] by (auto simp: process_good_def)
  then show ?thesis
    using q(1) r by (intro conjI exI [of _ m] exI [of _ r]) auto
qed

theorem shutdown_terminates_witness:
  "case demo_start [] of
     Inl _ \<Rightarrow> False
   | Inr p \<Rightarrow>
       (case perform (sim_uring []) 0 stop_early p of
          None \<Rightarrow> False
        | Some q \<Rightarrow> \<not> g_running (daemon q) \<and> length leave_all \<le> 27 \<and>
            (\<exists>r. (((env_step sim_view)\<^sup>*\<^sup>* OO program_step (sim_uring [])) ^^ length leave_all) q r \<and> mainpc r = Returned 0) \<and>
            (\<exists>m r. m \<le> 27 \<and> (program_step (sim_uring []) ^^ m) q r \<and> (\<forall>t. \<not> program_step (sim_uring []) r t)))"
proof -
  let ?U = "sim_uring []"
  obtain p where p: "demo_start [] = Inr p" "process_start ?U sim_view p" "mainpc p = Spawning 0" "released p = []"
    by (rule demo_start_result)
  obtain r where r: "perform ?U 0 quick_exit p = Some r" "mainpc r = Returned 0"
    using quick_exit_result [OF p(3,4)] by blast
  then obtain q where q: "perform ?U 0 stop_early p = Some q" "perform ?U 0 leave_all q = Some r"
    by (auto simp: quick_exit_def perform_append bind_eq_Some_conv)
  have g: "\<not> g_running (daemon q)"
    using q(1) p(3) by (auto simp: stop_early_def main_step_def workers_def signal_handler_def SIGTERM_def)
  have run: "(((env_step sim_view)\<^sup>*\<^sup>* OO program_step ?U) ^^ length leave_all) q r"
    by (rule perform_program [OF q(2)]) (simp add: leave_all_def)
  have none: "(((env_step sim_view)\<^sup>*\<^sup>* OO program_step ?U) ^^ 0) q q"
    by simp
  note T = shutdown_terminates [OF p(2) perform_steps [OF q(1)] g]
  show ?thesis
    using T [OF run] T [OF none] run r(2) g p(1) q(1) by auto
qed

text \<open>C12: When the process has stopped after a signal, it has shut down cleanly or a worker is caught in
  a poll. In every reachable state in which no thread can take a step any more, either \<open>main\<close> has
  returned 0, with all threads joined, the final counters printed, and the sockets, the two rings and
  the pool released in this order, each once; or the decoder waits for room in the
  inbound queue, or the engine for room in the outbound queue, or the sender for a free send
  buffer, and what it has to hand on does not fit (for the engine: as long as its messages are
  admissible). The receiver is never caught.\<close>

theorem shutdown_completes:
  assumes "process_start U view p0" and "(process_step U view)\<^sup>*\<^sup>* p0 p" and "\<forall>q. \<not> program_step U p q"
  shows "mainpc p = Returned 0 \<and> (\<forall>w. threads p w = Exited) \<and> printed p = Some (final_statistics (daemon p)) \<and>
      released p = close_sockets (sockets p) @ UringSender_destroy (sender (daemon p)) @
        UringReceiver_destroy (receiver (daemon p)) @ OrderPool_destroy (pool (engine (daemon p))) \<or>
    decoder_stuck p \<or> matching_stuck p \<or> sender_stuck p"
proof -
  have I: "process_good U view p"
    by (rule prc.reachable_inv [OF assms(1,2)])
  then have M: "process_ok p"
    by (simp add: process_good_def)
  show ?thesis
    using stopped_main [OF M assms(3)] stopped_stuck [OF I assms(3)] M
    by (auto simp: process_ok_def main_ok_def all_exited_def release_all_def)
qed

theorem shutdown_completes_witness:
  "case demo_start [] of
     Inl _ \<Rightarrow> False
   | Inr p \<Rightarrow>
       (case perform (sim_uring []) 0 quick_exit p of
          None \<Rightarrow> False
        | Some q \<Rightarrow> printed q = Some (final_statistics (daemon q)) \<and>
            (\<exists>rest. released q = [CloseFd 3, CloseFd 4, TxQueueExit] @ rest))"
proof -
  obtain p where p: "demo_start [] = Inr p" "process_start (sim_uring []) sim_view p"
    "mainpc p = Spawning 0" "released p = []" "sockets p = (3, 4)"
    by (rule demo_start_result)
  obtain q where q: "perform (sim_uring []) 0 quick_exit p = Some q" "mainpc q = Returned 0"
    "\<forall>w. threads q w = Exited" "released q = close_sockets (sockets p) @ release_all (daemon q)"
    using quick_exit_result [OF p(3,4)] by blast
  have "\<not> program_step (sim_uring []) q r" for r
    using q(2,3) by (auto elim!: program_stepE simp: main_step_def worker_step_def)
  from shutdown_completes [OF p(2) perform_steps [OF q(1)]] this have "printed q = Some (final_statistics (daemon q))"
    using q(3) by (simp add: decoder_stuck_def matching_stuck_def sender_stuck_def)
  then show ?thesis
    using p(1) q(1,4) by (simp add: p(5) close_sockets_def release_all_def UringSender_destroy_def)
qed

text \<open>C14: The shutdown can hang. Suppose that in a reachable state the sender thread has left its loop while the
  engine is inside a poll, that the messages the engine has taken and those of this poll are admissible, and that the reports
  they cause do not fit the outbound queue. Then the engine never gets out of the poll: whatever
  the other threads, the kernel and signals do afterwards, the matching thread stays in its
  poll, \<open>main\<close> never gets past joining it, nothing is printed and nothing is released. The witness
  is a run from the start of the process to such a state.\<close>

theorem shutdown_hangs:
  assumes start: "process_start U view p0" and reach: "(process_step U view)\<^sup>*\<^sup>* p0 p"
    and sender: "threads p SenderThread = Exited" and matching: "threads p MatchingThread = InPoll"
    and ms: "take 64 (contents kPipelineQueueCapacity (inbound (engine (daemon p)))) = ms"
      "admissible_run (heard (daemon p) @ ms) daemon_exchange"
    and full: "unat kPipelineQueueCapacity < length (contents kPipelineQueueCapacity (fst (outbound (engine (daemon p))))) +
      length (fst (exchange_run ms (exchange_of (engine (daemon p)))))"
    and S: "(process_step U view)\<^sup>*\<^sup>* p q"
  shows "threads q MatchingThread = InPoll \<and> (\<forall>c. mainpc q \<noteq> Returned c) \<and> printed q = None \<and> released q = []"
proof -
  have C: "uring_contract U 256 view" and T: "trace_inv view (daemon p)" and ok: "process_ok p"
    using prc.reachable_inv [OF start reach] by (simp_all add: process_good_def trace_good_def)
  note D = trace_invD [OF T]
  have X: "exact (engine (daemon p))" "admissible_run ms (exchange_of (engine (daemon p)))"
    using D(4) ms(2) by (simp_all add: follows_def admissible_run_append)
  have "hung view ms p"
    using ok daemon_inv_lines [OF D(1)] sender matching overfull_jammed [OF X(1) D(2)] ms(1) X(2) full
    by (simp add: hung_def del: length_contents)
  then have H: "hung view ms q"
    using hng.reachable_inv [OF _ S] C by blast
  then show ?thesis
    by (cases "mainpc q") (auto simp: hung_def process_ok_def main_ok_def all_exited_def)
qed

theorem shutdown_hangs_witness:
  "case flood_start of
     Inl _ \<Rightarrow> False
   | Inr p \<Rightarrow> (\<exists>q. (process_step (sim_uring (flood_script 1025)) sim_view)\<^sup>*\<^sup>* p q \<and> threads q SenderThread = Exited \<and>
       {r. (process_step (sim_uring (flood_script 1025)) sim_view)\<^sup>*\<^sup>* q r} \<inter> {r. mainpc r = Returned 0} = {})"
proof -
  let ?U = "sim_uring (flood_script 1025)"
  obtain p q where p: "flood_start = Inr p" and r: "(process_step ?U sim_view)\<^sup>*\<^sup>* p q"
    and q: "threads q SenderThread = Exited" "threads q MatchingThread = InPoll"
      "heard (daemon q) = replicate 65536 stray_order" "contents kPipelineQueueCapacity (inbound (engine (daemon q))) = flood_msgs"
      "length (contents kPipelineQueueCapacity (fst (outbound (engine (daemon q))))) = 65536"
      "exchange_of (engine (daemon q)) = daemon_exchange"
    by (rule flood_reached)
  have s: "process_start ?U sim_view p"
    unfolding process_start_def using p sim_uring_contract unfolding flood_start_def by blast
  have ms: "take 64 (contents kPipelineQueueCapacity (inbound (engine (daemon q)))) = replicate 64 stray_order"
    using q(4) by (simp add: flood_msgs_def)
  have a: "admissible_run (heard (daemon q) @ replicate 64 stray_order) daemon_exchange"
    using stray_run(1) [of "65536 + 64"] by (simp only: q(3) replicate_add)
  have f: "unat kPipelineQueueCapacity < length (contents kPipelineQueueCapacity (fst (outbound (engine (daemon q))))) +
      length (fst (exchange_run (replicate 64 stray_order) (exchange_of (engine (daemon q)))))"
    unfolding q(5,6) stray_run(2) fst_conv length_replicate by (simp add: kPipelineQueueCapacity_def)
  have "mainpc t \<noteq> Returned 0" if "(process_step ?U sim_view)\<^sup>*\<^sup>* q t" for t
    using shutdown_hangs [OF s r q(1,2) ms a f that] by blast
  then show ?thesis
    unfolding p sum.case(2) using r q(1) by blast
qed



end
