(* ===== verification/Spec2Isabelle.thy ===== *)
theory Spec2Isabelle
  imports Examples Spsc_Memory Book_Laws Shutdown
begin

text \<open>
  \<^bold>\<open>NanoMatch-OME: an order matching engine.\<close>

  The program is a pipeline of four threads joined by lock-free queues. The receiver
  (\<open>src/src/io/uring_receiver.hpp\<close>) takes bytes from a socket into fixed buffers and posts spans of
  them to the decoder (\<open>src/src/io/decoder.hpp\<close>), which turns them into order messages
  (\<open>src/src/io/wire_protocol.hpp\<close>) for the matching engine (\<open>src/src/matching/matching_engine.hpp\<close>).
  The engine keeps one order book per instrument (\<open>src/src/lob/order_book.hpp\<close>), takes its order
  records (\<open>src/src/core/order.hpp\<close>) from a preallocated pool (\<open>src/src/core/order_pool.hpp\<close>) and
  posts execution reports to the sender (\<open>src/src/io/uring_sender.hpp\<close>). The queues are those of
  \<open>src/src/spsc/spsc_queue.hpp\<close>; \<open>src/src/main.cpp\<close> builds and runs all of it.

  \<^bold>\<open>The theories, from the bottom.\<close>
  \<^item> \<open>Prelude\<close>: machine types, faults as values (\<open>fault\<close>, \<open>ebind\<close>), the locales \<open>safety_machine\<close> of
    a step relation with an invariant and \<open>ranked_machine\<close> of one that winds down, and generic lemmas.
  \<^item> \<open>Order_Core\<close>, \<open>Order_Pool\<close>: the order record; the slab with its intrusive free list as a heap
    \<open>addr \<Rightarrow> Order\<close>, \<open>acquire\<close>, \<open>release\<close>, \<open>reset\<close>, the constructor with its two \<open>mmap\<close> attempts as
    a parameter. Ownership: a slot is handed out at most once.
  \<^item> \<open>Spsc_Queue\<close>, \<open>Spsc_Concurrent\<close>, \<open>Spsc_Memory\<close>: the ring buffer with 64-bit wrapping indices, single, batch and
    busy-waiting operations, and the message structs; the locale \<open>bounded_fifo\<close> is the contract the
    stages use. The second theory interleaves the loads and stores of one producer and one consumer;
    the third puts the single and the batch operations into the release/acquire memory of C++, with data races
    and the memory orders as a parameter. A call that is not interrupted there does what the function of
    \<open>Spsc_Queue\<close> does (\<open>calls_alone\<close>).
  \<^item> \<open>Price_Level\<close>, \<open>Order_Book\<close>: the doubly linked queue of a price and the book, method by method.
    \<open>Order_Book_Inv\<close> has the representation invariant, \<open>Order_Book_Ops\<close> that each operation keeps
    it, \<open>Book_Spec\<close> the abstract book (two price-time sorted lists of entries) and \<open>Book_Laws\<close>
    what each public operation does to it (locale \<open>priority_book\<close>).
  \<^item> \<open>Matching_Engine\<close>: the engine, method by method. \<open>Engine_Refine\<close> relates the sweep to the
    reference \<open>match_spec\<close>, \<open>Engine_Spec\<close> states \<open>order_spec\<close>, what an order of each type does to the
    two lists and which reports it causes, \<open>Engine_Route\<close> and \<open>Engine_Inv\<close> show that
    \<open>handle_new_order\<close> implements it, \<open>Engine_Run\<close> adds cancels, dispatch and poll and the invariant of
    every reachable engine, \<open>Engine_Outcome\<close> consequences such as the absence of leaked slots,
    \<open>Examples\<close> the concrete engines of the witnesses. \<open>Exchange\<close>: an abstract exchange (markets of
    quotes, a number of free slots) and that the engine implements it, message by message and run by
    run, report for report.
  \<^item> \<open>Wire_Protocol\<close>: the message structs byte by byte (locale \<open>wire_codec\<close>: size, round trip,
    locality). \<open>Decoder\<close>: decoder and encoder over a byte memory, and \<open>parse_stream\<close>, the reference
    reading of a byte string, which \<open>decode_span\<close> refines.
  \<^item> \<open>Uring\<close>: liburing as a parameter (\<open>liburing\<close>, a record of the calls made) with the contract
    \<open>uring_contract\<close>, and a ring that satisfies it for the witnesses. \<open>Uring_Receiver\<close>: the receiver
    and who owns each buffer (\<open>rx_own\<close>). \<open>Rx_Path\<close>: receiver, decoder and kernel interleaved.
    \<open>Uring_Sender\<close>: the sender and its buffers (\<open>tx_own\<close>).
  \<^item> \<open>Daemon\<close>: construction and signal handler of \<open>main\<close>, the polls of the four threads, the
    invariant of the whole pipeline and when each poll returns. \<open>Live_Run\<close>: runs over the reference
    ring for the witnesses, and the first properties of the daemon. \<open>Daemon_Trace\<close>: the pipeline as an exchange from received to sent
    bytes, its counters and its types.
  \<^item> \<open>Main_Program\<close>: the rest of \<open>main\<close>: sockets, construction failures, the threads with their loop
    guards, supervision, joining, statistics, destructors, as an interleaving of the main thread, the
    workers, the kernel and signals that refines the steps of \<open>Daemon\<close>. \<open>Flood_Run\<close>: a run of the
    process that fills the outbound queue and leaves the engine waiting for a sender that is gone. \<open>Shutdown\<close>: what happens
    after a signal and when construction fails.
  \<^item> this theory: the properties of the engine.

  \<^bold>\<open>State and effects.\<close> A pointer to an order is the index of its slot; the heap is part of the
  pool. A method that changes its object returns it updated; a method that may dereference
  \<open>nullptr\<close>, wait forever or fail an assertion returns \<open>fault + state\<close>. The assertions of the I/O
  stages are shown never to fail; that of \<open>match_fok\<close> is left out, as in a release build. What
  another core or the
  kernel contributes is an input: a schedule of the consumer during a busy-wait, the values of the
  clock, the ring. Integers have their width (\<open>8\<close> to \<open>64 word\<close>) except prices, which are \<open>int\<close>: every
  price that matters lies on a book's grid, and the codecs convert to and from the 64-bit field.

  \<^bold>\<open>Bounds and fuel.\<close> \<open>do_sweep\<close> gets one iteration more than the aggressor's quantity, and each
  iteration fills at least one unit. The receiver's completion loop gets 65, as at most 64
  requests can complete before the next submission. The sender's loops get what the caller gives;
  257 and one more than the number of waiting reports are enough when the reports fit the free
  buffers, and \<open>tx_poll_livelock\<close> shows that no amount is enough otherwise; a step of the process may
  use any amount. All other loops terminate by a measure.

  \<^bold>\<open>Granularity.\<close> A poll takes effect as a whole when it ends, on the queues as they are then. A poll
  of the engine that has to wait for the sender half-way is therefore not a step of \<open>Daemon\<close>; how it
  proceeds while the consumer makes room is shown for the engine alone, where the consumer's schedule
  is an input. The interleaving of single loads and stores is the subject of \<open>Spsc_Concurrent\<close> and \<open>Spsc_Memory\<close>.
  \<open>Exchange\<close> speaks of admissible messages: order ids not in use on the instrument, limit prices on the
  grid, side totals below \<open>2 ^ 32\<close>, and no fill-or-kill price that the availability check misjudges;
  the general theorems of this theory do not need it.

  \<^bold>\<open>What is shown.\<close> The engine refines price-time priority matching for every order type, keeps its
  books well formed and uncrossed, conserves quantity and slots, and answers every message. The
  queue is a bounded FIFO for every index position and under two threads, free of data races with the memory
  orders it uses and with none weaker. The daemon as a whole is an
  exchange from wire to wire with exact statistics. After a signal it takes at most 27 more steps, it does get to a point where no step is left, and when it stops, it
  has shut down cleanly or a poll waits for room that is not there. A message a client
  encodes reaches the engine unchanged and in order, the bytes of a span cannot change while the
  decoder reads them, each receive buffer is in one place, the sender transmits the reports in
  order and drops none. Some theorems record behaviour a user would not expect: off-grid limit
  orders keep their slot (\<open>offgrid_limit_leaks\<close>), the level total wraps (\<open>level_total_wraps\<close>), a
  buy priced below the range is told that the lowest level is available
  (\<open>available_below_range\<close>), a message cut by a span boundary is lost (\<open>decode_drops_cut_message\<close>), and a burst of more than 256
  reports hangs the sender (\<open>tx_poll_livelock\<close>), and an engine that waits for a sender that has already stopped
  hangs the shutdown (\<open>shutdown_hangs\<close>, with a run from the start that gets there).

  \<^bold>\<open>Not modelled.\<close> Padding and cache-line layout, the C++ memory model beyond the accesses of the queue
  (every load of \<open>g_running\<close> returns its current value here), console output other than the final statistics, timing (the main thread's sleep); the
  benchmarks, the tests and the build files. The kernel and liburing are known through their
  contract only, and the system calls that open sockets through their results. Memory for the engine, the
  books, the queues and the buffers is always granted (no \<open>std::bad_alloc\<close>; only the \<open>mmap\<close> of the pool can fail), and
  a thread can always be created (no \<open>std::system_error\<close>).
\<close>

section \<open>Orders entering the engine\<close>

text \<open>C3: A new order for a known instrument, when the pool has a free slot, is handled exactly as
  the specification of its order type says: the reports sent are the specified ones in the
  specified order, stamped with successive clock readings; the two priority lists of its
  instrument are the specified ones; every other instrument is untouched; the engine is
  well-formed again and its counters count the reports.\<close>

theorem new_order_refines:
  assumes "engine_ok me" and "iid = im_instrument_id msg" and "books me iid = Some b"
    and "free_list (pool me) = a # fl"
    and "ty = order_type_of_u8 (im_type msg)" and "s = (side_of_u8 (im_side msg) = Buy)"
    and "v = is_valid_price b (im_price msg)"
    and "av = available_quantity_at_or_better b (side_of_u8 (im_side msg)) (im_price msg)"
    and "order_spec ty s v av (msg_entry msg a) (view_of me iid s) (view_of me iid (\<not> s)) =
      (reps, own', opp')"
    and "handle_new_order msg me = Inr me'"
  shows "handled iid 1 reps (\<lambda>x. if x = s then own' else opp') me me'"
  using run_meetsD(1) [OF new_order_meets [OF assms(1-9)] assms(10)] by blast

theorem new_order_refines_witness:
  "\<exists>me'. handle_new_order (ex_sell 2 4) ex_bid = Inr me' \<and>
     view_of me' 7 True = [ex_entry\<lparr>e_qty := 6\<rparr>] \<and> view_of me' 7 False = [] \<and>
     sent me' = stamp (clock ex_bid) 2
       [report PartialFill 1 2 105 4 6, report Fill 2 1 105 4 0]"
proof -
  obtain b where b: "books ex_bid 7 = Some b"
    by (rule ex_bid_book)
  obtain a fl where fl: "free_list (pool ex_bid) = a # fl"
    by (rule ex_bid_free)
  obtain me' where run: "handle_new_order (ex_sell 2 4) ex_bid = Inr me'"
    by (rule ex_bid_new)
  have H: "handled 7 1 [report PartialFill 1 2 105 4 6, report Fill 2 1 105 4 0]
      (\<lambda>x. if x = False then [] else [ex_entry\<lparr>e_qty := 6\<rparr>]) ex_bid me'"
    by (rule new_order_refines [OF ex_bid_inv(1) _ b fl refl _ refl refl _ run])
       (simp_all add: ex_sell_fields ex_types ex_bid_inv(3) ex_entry_def pair_reports_def Let_def
         crosses_def residual_ack_def)
  then show ?thesis
    using run ex_bid_inv(4,5) handledD(2,8) [OF H] by (simp add: numeral_2_eq_2)
qed

text \<open>A new order is always answered: the handler returns whenever the outbound queue can take
  the reports the specification lists, and it can only fail to return by waiting on that
  queue: it never dereferences null and its sweep never runs out of iterations.\<close>

theorem new_order_returns:
  assumes "engine_ok me" and "iid = im_instrument_id msg" and "books me iid = Some b"
    and "free_list (pool me) = a # fl"
    and "ty = order_type_of_u8 (im_type msg)" and "s = (side_of_u8 (im_side msg) = Buy)"
    and "v = is_valid_price b (im_price msg)"
    and "av = available_quantity_at_or_better b (side_of_u8 (im_side msg)) (im_price msg)"
    and "order_spec ty s v av (msg_entry msg a) (view_of me iid s) (view_of me iid (\<not> s)) =
      (reps, own', opp')"
  shows "(can_send (length reps) me \<longrightarrow> (\<exists>me'. handle_new_order msg me = Inr me')) \<and>
    (\<forall>e. handle_new_order msg me = Inl e \<longrightarrow> e = Blocked)"
  using run_meetsD(2) [OF new_order_meets [OF assms]] run_meetsD(3) [OF new_order_meets [OF assms], of 0]
  by auto

theorem new_order_returns_witness:
  "\<exists>me'. handle_new_order (ex_sell 2 4) ex_bid = Inr me'"
proof -
  obtain b where b: "books ex_bid 7 = Some b"
    by (rule ex_bid_book)
  obtain a fl where fl: "free_list (pool ex_bid) = a # fl"
    by (rule ex_bid_free)
  have "can_send (length [report PartialFill 1 2 105 4 6, report Fill 2 1 105 4 0]) ex_bid"
    using can_send_le [OF _ ex_bid_meets(6)] by simp
  then show ?thesis
    using new_order_returns [OF ex_bid_inv(1) _ b fl refl refl refl refl,
      of "ex_sell 2 4" "[report PartialFill 1 2 105 4 6, report Fill 2 1 105 4 0]" "[]" "[ex_entry\<lparr>e_qty := 6\<rparr>]"]
    by (simp add: ex_sell_fields ex_types ex_bid_inv(3) ex_entry_def pair_reports_def Let_def
         crosses_def residual_ack_def)
qed

text \<open>C4: In every state an engine can reach from construction, by submitting and polling messages,
  registering instruments, resetting, and the other threads acting on its queues, all
  intrusive lists, cursors, indexes and the free list are well-formed, no slot is in two
  places, and no book is crossed: every bid is below every ask.\<close>

theorem reachable_engine:
  assumes "engine_init me0" and "engine_step\<^sup>*\<^sup>* me0 me"
  shows "engine_ok me \<and> (\<forall>iid. uncrossed (view_of me iid))"
  using eng.reachable_inv [OF assms] by (simp add: engine_inv_def)

theorem reachable_engine_witness:
  "engine_ok (ex_bid\<lparr>orders_processed := 1\<rparr>) \<and>
   uncrossed (view_of (ex_bid\<lparr>orders_processed := 1\<rparr>) 7)"
  using reachable_engine [OF ex_start_init ex_bid_inv(6)] by blast

text \<open>C26: In every reachable state every message is dispatched without fault: dispatch can only
  wait on the outbound queue, and it returns when that queue can take two reports per
  pool slot and one more.\<close>

theorem dispatch_total:
  assumes "engine_init me0" and "engine_step\<^sup>*\<^sup>* me0 me"
  shows "(\<forall>e. dispatch msg me = Inl e \<longrightarrow> e = Blocked) \<and>
    (can_send (2 * Capacity (pool me) + 1) me \<longrightarrow> (\<exists>me'. dispatch msg me = Inr me'))"
  using run_meetsD(2) [OF dispatch_dispatched [OF eng.reachable_inv [OF assms], of msg]]
    run_meetsD(3) [OF dispatch_dispatched [OF eng.reachable_inv [OF assms], of msg], of 0]
  by (auto simp: max_reports_def)

theorem dispatch_total_witness: "\<exists>me'. dispatch (ex_sell 0 25) ex_engine = Inr me'"
proof -
  have "engine_step\<^sup>*\<^sup>* ex_start ex_engine"
    using ex_engine_step by blast
  moreover have "can_send (2 * Capacity (pool ex_engine) + 1) ex_engine"
    using can_send_le [OF _ ex_engine_can_send] by (simp add: ex_engine_fields ex_pool_ok)
  ultimately show ?thesis
    using dispatch_total [OF ex_start_init] by blast
qed

section \<open>Order types\<close>

text \<open>C5: Price-time priority of the sweep. The resting orders that trade are a prefix of the
  opposite side's priority list, all at qualifying prices; every one of them but the last
  is filled completely and leaves the book, the last may be reduced in place and keeps its
  position, the rest is untouched, and so is the aggressor's own side; each trade is reported once
  for the resting order and once for the aggressor, in priority order. The lists afterwards are read
  off the returned book, which is well formed over the returned heap and pool; the slots that left
  the book are free, and none is lost.\<close>

theorem sweep_price_time_priority:
  assumes "sweeping me b q fl agg" and "s = is_buy (orders me agg)"
    and "do_sweep (sweep_budget agg me) ok agg me b = Inr (me', b')"
  shows "\<exists>pre suf q' fl' reps. book_repr (orders me') b' q' \<and> pool_repr (pool me') fl' \<and>
    live b' q' \<inter> set fl' = {} \<and> set fl' \<union> live b' q' = set fl \<union> live b q \<and>
    side_view (orders me') b' q' s = side_view (orders me) b q s \<and> side_view (orders me) b q (\<not> s) = pre @ suf \<and>
    (\<forall>e \<in> set pre. ok (e_price e)) \<and>
    sent me' = sent me @ stamp (clock me) (clock_calls me) reps \<and>
    map er_order_id reps = concat (map (\<lambda>e. [e_id e, order_id (orders me agg)]) pre) \<and>
    (side_view (orders me') b' q' (\<not> s) = suf \<or>
     (\<exists>pre1 e f. pre = pre1 @ [e] \<and> 0 < f \<and> f < e_qty e \<and> quantity (orders me' agg) = 0 \<and>
        side_view (orders me') b' q' (\<not> s) = e\<lparr>e_qty := e_qty e - f\<rparr> # suf))"
proof -
  let ?es = "side_view (orders me) b q (\<not> s)" and ?aid = "order_id (orders me agg)"
  obtain reps r es' where m: "match_spec ok ?aid (quantity (orders me agg)) ?es = (reps, r, es')"
    by (metis prod.collapse)
  have M: "sweep_meets me b q fl agg (reps, r, es') (do_sweep (sweep_budget agg me) ok agg me b)"
    using do_sweep_budget [OF assms(1,2), of ok] m by simp
  obtain q' fl' where W: "swept me b q fl agg reps r me' b' q' fl'" and es: "side_view (orders me') b' q' (\<not> s) = es'"
    using run_meetsD(1) [OF M [unfolded sweep_meets_def prod.case] assms(3)] assms(2) by auto
  have r: "quantity (orders me' agg) = r" and st: "sent me' = sent me @ stamp (clock me) (clock_calls me) reps"
    using sweptD(6,15) [OF W] by simp_all
  note D = sweepingD(2,1,7) [OF sweptD(1) [OF W]] sweptD(3) [OF W] sweptD(7) [OF W, folded assms(2)]
  from m show ?thesis
  proof (cases rule: match_spec_prefix)
    case (exact pre)
    then show ?thesis
      using D es st by blast
  next
    case (part pre e es1 f)
    then have "?es = (pre @ [e]) @ es1"
      by simp
    with part show ?thesis
      using D es st r by blast
  qed
qed

theorem sweep_price_time_priority_witness:
  "\<exists>me b q fl a me' b'. sweeping me b q fl a \<and> side_view (orders me) b q True = [ex_entry] \<and>
     do_sweep (sweep_budget a me) (\<lambda>p. 104 \<le> p) a me b = Inr (me', b') \<and>
     (\<exists>pre suf q' reps. book_repr (orders me') b' q' \<and> [ex_entry] = pre @ suf \<and> (\<forall>e \<in> set pre. 104 \<le> e_price e) \<and>
        sent me' = sent me @ stamp (clock me) (clock_calls me) reps \<and>
        map er_order_id reps = concat (map (\<lambda>e. [e_id e, 2]) pre) \<and>
        (side_view (orders me') b' q' True = suf \<or>
         (\<exists>pre1 e f. pre = pre1 @ [e] \<and> 0 < f \<and> f < e_qty e \<and> quantity (orders me' a) = 0 \<and>
            side_view (orders me') b' q' True = e\<lparr>e_qty := e_qty e - f\<rparr> # suf)))"
proof -
  obtain me b q fl a where S: "sweeping me b q fl a" and o: "\<not> is_buy (orders me a)" "order_id (orders me a) = 2"
    "side_view (orders me) b q True = [ex_entry]" "quantity (orders me a) = 4" "can_send 50000 me"
    by (rule ex_sweep)
  have "match_spec (\<lambda>p. 104 \<le> p) 2 4 [ex_entry] =
      ([report PartialFill 1 2 105 4 6, report Fill 2 1 105 4 0], 0, [ex_entry\<lparr>e_qty := 6\<rparr>])"
    by (simp add: ex_entry_def pair_reports_def Let_def)
  then have M: "sweep_meets me b q fl a
      ([report PartialFill 1 2 105 4 6, report Fill 2 1 105 4 0], 0, [ex_entry\<lparr>e_qty := 6\<rparr>])
      (do_sweep (sweep_budget a me) (\<lambda>p. 104 \<le> p) a me b)"
    using do_sweep_budget [OF S refl, of "\<lambda>p. 104 \<le> p"] o by simp
  have "can_send (length [report PartialFill 1 2 105 4 6, report Fill 2 1 105 4 0] + 0) me"
    using can_send_le [OF _ o(5)] by simp
  then obtain me' b' where run: "do_sweep (sweep_budget a me) (\<lambda>p. 104 \<le> p) a me b = Inr (me', b')"
    using run_meetsD(3) [OF M [unfolded sweep_meets_def prod.case], of 0] by auto
  have "\<exists>pre suf q' reps. book_repr (orders me') b' q' \<and> [ex_entry] = pre @ suf \<and> (\<forall>e \<in> set pre. 104 \<le> e_price e) \<and>
      sent me' = sent me @ stamp (clock me) (clock_calls me) reps \<and>
      map er_order_id reps = concat (map (\<lambda>e. [e_id e, 2]) pre) \<and>
      (side_view (orders me') b' q' True = suf \<or>
       (\<exists>pre1 e f. pre = pre1 @ [e] \<and> 0 < f \<and> f < e_qty e \<and> quantity (orders me' a) = 0 \<and>
          side_view (orders me') b' q' True = e\<lparr>e_qty := e_qty e - f\<rparr> # suf))"
    using sweep_price_time_priority [OF S _ run, of False] o by simp blast
  then show ?thesis
    using S o(3) run by blast
qed

text \<open>C6: Fill-or-kill is all or nothing. When the level aggregates are exact, the limit is one the
  index arithmetic handles and the reachable volume fits 32 bits: if the opposite orders at
  the limit or better cannot cover the quantity, the order is rejected and both lists are
  unchanged; otherwise exactly its whole quantity trades, every trade at the limit or
  better, and its own side is unchanged.\<close>

theorem fok_all_or_nothing:
  assumes "engine_ok me" and "iid = im_instrument_id msg" and "books me iid = Some b"
    and "free_list (pool me) = a # fl" and "order_type_of_u8 (im_type msg) = FOK"
    and "s = (side_of_u8 (im_side msg) = Buy)" and "qty_exact me iid"
    and "limit_exact b s (im_price msg)"
    and "crossing_qty s (im_price msg) (view_of me iid (\<not> s)) < 2 ^ 32"
    and "handle_new_order msg me = Inr me'"
  shows "\<exists>reps. sent me' = sent me @ stamp (clock me) (Suc (clock_calls me)) reps \<and>
    view_of me' iid s = view_of me iid s \<and>
    (if crossing_qty s (im_price msg) (view_of me iid (\<not> s)) < unat (im_quantity msg)
     then reps = [report Reject (im_order_id msg) 0 0 0 (im_quantity msg)] \<and>
       view_of me' iid (\<not> s) = view_of me iid (\<not> s)
     else (\<forall>r \<in> set reps. is_trade r \<and> crosses s (im_price msg) (er_exec_price r)) \<and>
       total_qty (view_of me iid (\<not> s)) =
         total_qty (view_of me' iid (\<not> s)) + unat (im_quantity msg))"
proof -
  let ?p = "im_price msg" and ?n = "im_quantity msg" and ?opp = "view_of me iid (\<not> s)"
  let ?av = "available_quantity_at_or_better b (side_of_u8 (im_side msg)) ?p"
  have av: "unat ?av = crossing_qty s ?p ?opp"
    by (rule engine_available_exact [OF assms(1,3,7,6,8,9)])
  obtain reps own' opp' where sp: "order_spec FOK s (is_valid_price b ?p) ?av (msg_entry msg a)
      (view_of me iid s) ?opp = (reps, own', opp')"
    by (metis prod.collapse)
  have H: "handled iid 1 reps (\<lambda>x. if x = s then own' else opp') me me'"
    using run_meetsD(1) [OF new_order_meets [OF assms(1-4) assms(5) [symmetric] assms(6) refl refl sp] assms(10)] by blast
  have F: "fok_outcome s (msg_entry msg a) (view_of me iid s) ?opp reps own' opp'"
    by (rule order_spec_fok [OF sp]) (simp_all add: av msg_entry_def view_sorted_ok [OF assms(1)])
  show ?thesis
    using F handledD(2,8) [OF H]
    by (intro exI [of _ reps], cases "crossing_qty s ?p ?opp < unat ?n") (simp_all add: fok_outcome_def msg_entry_def)
qed

theorem fok_all_or_nothing_witness:
  "\<exists>me1 me2. handle_new_order (ex_sell 3 11) ex_bid = Inr me1 \<and> view_of me1 7 = view_of ex_bid 7 \<and>
     sent me1 = stamp (clock ex_bid) 2 [report Reject 2 0 0 0 11] \<and>
     handle_new_order (ex_sell 3 10) ex_bid = Inr me2 \<and> total_qty (view_of me2 7 True) = 0"
proof -
  obtain b where b: "books ex_bid 7 = Some b" and g: "same_grid ex_book b"
    by (rule ex_bid_book)
  obtain a fl where fl: "free_list (pool ex_bid) = a # fl"
    by (rule ex_bid_free)
  obtain me1 where r1: "handle_new_order (ex_sell 3 11) ex_bid = Inr me1"
    by (rule ex_bid_new)
  obtain me2 where r2: "handle_new_order (ex_sell 3 10) ex_bid = Inr me2"
    by (rule ex_bid_new)
  have l: "limit_exact b False 104"
    using g by (simp add: limit_exact_def same_grid_def ex_book_def OrderBook_new_fields)
  have c: "crossing_qty False 104 [ex_entry] = 10"
    by (simp add: crossing_qty_def crosses_def ex_entry_def)
  note F = fok_all_or_nothing [OF ex_bid_inv(1) _ b fl _ _ ex_bid_meets(4), of _ False]
  have 1: "view_of me1 7 False = view_of ex_bid 7 False" "view_of me1 7 True = view_of ex_bid 7 True"
    "sent me1 = stamp (clock ex_bid) 2 [report Reject 2 0 0 0 11]"
    using F [of "ex_sell 3 11" me1] r1 l c
    by (auto simp: ex_sell_fields ex_types ex_bid_inv(3,4) ex_bid_clock)
  have "total_qty (view_of me2 7 True) = 0"
    using F [of "ex_sell 3 10" me2] r2 l c
    by (auto simp: ex_sell_fields ex_types ex_bid_inv(3)) (simp add: ex_entry_def)
  moreover have "view_of me1 7 = view_of ex_bid 7"
    using 1(1,2) by (simp add: fun_eq_iff all_bool_eq)
  ultimately show ?thesis
    using r1 r2 1(3) by blast
qed

text \<open>C8: Immediate-or-cancel and market orders never rest: their own side is unchanged and no slot
  is lost. They trade as much as the opposite side offers at qualifying prices, and what
  is left over is acknowledged as cancelled, exactly once and only if it is not zero; that is so for
  market orders too, whose remainder the comment above \<open>match_market\<close> calls silently discarded.\<close>

theorem ioc_market_never_rest:
  assumes "engine_ok me" and "iid = im_instrument_id msg" and "books me iid = Some b"
    and "free_list (pool me) = a # fl"
    and "order_type_of_u8 (im_type msg) = IOC \<or> order_type_of_u8 (im_type msg) = Market"
    and "s = (side_of_u8 (im_side msg) = Buy)"
    and "ok = (if order_type_of_u8 (im_type msg) = IOC then crosses s (im_price msg) else (\<lambda>_. True))"
    and "handle_new_order msg me = Inr me'"
  shows "\<exists>reps r. view_of me' iid s = view_of me iid s \<and> (no_leak me \<longrightarrow> no_leak me') \<and>
    sent me' = sent me @ stamp (clock me) (Suc (clock_calls me))
      (reps @ (if r = 0 then [] else [report CancelAck (im_order_id msg) 0 0 0 r])) \<and>
    (\<forall>x \<in> set reps. is_trade x \<and> ok (er_exec_price x)) \<and> r \<le> im_quantity msg \<and>
    total_qty (view_of me iid (\<not> s)) =
      total_qty (view_of me' iid (\<not> s)) + (unat (im_quantity msg) - unat r) \<and>
    (r \<noteq> 0 \<longrightarrow> view_of me' iid (\<not> s) = [] \<or> \<not> ok (e_price (hd (view_of me' iid (\<not> s)))))"
proof -
  let ?ty = "order_type_of_u8 (im_type msg)" and ?e = "msg_entry msg a"
  let ?av = "available_quantity_at_or_better b (side_of_u8 (im_side msg)) (im_price msg)"
  obtain reps r opp' where m: "match_spec ok (im_order_id msg) (im_quantity msg) (view_of me iid (\<not> s)) = (reps, r, opp')"
    by (metis prod.collapse)
  have sp: "order_spec ?ty s (is_valid_price b (im_price msg)) ?av ?e (view_of me iid s) (view_of me iid (\<not> s)) =
      (reps @ residual_ack (im_order_id msg) r, view_of me iid s, opp')"
    using assms(5) m by (auto simp: msg_entry_def assms(7))
  note H = run_meetsD(1) [OF new_order_meets [OF assms(1-4) refl assms(6) refl refl sp] assms(8)]
  have V: "view_of me' iid s = view_of me iid s" "view_of me' iid (\<not> s) = opp'"
    using handledD(2) [OF conjunct1 [OF H]] by simp_all
  show ?thesis
    using V handledD(8) [OF conjunct1 [OF H]] H assms(5) match_spec_trades [OF m] match_spec_conserves [OF m]
      match_spec_maximal [OF m]
    by (intro exI [of _ reps] exI [of _ r]) (auto simp: residual_ack_def slot_kept_def)
qed

theorem ioc_market_never_rest_witness:
  "\<exists>me' (r :: u32). handle_new_order (ex_sell 2 12) ex_bid = Inr me' \<and> view_of me' 7 False = [] \<and> no_leak me' \<and>
     r \<le> 12 \<and> 10 = total_qty (view_of me' 7 True) + (12 - unat r)"
proof -
  obtain b where b: "books ex_bid 7 = Some b"
    by (rule ex_bid_book)
  obtain a fl where fl: "free_list (pool ex_bid) = a # fl"
    by (rule ex_bid_free)
  obtain me' where run: "handle_new_order (ex_sell 2 12) ex_bid = Inr me'"
    by (rule ex_bid_new)
  have "no_leak ex_bid"
    by (rule ex_bid_meets(3))
  then show ?thesis
    using ioc_market_never_rest [OF ex_bid_inv(1) _ b fl _ _ refl run, of False] run
    by (auto simp: ex_sell_fields ex_types ex_bid_inv(3) ex_entry_def)
qed

text \<open>C7: A limit order whose price is a level of its book (in the range and on a tick) trades what
  crosses and rests the remainder. The trades are at prices at the limit or better; a remainder is inserted behind every resting order of the same or a
  better price and in front of every worse one, and then no order of the opposite side is
  left that crosses it; with no remainder its own side is unchanged. No slot is lost.\<close>

theorem limit_order_rests:
  assumes "engine_ok me" and "iid = im_instrument_id msg" and "books me iid = Some b"
    and "free_list (pool me) = a # fl" and "order_type_of_u8 (im_type msg) = Limit"
    and "s = (side_of_u8 (im_side msg) = Buy)" and "is_valid_price b (im_price msg)"
    and "handle_new_order msg me = Inr me'"
  shows "\<exists>reps r. sent me' = sent me @ stamp (clock me) (Suc (clock_calls me)) reps \<and>
    (\<forall>x \<in> set reps. is_trade x \<and> crosses s (im_price msg) (er_exec_price x)) \<and> r \<le> im_quantity msg \<and>
    total_qty (view_of me iid (\<not> s)) =
      total_qty (view_of me' iid (\<not> s)) + (unat (im_quantity msg) - unat r) \<and>
    (no_leak me \<longrightarrow> no_leak me') \<and>
    (if r = 0 then view_of me' iid s = view_of me iid s
     else (\<forall>y \<in> set (view_of me' iid (\<not> s)). \<not> crosses s (im_price msg) (e_price y)) \<and>
       (\<exists>us vs. view_of me iid s = us @ vs \<and>
          view_of me' iid s = us @ (msg_entry msg a)\<lparr>e_qty := r\<rparr> # vs \<and>
          (\<forall>u \<in> set us. \<not> better s (im_price msg) (e_price u)) \<and>
          (\<forall>v \<in> set vs. better s (im_price msg) (e_price v))))"
proof -
  let ?p = "im_price msg" and ?e = "msg_entry msg a" and ?opp = "view_of me iid (\<not> s)"
  obtain reps r opp' where m: "match_spec (crosses s ?p) (im_order_id msg) (im_quantity msg) ?opp = (reps, r, opp')"
    by (metis prod.collapse)
  have sp: "order_spec Limit s True av ?e (view_of me iid s) ?opp =
      (reps, if r = 0 then view_of me iid s else insert_entry s (?e\<lparr>e_qty := r\<rparr>) (view_of me iid s), opp')" for av
    using m by (simp add: msg_entry_def)
  note N = new_order_meets [OF assms(1-4) assms(5) [symmetric] assms(6) _ refl sp]
  have v: "True = is_valid_price b ?p"
    using assms(7) by simp
  note H = run_meetsD(1) [OF N [OF v] assms(8)]
  have V: "view_of me' iid (\<not> s) = opp'"
    "view_of me' iid s = (if r = 0 then view_of me iid s else insert_entry s (?e\<lparr>e_qty := r\<rparr>) (view_of me iid s))"
    using handledD(2) [OF conjunct1 [OF H]] by simp_all
  obtain us vs where ins: "view_of me iid s = us @ vs"
    "insert_entry s (?e\<lparr>e_qty := r\<rparr>) (view_of me iid s) = us @ ?e\<lparr>e_qty := r\<rparr> # vs"
    "\<forall>u \<in> set us. \<not> better s ?p (e_price u)" "\<forall>v \<in> set vs. better s ?p (e_price v)"
    using insert_entry_split [OF view_sorted_ok [OF assms(1), of s iid], of "?e\<lparr>e_qty := r\<rparr>"]
    by (auto simp: msg_entry_def)
  have nc: "r \<noteq> 0 \<Longrightarrow> \<forall>y \<in> set opp'. \<not> crosses s ?p (e_price y)"
    using match_spec_none_cross [OF m view_sorted_ok [OF assms(1)]] by blast
  have st: "sent me' = sent me @ stamp (clock me) (Suc (clock_calls me)) reps" and nl: "no_leak me \<longrightarrow> no_leak me'"
    using handledD(8) [OF conjunct1 [OF H]] H by (simp_all add: slot_kept_def)
  show ?thesis
    unfolding V
    by (intro exI [of _ reps] exI [of _ r] conjI st nl match_spec_conserves [OF m])
       (use match_spec_trades [OF m] nc ins in auto)
qed

theorem limit_order_rests_witness:
  "\<exists>me' (r :: u32). handle_new_order (ex_sell 0 15) ex_bid = Inr me' \<and> no_leak me' \<and>
     10 = total_qty (view_of me' 7 True) + (15 - unat r) \<and> r \<le> 15 \<and>
     (r = 0 \<longrightarrow> view_of me' 7 False = []) \<and>
     (r \<noteq> 0 \<longrightarrow> map e_price (view_of me' 7 False) = [104])"
proof -
  obtain b where b: "books ex_bid 7 = Some b"
    by (rule ex_bid_book)
  obtain a fl where fl: "free_list (pool ex_bid) = a # fl"
    by (rule ex_bid_free)
  obtain me' where run: "handle_new_order (ex_sell 0 15) ex_bid = Inr me'"
    by (rule ex_bid_new)
  show ?thesis
    using limit_order_rests [OF ex_bid_inv(1) _ b fl _ _ _ run, of False] ex_bid_valid(1) [OF b] ex_bid_meets(3) run
    by (auto simp: ex_sell_fields ex_types ex_bid_inv(3) split: if_splits) (simp_all add: ex_entry_def, blast+)
qed

text \<open>C9: Trades balance. For every order type, and whatever order ids are in use, the quantities of the
  trade reports a new order causes add up to exactly twice what the opposite side of its book lost
  (each trade is reported to both sides), never more than twice its quantity; the engine counts one
  fill per pair of reports. If no order of the opposite side has the id of the new order, the
  reports addressed to this id say exactly what the opposite side lost.\<close>

theorem trades_balance:
  assumes "engine_ok me" and "iid = im_instrument_id msg" and "books me iid = Some b"
    and "free_list (pool me) = a # fl" and "s = (side_of_u8 (im_side msg) = Buy)"
    and "handle_new_order msg me = Inr me'"
  shows "\<exists>reps. sent me' = sent me @ stamp (clock me) (Suc (clock_calls me)) reps \<and>
    2 * total_qty (view_of me iid (\<not> s)) = 2 * total_qty (view_of me' iid (\<not> s)) + volume reps \<and>
    volume reps \<le> 2 * unat (im_quantity msg) \<and>
    fills_executed me' = fills_executed me + of_nat (length (filter is_trade reps) div 2) \<and>
    ((\<forall>x \<in> set (view_of me iid (\<not> s)). e_id x \<noteq> im_order_id msg) \<longrightarrow>
     total_qty (view_of me iid (\<not> s)) = total_qty (view_of me' iid (\<not> s)) + traded (im_order_id msg) reps)"
proof -
  let ?ty = "order_type_of_u8 (im_type msg)" and ?e = "msg_entry msg a" and ?v = "is_valid_price b (im_price msg)"
  let ?av = "available_quantity_at_or_better b (side_of_u8 (im_side msg)) (im_price msg)"
  obtain reps own' opp' where sp: "order_spec ?ty s ?v ?av ?e (view_of me iid s) (view_of me iid (\<not> s)) =
      (reps, own', opp')"
    by (metis prod.collapse)
  have H: "handled iid 1 reps (\<lambda>x. if x = s then own' else opp') me me'"
    using run_meetsD(1) [OF new_order_meets [OF assms(1-4) refl assms(5) refl refl sp] assms(6)] by blast
  show ?thesis
    using order_spec_volume [OF sp] order_spec_traded [OF sp] handledD(2,8,12) [OF H]
    by (intro exI [of _ reps]) (simp add: msg_entry_def)
qed

theorem trades_balance_witness:
  "\<exists>me' reps. handle_new_order (ex_sell 1 4) ex_bid = Inr me' \<and>
     sent me' = stamp (clock ex_bid) 2 reps \<and> 20 = 2 * total_qty (view_of me' 7 True) + volume reps \<and> volume reps \<le> 8 \<and>
     10 = total_qty (view_of me' 7 True) + traded 2 reps"
proof -
  obtain b where b: "books ex_bid 7 = Some b"
    by (rule ex_bid_book)
  obtain a fl where fl: "free_list (pool ex_bid) = a # fl"
    by (rule ex_bid_free)
  obtain me' where run: "handle_new_order (ex_sell 1 4) ex_bid = Inr me'"
    by (rule ex_bid_new)
  have e: "e_id ex_entry = 1" "unat (e_qty ex_entry) = 10"
    by (simp_all add: ex_entry_def)
  have "\<exists>reps. sent me' = stamp (clock ex_bid) 2 reps \<and> 20 = 2 * total_qty (view_of me' 7 True) + volume reps \<and>
      volume reps \<le> 8 \<and> 10 = total_qty (view_of me' 7 True) + traded 2 reps"
    using trades_balance [OF ex_bid_inv(1) _ b fl _ run, of False]
    by (simp add: ex_sell_fields ex_bid_inv(3,4) e ex_bid_clock) blast
  then show ?thesis
    using run by blast
qed

text \<open>C27: A cancel of a resting order removes exactly that order. When every resting order is in
  the index, cancelling by id removes the order from its list, keeps all others in place,
  acknowledges its remaining quantity once, frees its slot and leaves the aggregates exact.\<close>

theorem cancel_by_id:
  assumes "engine_ok me" and "iid = im_instrument_id msg" and "books me iid = Some b" and "index_full me iid"
    and "e \<in> set (view_of me iid s)" and "e_id e = im_order_id msg" and "handle_cancel msg me = Inr me'"
  shows "handled iid 0 [report CancelAck (im_order_id msg) 0 0 0 (e_qty e)]
      (\<lambda>x. filter (\<lambda>y. e_slot y \<noteq> e_slot e) (view_of me iid x)) me me' \<and>
    (no_leak me \<longrightarrow> no_leak me') \<and> (qty_exact me iid \<longrightarrow> qty_exact me' iid) \<and> index_full me' iid"
proof -
  obtain Q fl where E: "engine_repr me Q fl"
    using assms(1) by (auto simp: engine_ok_def)
  note F = view_find [OF assms(1,3,4,5)]
  show ?thesis
    using run_meetsD(1) [OF handle_cancel_meets [OF E assms(2,3)] assms(7)] F assms(4,6) by simp
qed

theorem cancel_by_id_witness:
  "\<exists>me'. handle_cancel (ex_cancel 1) ex_bid = Inr me' \<and> view_of me' 7 True = [] \<and> no_leak me' \<and>
     sent me' = stamp (clock ex_bid) 1 [report CancelAck 1 0 0 0 10]"
proof -
  obtain b where b: "books ex_bid 7 = Some b"
    by (rule ex_bid_book)
  obtain me' where run: "handle_cancel (ex_cancel 1) ex_bid = Inr me'"
    by (rule ex_bid_cancel)
  have e: "e_id ex_entry = 1" "e_qty ex_entry = 10" "ex_entry \<in> set (view_of ex_bid 7 True)"
    by (simp_all add: ex_entry_def ex_bid_inv(3))
  note C = cancel_by_id [OF ex_bid_inv(1) _ b ex_bid_meets(5) e(3) _ run]
  have "handled 7 0 [report CancelAck 1 0 0 0 10]
      (\<lambda>x. filter (\<lambda>y. e_slot y \<noteq> e_slot ex_entry) (view_of ex_bid 7 x)) ex_bid me'" "no_leak me'"
    using C ex_bid_meets(3) by (simp_all add: ex_cancel_fields e)
  then show ?thesis
    using run handledD(2,8) [of 7 0 _ _ ex_bid me'] ex_bid_inv(3,4,5) by auto
qed

text \<open>A cancel (or a modify, which the engine treats as a cancel) of an order that does not
  rest in its instrument's book, or for an unknown instrument, changes nothing and sends
  nothing.\<close>

theorem cancel_unknown_noop:
  assumes "engine_ok me" and "\<forall>s. \<forall>e \<in> set (view_of me (im_instrument_id msg) s). e_id e \<noteq> im_order_id msg"
    and "im_kind msg = Cancel \<or> im_kind msg = Modify"
  shows "dispatch msg me = Inr me"
proof -
  have "handle_cancel msg me = Inr me"
  proof (cases "books me (im_instrument_id msg)")
    case (Some b)
    then have "find_order b (im_order_id msg) = None"
      using find_view [OF assms(1) Some, of "im_order_id msg"] assms(2) by (metis option.exhaust)
    then show ?thesis
      using Some handle_cancel_unknown(2) by blast
  qed (rule handle_cancel_unknown(1))
  then show ?thesis
    using assms(3) by (auto simp: dispatch_def)
qed

theorem cancel_unknown_noop_witness: "dispatch (ex_cancel 9) ex_bid = Inr ex_bid"
  by (rule cancel_unknown_noop [OF ex_bid_inv(1)])
     (simp_all add: ex_cancel_fields ex_bid_inv(3), simp add: ex_entry_def)

text \<open>An order for an unknown instrument, or one that finds the pool exhausted, is rejected:
  exactly one reject report with its full quantity, the counter goes up by one, pool and
  books are untouched.\<close>

theorem new_order_rejected:
  assumes "engine_ok me" and "books me (im_instrument_id msg) = None \<or> free_list (pool me) = []"
    and "handle_new_order msg me = Inr me'"
  shows "pool me' = pool me \<and> books me' = books me \<and> orders_rejected me' = orders_rejected me + 1 \<and>
    sent me' = sent me @ stamp (clock me) (clock_calls me) [report Reject (im_order_id msg) 0 0 0 (im_quantity msg)]"
proof -
  have "acquire (pool me) = (None, pool me)" if "free_list (pool me) = []"
    using engine_repr_free [OF assms(1)] acquire_none engine_reprD(1) that by metis
  then have "handle_new_order msg me = reject_new msg me"
    using assms(2) by (auto simp: handle_new_order_def book_for_def split: option.splits)
  then have "reject_new msg me = Inr me'"
    using assms(3) by simp
  from run_meetsD(1) [OF reject_new_meets [OF assms(1), of "im_instrument_id msg" msg] this]
  have H: "handled (im_instrument_id msg) 0 [report Reject (im_order_id msg) 0 0 0 (im_quantity msg)]
      (view_of me (im_instrument_id msg)) me me'" and same: "pool me' = pool me" "books me' = books me"
    by blast+
  show ?thesis
    using handledD(8,13) [OF H] same by simp
qed

theorem new_order_rejected_witness:
  "\<exists>me'. handle_new_order (ex_msg\<lparr>im_instrument_id := 8\<rparr>) ex_bid = Inr me' \<and> pool me' = pool ex_bid \<and>
     sent me' = stamp (clock ex_bid) 1 [report Reject 1 0 0 0 10]"
proof -
  obtain me' where run: "handle_new_order (ex_msg\<lparr>im_instrument_id := 8\<rparr>) ex_bid = Inr me'"
    by (rule ex_bid_new)
  have "books ex_bid 8 = None"
    using handledD(6) [OF ex_bid_meets(2), of 8] by (simp add: ex_engine_fields)
  then show ?thesis
    using new_order_rejected [OF ex_bid_inv(1) _ run] run
    by (simp add: ex_bid_inv(4,5)) (simp add: ex_msg_def)
qed

section \<open>Batches, slots and resets\<close>

text \<open>\<open>poll\<close> is a batch of dispatches in arrival order. It takes the oldest messages from the
  inbound queue, never more than 64 and never more than asked for, dispatches exactly
  these in order, leaves the others queued in order, counts and returns their number; and
  it returns whenever the outbound queue can take the reports.\<close>

theorem poll_fifo:
  assumes "engine_init me0" and "engine_step\<^sup>*\<^sup>* me0 me"
    and "cs = contents kPipelineQueueCapacity (inbound me)" and "k = min (min n 64) (length cs)"
  shows "(\<forall>j me'. engine_poll n me = Inr (j, me') \<longrightarrow>
      j = k \<and> contents kPipelineQueueCapacity (inbound me') = drop k cs \<and>
      orders_processed me' = orders_processed me + of_nat k \<and>
      (\<exists>q me1. contents kPipelineQueueCapacity q = drop k cs \<and>
         dispatch_all (take k cs) (me\<lparr>inbound := q\<rparr>) = Inr me1 \<and>
         me' = me1\<lparr>orders_processed := orders_processed me1 + of_nat k\<rparr>)) \<and>
    (can_send (64 * max_reports me) me \<longrightarrow> (\<exists>me'. engine_poll n me = Inr (k, me')))"
proof -
  have inv: "engine_inv me"
    by (rule eng.reachable_inv [OF assms(1,2)])
  have tk: "take (min n 64) cs = take k cs" "drop (min n 64) cs = drop k cs"
    by (simp_all add: assms(4) min_def)
  obtain q where q: "contents kPipelineQueueCapacity q = drop k cs"
    "engine_poll n me = ebind (dispatch_all (take k cs) (me\<lparr>inbound := q\<rparr>))
       (\<lambda>me1. Inr (k, me1\<lparr>orders_processed := orders_processed me1 + of_nat k\<rparr>))"
    by (rule engine_poll_pops [OF engine_invD(2) [OF inv], of n, folded assms(3), folded assms(4), unfolded tk])
  note M = engine_poll_meets [OF inv assms(4) [unfolded assms(3)]]
  have 1: "j = k \<and> contents kPipelineQueueCapacity (inbound me') = drop k cs \<and>
      orders_processed me' = orders_processed me + of_nat k" if "engine_poll n me = Inr (j, me')" for j me'
    using run_meetsD(1) [OF M that] by (simp add: assms(3))
  have 2: "\<exists>me1. dispatch_all (take k cs) (me\<lparr>inbound := q\<rparr>) = Inr me1 \<and>
      me' = me1\<lparr>orders_processed := orders_processed me1 + of_nat k\<rparr>" if "engine_poll n me = Inr (j, me')" for j me'
    using that q(2) by (cases "dispatch_all (take k cs) (me\<lparr>inbound := q\<rparr>)") (auto simp: ebind_def)
  have 3: "\<exists>me'. engine_poll n me = Inr (k, me')" if "can_send (64 * max_reports me) me"
    using run_meetsD(3) [OF M, of 0] that 1 by fastforce
  show ?thesis
    using 1 2 3 q(1) by blast
qed

theorem poll_fifo_witness: "\<exists>me'. engine_poll 64 ex_engine = Inr (0, me')"
proof -
  have st: "engine_step\<^sup>*\<^sup>* ex_start ex_engine"
    using ex_engine_step by blast
  have cs: "contents kPipelineQueueCapacity (inbound ex_engine) = []"
    by (simp add: ex_engine_def ex_start_def add_instrument_def MatchingEngine_over_def
        conjunct2 [OF spsc_new_ok [OF kPipelineQueueCapacity_single_bit]])
  have "can_send (64 * max_reports ex_engine) ex_engine"
    using can_send_le [OF _ ex_engine_can_send] by (simp add: max_reports_def ex_engine_fields ex_pool_ok)
  then show ?thesis
    using poll_fifo [OF ex_start_init st refl refl, of 64] cs by simp
qed

text \<open>No slot is lost. If every slot is in the free list or in a book, it is so again after any
  message that is not a limit order with a price outside the levels of its book.\<close>

theorem dispatch_keeps_slots:
  assumes "engine_ok me" and "no_leak me" and "on_grid msg me" and "dispatch msg me = Inr me'"
  shows "set (free_list (pool me')) \<union> resting me' = {..<Capacity (pool me')}"
  using dispatch_no_leak [OF assms] by (simp add: no_leak_def)

theorem dispatch_keeps_slots_witness:
  "\<exists>me'. dispatch (ex_sell 2 4) ex_bid = Inr me' \<and>
     set (free_list (pool me')) \<union> resting me' = {..<Capacity (pool me')}"
proof -
  obtain me' where run: "handle_new_order (ex_sell 2 4) ex_bid = Inr me'"
    by (rule ex_bid_new)
  then have d: "dispatch (ex_sell 2 4) ex_bid = Inr me'"
    by (simp add: dispatch_def ex_sell_fields)
  have "on_grid (ex_sell 2 4) ex_bid"
    by (simp add: on_grid_def ex_sell_fields ex_types)
  then show ?thesis
    using dispatch_keeps_slots [OF ex_bid_inv(1) ex_bid_meets(3) _ d] d by blast
qed



text \<open>\<open>reset_state\<close> empties every book, makes every slot free in storage order, and keeps
  the engine well-formed, whatever was leaked before.\<close>

theorem reset_state_clears:
  assumes "engine_init me0" and "engine_step\<^sup>*\<^sup>* me0 me"
  shows "(\<forall>iid s. view_of (reset_state me) iid s = []) \<and>
    free_list (pool (reset_state me)) = [0..<Capacity (pool me)] \<and> no_leak (reset_state me) \<and>
    engine_ok (reset_state me)"
  using reset_state_inv [OF eng.reachable_inv [OF assms]] by (simp add: engine_inv_def)

theorem reset_state_clears_witness:
  "view_of (reset_state (ex_bid\<lparr>orders_processed := 1\<rparr>)) 7 True = []"
  using reset_state_clears [OF ex_start_init ex_bid_inv(6)] by blast

text \<open>\<open>add_instrument\<close> registers an empty book with the given price grid and leaves the other
  instruments alone; registering an id a second time changes nothing.\<close>

theorem add_instrument_registers:
  assumes "engine_inv me" and "valid_geometry mn mx t"
  shows "engine_inv (add_instrument me iid mn mx t) \<and>
    (if books me iid = None
     then view_of (add_instrument me iid mn mx t) = (view_of me)(iid := (\<lambda>_. [])) \<and>
       books (add_instrument me iid mn mx t) iid = Some (OrderBook_new iid mn mx t)
     else add_instrument me iid mn mx t = me)"
  using add_instrument_inv [OF assms, of iid] by (auto simp: add_instrument_def)

theorem add_instrument_registers_witness:
  "add_instrument ex_engine 7 0 5 1 = ex_engine \<and> view_of (add_instrument ex_engine 8 100 110 1) 8 True = []"
proof -
  have "valid_geometry 0 5 1"
    by (simp add: valid_geometry_def)
  then show ?thesis
    using add_instrument_registers [OF ex_engine_inv(1), of 0 5 1 7]
      add_instrument_registers [OF ex_engine_inv(1) ex_geometry, of 8] ex_engine_fields by simp
qed

end
